(* ===== verification/CL_Prelude.thy ===== *)
theory CL_Prelude
  imports Main "HOL-Library.Word"
begin

text \<open>
  Shared vocabulary of the CoreLib development: the machine types of the C++ code, the
  little-endian object representation used by \<^verbatim>\<open>memcpy\<close> of scalars, raw memory
  regions whose bytes may be indeterminate, and the generic list and word lemmas the
  component theories rely on. The target is a 64-bit little-endian POSIX system.
\<close>

unbundle bit_operations_syntax

named_theorems outcome_simps "evaluation of the effect monad"

section \<open>Machine types\<close>

type_synonym byte = "8 word"
type_synonym size_t = "64 word"
type_synonym handle = int

text \<open>
  The conversion of a \<^verbatim>\<open>ssize_t\<close> to the \<^verbatim>\<open>int\<close> that the code stores it in, and
  the conversion of an \<^verbatim>\<open>int\<close> to \<^verbatim>\<open>size_t\<close> when the two are compared.
\<close>

definition to_int :: "int \<Rightarrow> int" where
  "to_int v = sint (word_of_int v :: 32 word)"

definition int_to_size :: "int \<Rightarrow> size_t" where
  "int_to_size v = word_of_int v"

lemma to_int_id:
  assumes "- (2 ^ 31) \<le> v" "v < 2 ^ 31"
  shows "to_int v = v"
  using assms by (simp add: to_int_def sint_sbintrunc' signed_take_bit_int_eq_self)

lemma to_int_small: "0 \<le> v \<Longrightarrow> v \<le> 4096 \<Longrightarrow> to_int v = v"
  by (rule to_int_id) simp_all

lemma to_int_minus_one [simp]: "to_int (-1) = -1"
  by (rule to_int_id) simp_all

lemma to_int_zero [simp]: "to_int 0 = 0"
  by (rule to_int_id) simp_all

lemma int_to_size_of_nat [simp]: "int_to_size (int n) = of_nat n"
  by (simp add: int_to_size_def)

section \<open>Object representation of scalars\<close>

text \<open>The bytes of an unsigned scalar of \<open>n\<close> bytes, least significant first.\<close>

fun le_bytes :: "nat \<Rightarrow> nat \<Rightarrow> byte list" where
  "le_bytes 0 v = []"
| "le_bytes (Suc n) v = of_nat (v mod 256) # le_bytes n (v div 256)"

fun le_value :: "byte list \<Rightarrow> nat" where
  "le_value [] = 0"
| "le_value (b # bs) = unat b + 256 * le_value bs"

lemma length_le_bytes [simp]: "length (le_bytes n v) = n"
  by (induction n arbitrary: v) simp_all

lemma le_value_le_bytes: "le_value (le_bytes n v) = v mod 256 ^ n"
proof (induction n arbitrary: v)
  case 0
  then show ?case by simp
next
  case (Suc n)
  have "unat (of_nat (v mod 256) :: byte) = v mod 256"
    by (simp add: unat_of_nat)
  with Suc show ?case
    by (simp add: mod_mult2_eq)
qed

text \<open>A C \<^verbatim>\<open>int\<close> as four bytes, and back.\<close>

definition bytes_of_int :: "int \<Rightarrow> byte list" where
  "bytes_of_int i = le_bytes 4 (unat (word_of_int i :: 32 word))"

definition int_of_bytes :: "byte list \<Rightarrow> int" where
  "int_of_bytes bs = sint (of_nat (le_value bs) :: 32 word)"

lemma length_bytes_of_int [simp]: "length (bytes_of_int i) = 4"
  by (simp add: bytes_of_int_def)

lemma int_of_bytes_of_int: "int_of_bytes (bytes_of_int i) = to_int i"
proof -
  have "unat (word_of_int i :: 32 word) < 256 ^ 4"
    using unsigned_less [where ?'a = nat, of "word_of_int i :: 32 word"] by simp
  then show ?thesis
    by (simp add: int_of_bytes_def bytes_of_int_def to_int_def le_value_le_bytes)
qed

section \<open>Raw memory regions\<close>

text \<open>A region of memory: \<open>None\<close> is a byte whose value is indeterminate.\<close>

type_synonym region = "byte option list"

definition determined :: "byte list \<Rightarrow> region" where
  "determined bs = map Some bs"

definition fresh_region :: "nat \<Rightarrow> region" where
  "fresh_region n = replicate n None"

text \<open>\<^verbatim>\<open>realloc\<close> keeps the common prefix; new bytes are indeterminate.\<close>

definition realloc_region :: "region \<Rightarrow> nat \<Rightarrow> region" where
  "realloc_region b n = take n b @ fresh_region (n - length b)"

text \<open>\<^verbatim>\<open>memcpy\<close> into and out of a region; \<open>None\<close> when it leaves the region.\<close>

definition region_write :: "region \<Rightarrow> nat \<Rightarrow> region \<Rightarrow> region option" where
  "region_write b off bs =
     (if off + length bs \<le> length b
      then Some (take off b @ bs @ drop (off + length bs) b) else None)"

definition region_read :: "region \<Rightarrow> nat \<Rightarrow> nat \<Rightarrow> region option" where
  "region_read b off n = (if off + n \<le> length b then Some (take n (drop off b)) else None)"

lemma length_determined [simp]: "length (determined bs) = length bs"
  by (simp add: determined_def)

lemma determined_simps [simp]:
  "determined [] = []" "determined (b # bs) = Some b # determined bs"
  "determined (xs @ ys) = determined xs @ determined ys"
  by (simp_all add: determined_def)

lemma determined_inject [simp]: "determined xs = determined ys \<longleftrightarrow> xs = ys"
  by (auto simp: determined_def inj_map_eq_map)

lemma take_determined [simp]: "take n (determined bs) = determined (take n bs)"
  by (simp add: determined_def take_map)

lemma drop_determined [simp]: "drop n (determined bs) = determined (drop n bs)"
  by (simp add: determined_def drop_map)

lemma length_fresh_region [simp]: "length (fresh_region n) = n"
  by (simp add: fresh_region_def)

lemma length_realloc_region [simp]: "length (realloc_region b n) = n"
  by (simp add: realloc_region_def)

lemma take_realloc_region: "k \<le> length b \<Longrightarrow> k \<le> n \<Longrightarrow> take k (realloc_region b n) = take k b"
  by (simp add: realloc_region_def min_def)

lemma region_write_length:
  "region_write b off bs = Some b' \<Longrightarrow> length b' = length b"
  by (auto simp: region_write_def split: if_splits)

lemma region_write_prefix:
  "region_write b off bs = Some b' \<Longrightarrow> take (off + length bs) b' = take off b @ bs"
  by (auto simp: region_write_def split: if_splits)

lemma region_write_total:
  "off + length bs \<le> length b \<Longrightarrow>
   region_write b off bs = Some (take off b @ bs @ drop (off + length bs) b)"
  by (simp add: region_write_def)

lemma region_read_total:
  "off + n \<le> length b \<Longrightarrow> region_read b off n = Some (take n (drop off b))"
  by (simp add: region_read_def)

section \<open>Words\<close>

lemma unat_le_size: "unat (x :: size_t) < 2 ^ 64"
  using unsigned_less [where ?'a = nat, of x] by simp

lemma unat_add_size:
  "unat (x :: size_t) + unat y < 2 ^ 64 \<Longrightarrow> unat (x + y) = unat x + unat y"
  by (simp add: unat_word_ariths)

lemma unat_of_nat_size: "n < 2 ^ 64 \<Longrightarrow> unat (of_nat n :: size_t) = n"
  by (simp add: unat_of_nat)

lemma unat_add_of_nat_size:
  assumes "unat (x :: size_t) + n < 2 ^ 64"
  shows "unat (x + of_nat n) = unat x + n"
  using assms by (simp add: unat_add_size unat_of_nat_size)

end
