(* ===== verification/CL_World.thy ===== *)
theory CL_World
  imports CL_Prelude
begin

text \<open>
  The environment of the program and the macros of \<^verbatim>\<open>Headers/Utilities.h\<close>. The kernel
  is not part of the repository: it is a parameter, a script of arbitrary answers
  (\<open>os_script\<close>), one per system call, each with the return code, the value of
  \<^verbatim>\<open>errno\<close> after the call and the contents of the output buffers. Every system call is
  recorded with its answer in \<open>os_trace\<close>. A computation that asks for more answers than
  the script holds is still waiting (\<open>OutOfScript\<close>), so a loop of the source is a
  recursion on the script and a theorem about all scripts is one about all kernels.
\<close>

section \<open>The interface to the kernel\<close>

datatype errno = ENONE | EINTR | EAGAIN | EWOULDBLOCK | EPIPE | EEXIST | EADDRINUSE | EOTHER nat

datatype cmsg_level = SOL_SOCKET | OtherLevel int
datatype cmsg_type = SCM_RIGHTS | OtherType int

record cmsghdr =
  cmsg_level :: cmsg_level
  cmsg_type :: cmsg_type
  cmsg_len :: nat
  cmsg_data :: "byte list"

text \<open>\<^verbatim>\<open>CMSG_LEN\<close> and \<^verbatim>\<open>CMSG_SPACE\<close> of a 64-bit system: a 16-byte header, 8-byte alignment.\<close>

definition CMSG_LEN :: "nat \<Rightarrow> nat" where
  "CMSG_LEN n = 16 + n"

definition CMSG_SPACE :: "nat \<Rightarrow> nat" where
  "CMSG_SPACE n = 16 + 8 * ((n + 7) div 8)"

datatype sockopt = SO_SNDBUF | SO_RCVBUF
datatype epoll_op = EPOLL_CTL_ADD | EPOLL_CTL_DEL
datatype kevent_filter = EVFILT_READ | EVFILT_TIMER
datatype kevent_flag = EV_ADD | EV_DELETE

datatype syscall =
    Close handle
  | SocketCreate
  | Socketpair
  | Setsockopt handle sockopt nat
  | SetNonblock handle
  | Connect handle string
  | Recvmsg handle nat nat
  | Sendmsg handle region "cmsghdr list"
  | PollOut handle
  | Pipe
  | Read handle nat
  | Write handle "byte list"
  | Bind handle string
  | Listen handle nat
  | Accept handle
  | Unlink string
  | Rand
  | ShmOpen string
  | ShmUnlink string
  | Ftruncate handle size_t
  | Mmap size_t handle
  | Munmap nat size_t
  | EpollCreate
  | EpollCtl handle epoll_op handle nat
  | EpollWait handle
  | TimerfdCreate
  | TimerfdSettime handle nat nat nat nat
  | Kqueue
  | KeventChange handle int kevent_filter kevent_flag bool int nat
  | KeventWait handle

text \<open>
  The answer to a call: the return code, \<^verbatim>\<open>errno\<close> after it, and what the call wrote to
  memory (bytes received or read, control messages and whether they were truncated, a
  pair of descriptors, a pointer-sized value).
\<close>

record sysres =
  r_rc :: int
  r_errno :: errno
  r_bytes :: "byte list"
  r_cmsgs :: "cmsghdr list"
  r_ctrunc :: bool
  r_fds :: "handle \<times> handle"
  r_ptr :: nat

text \<open>What an observer of the program sees, in order.\<close>

datatype event =
    Sys syscall sysres
  | LogErrno errno
  | MessageReceived nat region "handle list"
  | Terminated nat
  | ChannelAvailable nat handle
  | Woken nat

text \<open>
  \<open>os_malloc k\<close> says whether the \<open>k\<close>-th allocation succeeds. \<open>os_ndebug\<close> is the build
  flag \<^verbatim>\<open>NDEBUG\<close>, which removes assertions and logging.
\<close>

record os =
  os_script :: "sysres list"
  os_trace :: "event list"
  os_errno :: errno
  os_ndebug :: bool
  os_malloc :: "nat \<Rightarrow> bool"
  os_mallocs :: nat

section \<open>Effects\<close>

datatype failure = AssertFailed | MemoryFault | Deadlock | OutOfScript | OutOfFuel

datatype 'a outcome = Done 'a os | Fail failure os

fun bind_out :: "'a outcome \<Rightarrow> ('a \<Rightarrow> os \<Rightarrow> 'b outcome) \<Rightarrow> 'b outcome" where
  "bind_out (Done a w) f = f a w"
| "bind_out (Fail e w) f = Fail e w"

definition bindM :: "(os \<Rightarrow> 'a outcome) \<Rightarrow> ('a \<Rightarrow> os \<Rightarrow> 'b outcome) \<Rightarrow> os \<Rightarrow> 'b outcome" where
  "bindM m f w = bind_out (m w) f"

definition seqM :: "(os \<Rightarrow> 'a outcome) \<Rightarrow> (os \<Rightarrow> 'b outcome) \<Rightarrow> os \<Rightarrow> 'b outcome" where
  "seqM m n = bindM m (\<lambda>_. n)"

definition returnM :: "'a \<Rightarrow> os \<Rightarrow> 'a outcome" where
  "returnM a w = Done a w"

definition failM :: "failure \<Rightarrow> os \<Rightarrow> 'a outcome" where
  "failM e w = Fail e w"

definition liftE :: "failure + 'a \<Rightarrow> os \<Rightarrow> 'a outcome" where
  "liftE r w = (case r of Inl e \<Rightarrow> Fail e w | Inr a \<Rightarrow> Done a w)"

lemma bind_out_cong [fundef_cong]:
  assumes "m = m'" and "\<And>a w. m' = Done a w \<Longrightarrow> f a w = g a w"
  shows "bind_out m f = bind_out m' g"
  using assms by (cases m') simp_all

lemma bindM_apply [simp, outcome_simps]: "bindM m f w = bind_out (m w) f"
  by (simp add: bindM_def)

lemma seqM_apply [simp, outcome_simps]: "seqM m n w = bind_out (m w) (\<lambda>_. n)"
  by (simp add: seqM_def)

lemma returnM_apply [simp, outcome_simps]: "returnM a w = Done a w"
  by (simp add: returnM_def)

lemma failM_apply [simp, outcome_simps]: "failM e w = Fail e w"
  by (simp add: failM_def)

lemma liftE_apply [simp, outcome_simps]:
  "liftE (Inl e) w = Fail e w" "liftE (Inr a) w = Done a w"
  by (simp_all add: liftE_def)

lemma returnM_eta: "returnM a = Done a"
  by (rule ext) simp

lemma bindM_eta: "bindM m f = (\<lambda>w. bind_out (m w) f)"
  by (rule ext) simp

lemma seqM_eta: "seqM m n = (\<lambda>w. bind_out (m w) (\<lambda>_. n))"
  by (rule ext) simp

lemma bind_out_Done_iff:
  "bind_out m f = Done b w \<longleftrightarrow> (\<exists>a w'. m = Done a w' \<and> f a w' = Done b w)"
  by (cases m) auto

lemma bind_out_DoneE:
  assumes "bind_out m f = Done b w"
  obtains a w' where "m = Done a w'" "f a w' = Done b w"
  using assms by (cases m) auto

lemma bind_out_assoc: "bind_out (bind_out m f) g = bind_out m (\<lambda>a w. bind_out (f a w) g)"
  by (cases m) simp_all

section \<open>System calls, assertions and logging\<close>

definition emit :: "event \<Rightarrow> os \<Rightarrow> unit outcome" where
  "emit e w = Done () (w\<lparr>os_trace := os_trace w @ [e]\<rparr>)"

definition sys :: "syscall \<Rightarrow> os \<Rightarrow> sysres outcome" where
  "sys c w =
     (case os_script w of
        [] \<Rightarrow> Fail OutOfScript w
      | r # rs \<Rightarrow> Done r (w\<lparr>os_script := rs, os_errno := r_errno r,
                            os_trace := os_trace w @ [Sys c r]\<rparr>))"

definition malloc :: "os \<Rightarrow> bool outcome" where
  "malloc w = Done (os_malloc w (os_mallocs w)) (w\<lparr>os_mallocs := Suc (os_mallocs w)\<rparr>)"

definition CL_ASSERT :: "bool \<Rightarrow> os \<Rightarrow> unit outcome" where
  "CL_ASSERT b w = (if os_ndebug w \<or> b then Done () w else Fail AssertFailed w)"

text \<open>\<^verbatim>\<open>Headers/Config.h\<close>: logs are enabled unless \<^verbatim>\<open>NDEBUG\<close> is set.\<close>

definition CL_ENABLE_LOGS :: "os \<Rightarrow> bool" where
  "CL_ENABLE_LOGS w \<longleftrightarrow> \<not> os_ndebug w"

definition CL_LOG_ERRNO :: "os \<Rightarrow> unit outcome" where
  "CL_LOG_ERRNO w = (if CL_ENABLE_LOGS w then emit (LogErrno (os_errno w)) w else Done () w)"

lemma CL_ENABLE_LOGS_iff [simp]: "CL_ENABLE_LOGS w \<longleftrightarrow> \<not> os_ndebug w"
  by (simp add: CL_ENABLE_LOGS_def)

definition CL_CHECK_EXPECT :: "syscall \<Rightarrow> int \<Rightarrow> os \<Rightarrow> sysres outcome" where
  "CL_CHECK_EXPECT c expected =
     bindM (sys c) (\<lambda>r.
       if r_rc r \<noteq> expected
       then seqM CL_LOG_ERRNO (seqM (CL_ASSERT False) (returnM r))
       else returnM r)"

definition CL_CHECK :: "syscall \<Rightarrow> os \<Rightarrow> sysres outcome" where
  "CL_CHECK c = CL_CHECK_EXPECT c 0"

text \<open>\<^verbatim>\<open>CL_TEMP_FAILURE_RETRY\<close>: the call again and again, while it fails with \<open>EINTR\<close>.\<close>

function CL_TEMP_FAILURE_RETRY :: "syscall \<Rightarrow> os \<Rightarrow> sysres outcome" where
  "CL_TEMP_FAILURE_RETRY c w =
     bind_out (sys c w) (\<lambda>r w'.
       if r_rc r = -1 \<and> os_errno w' = EINTR then CL_TEMP_FAILURE_RETRY c w' else Done r w')"
  by pat_completeness auto
termination
  by (relation "measure (\<lambda>(c, w). length (os_script w))") (auto simp: sys_def split: list.splits)

declare CL_TEMP_FAILURE_RETRY.simps [simp del]

text \<open>The variant that also checks the result, offered by the header.\<close>

definition CL_TEMP_FAILURE_RETRY_AND_CHECK :: "syscall \<Rightarrow> os \<Rightarrow> sysres outcome" where
  "CL_TEMP_FAILURE_RETRY_AND_CHECK c =
     bindM (CL_TEMP_FAILURE_RETRY c) (\<lambda>r.
       if r_rc r \<noteq> 0
       then seqM CL_LOG_ERRNO (seqM (CL_ASSERT False) (returnM r))
       else returnM r)"

section \<open>Evaluation lemmas\<close>

text \<open>An answer that makes the retry macro repeat the call.\<close>

definition interrupted :: "sysres \<Rightarrow> bool" where
  "interrupted r \<longleftrightarrow> r_rc r = -1 \<and> r_errno r = EINTR"

text \<open>The state after the kernel has given the answers \<open>rs\<close> to repeated calls \<open>c\<close>.\<close>

definition answered :: "syscall \<Rightarrow> sysres list \<Rightarrow> os \<Rightarrow> os" where
  "answered c rs w =
     w\<lparr>os_script := drop (length rs) (os_script w),
       os_errno := (if rs = [] then os_errno w else r_errno (last rs)),
       os_trace := os_trace w @ map (Sys c) rs\<rparr>"

lemma answered_simps [simp]:
  "os_script (answered c rs w) = drop (length rs) (os_script w)"
  "os_trace (answered c rs w) = os_trace w @ map (Sys c) rs"
  "os_ndebug (answered c rs w) = os_ndebug w"
  "os_malloc (answered c rs w) = os_malloc w"
  "os_mallocs (answered c rs w) = os_mallocs w"
  "rs \<noteq> [] \<Longrightarrow> os_errno (answered c rs w) = r_errno (last rs)"
  by (simp_all add: answered_def)

lemma sys_Cons: "os_script w = r # rs \<Longrightarrow> sys c w = Done r (answered c [r] w)"
  by (simp add: sys_def answered_def)

lemma sys_Nil: "os_script w = [] \<Longrightarrow> sys c w = Fail OutOfScript w"
  by (simp add: sys_def)

lemma sys_DoneE:
  assumes "sys c w = Done r w'"
  obtains "os_script w = r # os_script w'" "w' = answered c [r] w"
  using assms by (auto simp: sys_def answered_def split: list.splits)

lemma answered_answered:
  "answered c ss (answered c rs w) = answered c (rs @ ss) w"
  by (simp add: answered_def add.commute)

lemma retry_step:
  assumes "os_script w = r # rs"
  shows "CL_TEMP_FAILURE_RETRY c w =
    (if interrupted r then CL_TEMP_FAILURE_RETRY c (answered c [r] w)
     else Done r (answered c [r] w))"
  by (subst CL_TEMP_FAILURE_RETRY.simps)
    (simp add: sys_Cons [OF assms] interrupted_def)

text \<open>The macro is transparent to any number of interruptions.\<close>

lemma retry_interrupted:
  assumes "os_script w = is @ r # rest" "\<forall>i \<in> set is. interrupted i" "\<not> interrupted r"
  shows "CL_TEMP_FAILURE_RETRY c w = Done r (answered c (is @ [r]) w)"
  using assms
proof (induction "is" arbitrary: w)
  case Nil
  then show ?case by (simp add: retry_step)
next
  case (Cons i js)
  have "os_script (answered c [i] w) = js @ r # rest"
    using Cons.prems(1) by simp
  from Cons.IH [OF this] Cons.prems(2,3)
  have "CL_TEMP_FAILURE_RETRY c (answered c [i] w) = Done r (answered c ((i # js) @ [r]) w)"
    by (simp add: answered_answered)
  with Cons.prems show ?case
    by (simp add: retry_step)
qed

text \<open>A kernel that only ever interrupts keeps the caller in the macro.\<close>

lemma retry_only_interrupted:
  assumes "\<forall>i \<in> set (os_script w). interrupted i"
  shows "CL_TEMP_FAILURE_RETRY c w = Fail OutOfScript (answered c (os_script w) w)"
  using assms
proof (induction "os_script w" arbitrary: w)
  case Nil
  then have "os_script w = []" by simp
  then show ?case
    by (subst CL_TEMP_FAILURE_RETRY.simps) (simp add: sys_Nil answered_def)
next
  case (Cons i js)
  from Cons.hyps(2) have s: "os_script w = i # js" by simp
  have "js = os_script (answered c [i] w)" using s by simp
  from Cons.hyps(1) [OF this] Cons.prems s show ?case
    by (simp add: retry_step answered_answered)
qed

text \<open>Conversely, a result of the macro is the first answer that is no interruption.\<close>

lemma retry_DoneE:
  assumes "CL_TEMP_FAILURE_RETRY c w = Done r w'"
  obtains "is" where "os_script w = is @ r # os_script w'"
    "\<forall>i \<in> set is. interrupted i" "\<not> interrupted r" "w' = answered c (is @ [r]) w"
proof (cases "\<forall>i \<in> set (os_script w). interrupted i")
  case True
  then show ?thesis using assms retry_only_interrupted [OF True, of c] by simp
next
  case False
  then obtain js x rest where "os_script w = js @ x # rest" "\<not> interrupted x"
    "\<forall>i \<in> set js. interrupted i"
    using split_list_first_prop [of "os_script w" "\<lambda>i. \<not> interrupted i"] by blast
  with retry_interrupted [of w js x rest c] assms that show ?thesis by auto
qed

lemma retry_FailE:
  assumes "CL_TEMP_FAILURE_RETRY c w = Fail e w'"
  shows "e = OutOfScript"
proof (cases "\<forall>i \<in> set (os_script w). interrupted i")
  case True
  then show ?thesis using assms retry_only_interrupted [OF True, of c] by simp
next
  case False
  then obtain js x rest where "os_script w = js @ x # rest" "\<not> interrupted x"
    "\<forall>i \<in> set js. interrupted i"
    using split_list_first_prop [of "os_script w" "\<lambda>i. \<not> interrupted i"] by blast
  with retry_interrupted [of w js x rest c] assms show ?thesis by auto
qed

lemma retry_script_less:
  assumes "CL_TEMP_FAILURE_RETRY c w = Done r w'"
  shows "length (os_script w') < length (os_script w)"
proof -
  from assms obtain "is" where "os_script w = is @ r # os_script w'"
    by (rule retry_DoneE)
  then show ?thesis by simp
qed

text \<open>
  \<^verbatim>\<open>CL_TEMP_FAILURE_RETRY\<close> is a search: for every kernel it asks until the first answer that
  is no interruption and returns that one, and it never returns iff there is none.
\<close>

theorem CL_TEMP_FAILURE_RETRY_reference:
  "CL_TEMP_FAILURE_RETRY c w =
     (case dropWhile interrupted (os_script w) of
        [] \<Rightarrow> Fail OutOfScript (answered c (os_script w) w)
      | r # rest \<Rightarrow> Done r (answered c (takeWhile interrupted (os_script w) @ [r]) w))"
proof (cases "dropWhile interrupted (os_script w)")
  case Nil
  then have "\<forall>i \<in> set (os_script w). interrupted i" by (simp add: dropWhile_eq_Nil_conv)
  from retry_only_interrupted [OF this] show ?thesis unfolding Nil by simp
next
  case (Cons r rest)
  then have "os_script w = takeWhile interrupted (os_script w) @ r # rest"
    by (metis takeWhile_dropWhile_id)
  moreover have "\<forall>i \<in> set (takeWhile interrupted (os_script w)). interrupted i"
    by (auto dest: set_takeWhileD)
  moreover have "\<not> interrupted r" using Cons by (metis dropWhile_eq_Cons_conv)
  ultimately show ?thesis
    unfolding Cons list.case by (rule retry_interrupted)
qed

section \<open>The world only moves forward\<close>

text \<open>
  \<open>os_le P w w'\<close>: answers of the script were used up in order, events that satisfy \<open>P\<close> were
  appended, and the build flag and the allocator are the same. \<open>forward P m\<close>: the operation
  \<open>m\<close> moves every world so, also when it fails.
\<close>

definition os_le :: "(event \<Rightarrow> bool) \<Rightarrow> os \<Rightarrow> os \<Rightarrow> bool" where
  "os_le P w w' \<longleftrightarrow>
     (\<exists>used. os_script w = used @ os_script w') \<and>
     (\<exists>evs. os_trace w' = os_trace w @ evs \<and> (\<forall>e \<in> set evs. P e)) \<and>
     os_ndebug w' = os_ndebug w \<and> os_malloc w' = os_malloc w \<and> os_mallocs w \<le> os_mallocs w'"

fun outcome_world :: "'a outcome \<Rightarrow> os" where
  "outcome_world (Done a w) = w"
| "outcome_world (Fail e w) = w"

definition forward :: "(event \<Rightarrow> bool) \<Rightarrow> (os \<Rightarrow> 'a outcome) \<Rightarrow> bool" where
  "forward P m \<longleftrightarrow> (\<forall>w. os_le P w (outcome_world (m w)))"

named_theorems forward_intros "which events an operation can emit"

lemma os_le_refl [simp, intro]: "os_le P w w"
  by (auto simp: os_le_def)

lemma os_le_trans [trans]: "os_le P u v \<Longrightarrow> os_le P v w \<Longrightarrow> os_le P u w"
  by (auto simp: os_le_def)

lemma os_le_ndebug: "os_le P w w' \<Longrightarrow> os_ndebug w' = os_ndebug w"
  by (simp add: os_le_def)

lemma os_le_malloc: "os_le P w w' \<Longrightarrow> os_malloc w' = os_malloc w"
  by (simp add: os_le_def)

lemma os_le_script_length: "os_le P w w' \<Longrightarrow> length (os_script w') \<le> length (os_script w)"
  by (auto simp: os_le_def)

lemma os_le_mono: "os_le P w w' \<Longrightarrow> (\<And>e. P e \<Longrightarrow> Q e) \<Longrightarrow> os_le Q w w'"
  by (auto simp: os_le_def)

lemma forwardI: "(\<And>w. os_le P w (outcome_world (m w))) \<Longrightarrow> forward P m"
  by (simp add: forward_def)

lemma forwardD: "forward P m \<Longrightarrow> os_le P w (outcome_world (m w))"
  by (simp add: forward_def)

lemma forward_Done: "forward P m \<Longrightarrow> m w = Done a w' \<Longrightarrow> os_le P w w'"
  using forwardD [of P m w] by simp

lemma forward_mono: "forward P m \<Longrightarrow> (\<And>e. P e \<Longrightarrow> Q e) \<Longrightarrow> forward Q m"
  unfolding forward_def using os_le_mono by blast

lemma os_le_bind_out:
  assumes "os_le P w (outcome_world m)" "\<And>a w'. m = Done a w' \<Longrightarrow> os_le P w' (outcome_world (f a w'))"
  shows "os_le P w (outcome_world (bind_out m f))"
proof (cases m)
  case (Done a w')
  with assms(1) have "os_le P w w'" by simp
  also have "os_le P w' (outcome_world (f a w'))" using assms(2) [OF Done] .
  finally show ?thesis using Done by simp
next
  case (Fail e w')
  with assms(1) show ?thesis by simp
qed

lemma forward_bindM [forward_intros]:
  "forward P m \<Longrightarrow> (\<And>a. forward P (f a)) \<Longrightarrow> forward P (bindM m f)"
  by (rule forwardI) (simp add: os_le_bind_out forwardD)

lemma forward_seqM [forward_intros]: "forward P m \<Longrightarrow> forward P n \<Longrightarrow> forward P (seqM m n)"
  unfolding seqM_def by (rule forward_bindM)

lemma forward_basic [forward_intros]:
  "forward P (returnM a)" "forward P (failM e)" "forward P (liftE r)"
  "forward P (CL_ASSERT b)" "forward P malloc"
  by (auto simp: forward_def CL_ASSERT_def os_le_def malloc_def liftE_def split: sum.splits)

lemma forward_emit [forward_intros]: "P e \<Longrightarrow> forward P (emit e)"
  by (auto simp: forward_def emit_def os_le_def)

lemma forward_log [forward_intros]: "(\<And>e. P (LogErrno e)) \<Longrightarrow> forward P CL_LOG_ERRNO"
  by (auto simp: forward_def CL_LOG_ERRNO_def emit_def os_le_def)

lemma forward_sys [forward_intros]: "(\<And>r. P (Sys c r)) \<Longrightarrow> forward P (sys c)"
  by (auto simp: forward_def sys_def os_le_def split: list.splits)

lemma forward_if [forward_intros]:
  "(b \<Longrightarrow> forward P m) \<Longrightarrow> (\<not> b \<Longrightarrow> forward P n) \<Longrightarrow> forward P (if b then m else n)"
  by simp

lemma forward_prod [forward_intros]:
  "(\<And>x y. forward P (f x y)) \<Longrightarrow> forward P (case p of (x, y) \<Rightarrow> f x y)"
  by (cases p) simp

lemma forward_option [forward_intros]:
  "forward P m \<Longrightarrow> (\<And>x. forward P (f x)) \<Longrightarrow> forward P (case p of None \<Rightarrow> m | Some x \<Rightarrow> f x)"
  by (cases p) simp_all

lemma forward_check [forward_intros]:
  assumes "\<And>r. P (Sys c r)" "\<And>e. P (LogErrno e)"
  shows "forward P (CL_CHECK_EXPECT c e)" "forward P (CL_CHECK c)"
  unfolding CL_CHECK_def CL_CHECK_EXPECT_def using assms by (intro forward_intros; simp)+

lemma os_le_answered:
  assumes "os_script w = rs @ rest" "\<And>r. P (Sys c r)"
  shows "os_le P w (answered c rs w)"
  using assms by (auto simp: os_le_def)

lemma forward_retry [forward_intros]:
  assumes "\<And>r. P (Sys c r)"
  shows "forward P (CL_TEMP_FAILURE_RETRY c)"
proof (rule forwardI)
  fix w
  show "os_le P w (outcome_world (CL_TEMP_FAILURE_RETRY c w))"
    using assms
  proof (induction c w rule: CL_TEMP_FAILURE_RETRY.induct)
    case (1 c w)
    show ?case
      by (subst CL_TEMP_FAILURE_RETRY.simps, rule os_le_bind_out)
        (use "1.IH" "1.prems" forwardD [OF forward_sys, of P c] in \<open>simp_all\<close>)
  qed
qed

section \<open>Assertions and checks, evaluated\<close>

lemma CL_ASSERT_True [simp, outcome_simps]: "CL_ASSERT True w = Done () w"
  by (simp add: CL_ASSERT_def)

lemma CL_ASSERT_holds: "b \<Longrightarrow> CL_ASSERT b w = Done () w"
  by (simp add: CL_ASSERT_def)

lemma CL_ASSERT_debug: "\<not> os_ndebug w \<Longrightarrow> \<not> b \<Longrightarrow> CL_ASSERT b w = Fail AssertFailed w"
  by (simp add: CL_ASSERT_def)

lemma CL_CHECK_success:
  "os_script w = r # rs \<Longrightarrow> r_rc r = 0 \<Longrightarrow> CL_CHECK c w = Done r (answered c [r] w)"
  by (simp add: CL_CHECK_def CL_CHECK_EXPECT_def sys_Cons)

lemma CL_CHECK_failure_debug:
  assumes "os_script w = r # rs" "r_rc r \<noteq> 0" "\<not> os_ndebug w"
  shows "CL_CHECK c w =
    Fail AssertFailed (answered c [r] w\<lparr>os_trace := os_trace w @ [Sys c r, LogErrno (r_errno r)]\<rparr>)"
  using assms
  by (simp add: CL_CHECK_def CL_CHECK_EXPECT_def sys_Cons CL_LOG_ERRNO_def emit_def CL_ASSERT_def)

lemma CL_CHECK_release:
  assumes "os_script w = r # rs" "os_ndebug w"
  shows "CL_CHECK c w = Done r (answered c [r] w)"
  using assms
  by (simp add: CL_CHECK_def CL_CHECK_EXPECT_def sys_Cons CL_LOG_ERRNO_def CL_ASSERT_def)

lemma CL_CHECK_debug_DoneE:
  assumes "CL_CHECK c w = Done r w'" "\<not> os_ndebug w"
  obtains "r_rc r = 0" "os_script w = r # os_script w'" "w' = answered c [r] w" "\<not> os_ndebug w'"
proof (cases "os_script w")
  case Nil
  with assms show ?thesis by (simp add: CL_CHECK_def CL_CHECK_EXPECT_def sys_Nil)
next
  case (Cons x xs)
  show ?thesis
  proof (cases "r_rc x = 0")
    case True
    with assms Cons have "x = r" "w' = answered c [r] w" by (auto simp: CL_CHECK_success)
    with assms(2) Cons True show ?thesis by (intro that) simp_all
  next
    case False
    with assms Cons show ?thesis by (simp add: CL_CHECK_failure_debug)
  qed
qed

lemma CL_ASSERT_Done:
  "CL_ASSERT b w = Done u w' \<longleftrightarrow> w' = w \<and> (os_ndebug w \<or> b)"
  by (auto simp: CL_ASSERT_def)

section \<open>Concrete worlds for the examples\<close>

definition reply :: "int \<Rightarrow> errno \<Rightarrow> sysres" where
  "reply rc e = \<lparr>r_rc = rc, r_errno = e, r_bytes = [], r_cmsgs = [], r_ctrunc = False,
                 r_fds = (0, 0), r_ptr = 0\<rparr>"

definition start_os :: "bool \<Rightarrow> sysres list \<Rightarrow> os" where
  "start_os ndebug script =
     \<lparr>os_script = script, os_trace = [], os_errno = ENONE, os_ndebug = ndebug,
      os_malloc = (\<lambda>_. True), os_mallocs = 0\<rparr>"

lemma reply_simps [simp]:
  "r_rc (reply rc e) = rc" "r_errno (reply rc e) = e" "r_bytes (reply rc e) = []"
  "r_cmsgs (reply rc e) = []" "r_ctrunc (reply rc e) = False"
  by (simp_all add: reply_def)

lemma start_os_simps [simp]:
  "os_script (start_os d rs) = rs" "os_trace (start_os d rs) = []" "os_ndebug (start_os d rs) = d"
  "os_malloc (start_os d rs) k" "os_errno (start_os d rs) = ENONE"
  by (simp_all add: start_os_def)

end
