(* ===== verification/CL_Source.thy ===== *)
theory CL_Source
  imports CL_World
begin

text \<open>
  \<^verbatim>\<open>Headers/LooperSource.h\<close>, \<^verbatim>\<open>Source/LooperSource.cpp\<close> and the two platform files
  \<^verbatim>\<open>Linux/LooperSource_Linux.cpp\<close> and \<^verbatim>\<open>Apple/LooperSource_Apple.cpp\<close>: an event source with
  lazily allocated handles. The closures of the code are values of datatypes, one constructor
  per lambda of the repository and one for code of the client, which the parameter \<open>u\<close> of the
  operations interprets. Readers and wake functions are run by the looper (CL_Looper).
\<close>

section \<open>Data\<close>

type_synonym handles = "handle \<times> handle"

datatype allocator = PipeAllocator | TimerAllocator int | FixedHandles handle handle | UserAllocator nat
datatype deallocator = PipeDeallocator | TimerDeallocator | UserDeallocator nat
datatype reader = WakeReader | TimerReader | ChannelReader nat | ServerReader nat | UserReader nat
datatype writer = WakeWriter | UserWriter nat
datatype updater = KeventTimerUpdater int | UserUpdater nat

text \<open>Closures supplied by the client of the library.\<close>

record user_code =
  uc_allocator :: "nat \<Rightarrow> os \<Rightarrow> handles outcome"
  uc_deallocator :: "nat \<Rightarrow> handles \<Rightarrow> os \<Rightarrow> unit outcome"
  uc_writer :: "nat \<Rightarrow> handle \<Rightarrow> os \<Rightarrow> unit outcome"
  uc_updater :: "nat \<Rightarrow> nat \<Rightarrow> handle \<Rightarrow> handle \<Rightarrow> bool \<Rightarrow> os \<Rightarrow> unit outcome"

record looperSource =
  so_handlesAllocator :: "allocator option"
  so_handlesDeallocator :: "deallocator option"
  so_handles :: handles
  so_readHandler :: "reader option"
  so_writeHandler :: "writer option"
  so_customWaitSetUpdateHandler :: "updater option"
  so_wakeFunction :: "nat option"
  so_handlesAllocated :: bool

definition LooperSource_ctor ::
  "allocator option \<Rightarrow> deallocator option \<Rightarrow> reader option \<Rightarrow> writer option \<Rightarrow> looperSource" where
  "LooperSource_ctor a d r w =
     \<lparr>so_handlesAllocator = a, so_handlesDeallocator = d, so_handles = (-1, -1),
      so_readHandler = r, so_writeHandler = w, so_customWaitSetUpdateHandler = None,
      so_wakeFunction = None, so_handlesAllocated = False\<rparr>"

definition LooperSource_setWakeFunction :: "nat option \<Rightarrow> looperSource \<Rightarrow> looperSource" where
  "LooperSource_setWakeFunction f s = s\<lparr>so_wakeFunction := f\<rparr>"

definition LooperSource_setCustomWaitSetUpdateHandler :: "updater option \<Rightarrow> looperSource \<Rightarrow> looperSource" where
  "LooperSource_setCustomWaitSetUpdateHandler f s = s\<lparr>so_customWaitSetUpdateHandler := f\<rparr>"

definition LooperSource_wakeFunction :: "looperSource \<Rightarrow> nat option" where
  "LooperSource_wakeFunction s = so_wakeFunction s"

definition LooperSource_reader :: "looperSource \<Rightarrow> reader option" where
  "LooperSource_reader s = so_readHandler s"

definition LooperSource_writer :: "looperSource \<Rightarrow> writer option" where
  "LooperSource_writer s = so_writeHandler s"

definition LooperSource_customWaitSetUpdateHandler :: "looperSource \<Rightarrow> updater option" where
  "LooperSource_customWaitSetUpdateHandler s = so_customWaitSetUpdateHandler s"

section \<open>The closures of the library\<close>

text \<open>The pipe of \<^verbatim>\<open>AsTrivial\<close>; on failure the array of descriptors keeps its zeros.\<close>

definition pipe_allocate :: "os \<Rightarrow> handles outcome" where
  "pipe_allocate = bindM (CL_CHECK Pipe) (\<lambda>r. returnM (if r_rc r = 0 then r_fds r else (0, 0)))"

definition pipe_deallocate :: "handles \<Rightarrow> os \<Rightarrow> unit outcome" where
  "pipe_deallocate h = seqM (CL_CHECK (Close (fst h))) (seqM (CL_CHECK (Close (snd h))) (returnM ()))"

definition LooperWakeMessage :: "byte list" where
  "LooperWakeMessage = [119, 0]"

definition wake_read :: "handle \<Rightarrow> os \<Rightarrow> unit outcome" where
  "wake_read h = bindM (CL_TEMP_FAILURE_RETRY (Read h (length LooperWakeMessage)))
     (\<lambda>r. CL_ASSERT (int_to_size (r_rc r) = of_nat (length LooperWakeMessage)))"

definition wake_write :: "handle \<Rightarrow> os \<Rightarrow> unit outcome" where
  "wake_write h = bindM (CL_TEMP_FAILURE_RETRY (Write h LooperWakeMessage))
     (\<lambda>r. CL_ASSERT (int_to_size (r_rc r) = of_nat (length LooperWakeMessage)))"

text \<open>The timer of Linux: the interval in nanoseconds, as an unsigned 64-bit number, is split.\<close>

definition NSEC_PER_SEC :: "64 word" where
  "NSEC_PER_SEC = 1000000000"

definition timer_seconds :: "int \<Rightarrow> nat" where
  "timer_seconds interval = unat ((word_of_int interval :: 64 word) div NSEC_PER_SEC)"

definition timer_nanoseconds :: "int \<Rightarrow> nat" where
  "timer_nanoseconds interval = unat ((word_of_int interval :: 64 word) mod NSEC_PER_SEC)"

definition timer_allocate :: "int \<Rightarrow> os \<Rightarrow> handles outcome" where
  "timer_allocate interval =
     bindM (sys TimerfdCreate) (\<lambda>r.
       let desc = r_rc r; s = timer_seconds interval; n = timer_nanoseconds interval in
       seqM (CL_CHECK (TimerfdSettime desc s n s n)) (returnM (desc, -1)))"

definition timer_deallocate :: "handles \<Rightarrow> os \<Rightarrow> unit outcome" where
  "timer_deallocate h =
     seqM (CL_ASSERT (snd h = -1)) (seqM (CL_CHECK (Close (fst h))) (returnM ()))"

definition timer_read :: "handle \<Rightarrow> os \<Rightarrow> unit outcome" where
  "timer_read h = bindM (CL_TEMP_FAILURE_RETRY (Read h 8)) (\<lambda>r. CL_ASSERT (int_to_size (r_rc r) = 8))"

text \<open>The changes to a kqueue; \<open>fflags\<close> is \<^verbatim>\<open>NOTE_NSECONDS\<close> or nothing.\<close>

definition LooperSource_UpdateKeventSource ::
  "handle \<Rightarrow> handle \<Rightarrow> kevent_filter \<Rightarrow> kevent_flag \<Rightarrow> bool \<Rightarrow> int \<Rightarrow> nat \<Rightarrow> os \<Rightarrow> unit outcome" where
  "LooperSource_UpdateKeventSource queue ident filt flags fflags data udata =
     seqM (CL_TEMP_FAILURE_RETRY (KeventChange queue ident filt flags fflags data udata)) (returnM ())"

definition kevent_timer_update :: "int \<Rightarrow> nat \<Rightarrow> handle \<Rightarrow> handle \<Rightarrow> bool \<Rightarrow> os \<Rightarrow> unit outcome" where
  "kevent_timer_update interval source queue readHandle adding =
     LooperSource_UpdateKeventSource queue readHandle EVFILT_TIMER
       (if adding then EV_ADD else EV_DELETE) True interval source"

fun run_allocator :: "user_code \<Rightarrow> allocator \<Rightarrow> os \<Rightarrow> handles outcome" where
  "run_allocator u PipeAllocator = pipe_allocate"
| "run_allocator u (TimerAllocator interval) = timer_allocate interval"
| "run_allocator u (FixedHandles r w) = returnM (r, w)"
| "run_allocator u (UserAllocator n) = uc_allocator u n"

fun run_deallocator :: "user_code \<Rightarrow> deallocator \<Rightarrow> handles \<Rightarrow> os \<Rightarrow> unit outcome" where
  "run_deallocator u PipeDeallocator h = pipe_deallocate h"
| "run_deallocator u TimerDeallocator h = timer_deallocate h"
| "run_deallocator u (UserDeallocator n) h = uc_deallocator u n h"

fun run_writer :: "user_code \<Rightarrow> writer \<Rightarrow> handle \<Rightarrow> os \<Rightarrow> unit outcome" where
  "run_writer u WakeWriter h = wake_write h"
| "run_writer u (UserWriter n) h = uc_writer u n h"

fun run_updater :: "user_code \<Rightarrow> updater \<Rightarrow> nat \<Rightarrow> handle \<Rightarrow> handle \<Rightarrow> bool \<Rightarrow> os \<Rightarrow> unit outcome" where
  "run_updater u (KeventTimerUpdater interval) source queue readHandle adding =
     kevent_timer_update interval source queue readHandle adding"
| "run_updater u (UserUpdater n) source queue readHandle adding = uc_updater u n source queue readHandle adding"

section \<open>Operations\<close>

definition LooperSource_handles :: "user_code \<Rightarrow> looperSource \<Rightarrow> os \<Rightarrow> (handles \<times> looperSource) outcome" where
  "LooperSource_handles u s =
     (if so_handlesAllocated s then returnM (so_handles s, s)
      else
        bindM (case so_handlesAllocator s of None \<Rightarrow> returnM (so_handles s) | Some a \<Rightarrow> run_allocator u a)
          (\<lambda>h. returnM (h, s\<lparr>so_handles := h, so_handlesAllocated := True\<rparr>)))"

definition LooperSource_readHandle :: "user_code \<Rightarrow> looperSource \<Rightarrow> os \<Rightarrow> (handle \<times> looperSource) outcome" where
  "LooperSource_readHandle u s = bindM (LooperSource_handles u s) (\<lambda>(h, s'). returnM (fst h, s'))"

definition LooperSource_writeHandle :: "user_code \<Rightarrow> looperSource \<Rightarrow> os \<Rightarrow> (handle \<times> looperSource) outcome" where
  "LooperSource_writeHandle u s = bindM (LooperSource_handles u s) (\<lambda>(h, s'). returnM (snd h, s'))"

definition LooperSource_dtor :: "user_code \<Rightarrow> looperSource \<Rightarrow> os \<Rightarrow> unit outcome" where
  "LooperSource_dtor u s =
     (if so_handlesAllocated s
      then (case so_handlesDeallocator s of None \<Rightarrow> returnM () | Some d \<Rightarrow> run_deallocator u d (so_handles s))
      else returnM ())"

definition LooperSource_AsTrivial :: looperSource where
  "LooperSource_AsTrivial =
     LooperSource_ctor (Some PipeAllocator) (Some PipeDeallocator) (Some WakeReader) (Some WakeWriter)"

text \<open>\<open>source\<close> is the address of the object, which the kernel hands back when it is ready.\<close>

text \<open>The mask of events is always \<^verbatim>\<open>EPOLLIN\<close>.\<close>

definition LooperSource_UpdateEpollSource :: "nat \<Rightarrow> handle \<Rightarrow> epoll_op \<Rightarrow> handle \<Rightarrow> os \<Rightarrow> unit outcome" where
  "LooperSource_UpdateEpollSource data epollDesc operation desc =
     seqM (CL_TEMP_FAILURE_RETRY (EpollCtl epollDesc operation desc data)) (returnM ())"

definition updateInWaitSetHandle_Linux ::
  "user_code \<Rightarrow> nat \<Rightarrow> handle \<Rightarrow> bool \<Rightarrow> looperSource \<Rightarrow> os \<Rightarrow> looperSource outcome" where
  "updateInWaitSetHandle_Linux u source waitset shouldAdd s =
     bindM (LooperSource_readHandle u s) (\<lambda>(h, s').
       case so_customWaitSetUpdateHandler s of
         Some f \<Rightarrow> seqM (run_updater u f source waitset h shouldAdd) (returnM s')
       | None \<Rightarrow>
           seqM (LooperSource_UpdateEpollSource source waitset
                   (if shouldAdd then EPOLL_CTL_ADD else EPOLL_CTL_DEL) h)
             (returnM s'))"

definition updateInWaitSetHandle_Apple ::
  "user_code \<Rightarrow> nat \<Rightarrow> handle \<Rightarrow> bool \<Rightarrow> looperSource \<Rightarrow> os \<Rightarrow> looperSource outcome" where
  "updateInWaitSetHandle_Apple u source waitset shouldAdd s =
     bindM (LooperSource_readHandle u s) (\<lambda>(h, s').
       case so_customWaitSetUpdateHandler s of
         Some f \<Rightarrow> seqM (run_updater u f source waitset h shouldAdd) (returnM s')
       | None \<Rightarrow>
           seqM (LooperSource_UpdateKeventSource waitset h EVFILT_READ
                   (if shouldAdd then EV_ADD else EV_DELETE) False 0 source)
             (returnM s'))"

definition AsTimer_Linux :: "int \<Rightarrow> looperSource" where
  "AsTimer_Linux interval =
     LooperSource_ctor (Some (TimerAllocator interval)) (Some TimerDeallocator) (Some TimerReader) None"

definition AsTimer_Apple :: "int \<Rightarrow> looperSource" where
  "AsTimer_Apple interval =
     LooperSource_setCustomWaitSetUpdateHandler (Some (KeventTimerUpdater interval))
       (LooperSource_ctor None None None None)"

section \<open>Handles are allocated once\<close>

text \<open>
  Uses of a source through its public interface, and what they promise: the allocator runs at
  most once, before everything else, and every use after it sees the same handles.
\<close>

datatype source_use = UseHandles | UseRead | UseWrite | UseWake "nat option" | UseUpdater "updater option"

fun source_uses :: "user_code \<Rightarrow> source_use list \<Rightarrow> looperSource \<Rightarrow> os \<Rightarrow> (handles list \<times> looperSource) outcome" where
  "source_uses u [] s = returnM ([], s)"
| "source_uses u (UseHandles # us) s =
     bindM (LooperSource_handles u s) (\<lambda>(h, s').
     bindM (source_uses u us s') (\<lambda>(hs, s''). returnM (h # hs, s'')))"
| "source_uses u (UseRead # us) s =
     bindM (LooperSource_readHandle u s) (\<lambda>(_, s'). source_uses u us s')"
| "source_uses u (UseWrite # us) s =
     bindM (LooperSource_writeHandle u s) (\<lambda>(_, s'). source_uses u us s')"
| "source_uses u (UseWake f # us) s = source_uses u us (LooperSource_setWakeFunction f s)"
| "source_uses u (UseUpdater f # us) s =
     source_uses u us (LooperSource_setCustomWaitSetUpdateHandler f s)"

lemma handles_allocated:
  "so_handlesAllocated s \<Longrightarrow> LooperSource_handles u s w = Done (so_handles s, s) w"
  by (simp add: LooperSource_handles_def)

lemma readHandle_allocated:
  "so_handlesAllocated s \<Longrightarrow> LooperSource_readHandle u s w = Done (fst (so_handles s), s) w"
  by (simp add: LooperSource_readHandle_def handles_allocated)

lemma writeHandle_allocated:
  "so_handlesAllocated s \<Longrightarrow> LooperSource_writeHandle u s w = Done (snd (so_handles s), s) w"
  by (simp add: LooperSource_writeHandle_def handles_allocated)

lemma handles_DoneE:
  assumes "LooperSource_handles u s w = Done (h, s') w'"
  obtains "so_handlesAllocated s'" "so_handles s' = h"
    "s' = s\<lparr>so_handles := h, so_handlesAllocated := True\<rparr>"
proof (cases "so_handlesAllocated s")
  case True
  with assms have "s' = s" "h = so_handles s" by (auto simp: handles_allocated)
  with True show ?thesis by (intro that) simp_all
next
  case False
  with assms have "s' = s\<lparr>so_handles := h, so_handlesAllocated := True\<rparr>"
    by (auto simp: LooperSource_handles_def bind_out_Done_iff)
  then show ?thesis by (intro that) simp_all
qed

lemma source_uses_allocated:
  assumes "so_handlesAllocated s"
  shows "\<exists>s'. source_uses u us s w =
      Done (replicate (length (filter (\<lambda>x. x = UseHandles) us)) (so_handles s), s') w \<and>
    so_handlesAllocated s' \<and> so_handles s' = so_handles s \<and>
    so_handlesDeallocator s' = so_handlesDeallocator s"
  using assms
proof (induction us arbitrary: s)
  case (Cons x us)
  note allocated = handles_allocated [OF Cons.prems] readHandle_allocated [OF Cons.prems]
    writeHandle_allocated [OF Cons.prems]
  from Cons.IH [OF Cons.prems] obtain s' where
    "source_uses u us s w =
       Done (replicate (length (filter (\<lambda>x. x = UseHandles) us)) (so_handles s), s') w"
    "so_handlesAllocated s'" "so_handles s' = so_handles s"
    "so_handlesDeallocator s' = so_handlesDeallocator s"
    by blast
  note IH = this
  show ?case
  proof (cases x)
    case (UseWake f)
    then show ?thesis
      using Cons.IH [of "LooperSource_setWakeFunction f s"] Cons.prems
      by (simp add: LooperSource_setWakeFunction_def)
  next
    case (UseUpdater f)
    then show ?thesis
      using Cons.IH [of "LooperSource_setCustomWaitSetUpdateHandler f s"] Cons.prems
      by (simp add: LooperSource_setCustomWaitSetUpdateHandler_def)
  qed (intro exI [of _ s'], simp add: allocated IH)+
qed simp

section \<open>Properties\<close>

text \<open>
  C36: Handles are allocated lazily and once: after the first access has returned \<open>h\<close>, any
  further use of the source makes no call and every access returns \<open>h\<close> again, and the
  destructor hands exactly \<open>h\<close> to the deallocator. A source that was never accessed allocates
  and deallocates nothing.
\<close>

theorem LooperSource_handles_once:
  assumes "LooperSource_handles u s w = Done (h, s1) w1"
  shows "(\<exists>s2. source_uses u us s1 v = Done (replicate (length (filter (\<lambda>x. x = UseHandles) us)) h, s2) v \<and>
      LooperSource_dtor u s2 =
        (case so_handlesDeallocator s of None \<Rightarrow> returnM () | Some d \<Rightarrow> run_deallocator u d h)) \<and>
    LooperSource_dtor u (LooperSource_ctor a d r wr) v = Done () v"
proof -
  from assms have s1: "so_handlesAllocated s1" "so_handles s1 = h"
    "so_handlesDeallocator s1 = so_handlesDeallocator s"
    by (rule handles_DoneE, simp)+
  obtain s2 where "source_uses u us s1 v = Done (replicate (length (filter (\<lambda>x. x = UseHandles) us)) h, s2) v"
    "so_handlesAllocated s2" "so_handles s2 = h" "so_handlesDeallocator s2 = so_handlesDeallocator s"
    using source_uses_allocated [OF s1(1), of u us v] s1 by auto
  then show ?thesis
    by (intro conjI exI [of _ s2])
      (simp_all add: LooperSource_dtor_def LooperSource_ctor_def split: option.split)
qed

text \<open>
  The interval of a Linux timer survives the split into seconds and nanoseconds exactly, and
  the nanoseconds are in the range the kernel accepts.
\<close>

theorem timer_interval_split:
  assumes "0 \<le> interval" "interval < 2 ^ 63"
  shows "int (timer_seconds interval) * 1000000000 + int (timer_nanoseconds interval) = interval \<and>
    timer_nanoseconds interval < 1000000000"
proof -
  let ?w = "word_of_int interval :: 64 word"
  have w: "uint ?w = interval"
    using assms by (simp add: uint_word_of_int)
  have n: "unat NSEC_PER_SEC = 1000000000" "uint NSEC_PER_SEC = 1000000000"
    by (simp_all add: NSEC_PER_SEC_def)
  have "int (timer_seconds interval) = interval div 1000000000"
    "int (timer_nanoseconds interval) = interval mod 1000000000"
    by (simp_all only: timer_seconds_def timer_nanoseconds_def uint_nat [symmetric] uint_div uint_mod w n)
  then show ?thesis by simp
qed

text \<open>
  A timer on Linux is created disarmed, armed with the same first expiry and period, and
  given back by closing its one descriptor; a checked build returns only if both the arming and
  the closing succeeded.
\<close>

theorem timer_life_cycle:
  assumes "LooperSource_handles u (AsTimer_Linux interval) w = Done (h, s) w1" "\<not> os_ndebug w"
    "LooperSource_dtor u s w1 = Done () w2"
  shows "\<exists>c a d. r_rc a = 0 \<and> r_rc d = 0 \<and> h = (r_rc c, -1) \<and>
    os_trace w2 = os_trace w @
      [Sys TimerfdCreate c,
       Sys (TimerfdSettime (r_rc c) (timer_seconds interval) (timer_nanoseconds interval)
              (timer_seconds interval) (timer_nanoseconds interval)) a,
       Sys (Close (r_rc c)) d]"
proof -
  let ?arm = "\<lambda>c. TimerfdSettime (r_rc c) (timer_seconds interval) (timer_nanoseconds interval)
              (timer_seconds interval) (timer_nanoseconds interval)"
  from assms(1) obtain c w' a where c: "sys TimerfdCreate w = Done c w'"
    and a: "CL_CHECK (?arm c) w' = Done a w1"
    and h: "h = (r_rc c, -1)" and s: "s = (AsTimer_Linux interval)\<lparr>so_handles := h, so_handlesAllocated := True\<rparr>"
    by (auto simp: LooperSource_handles_def AsTimer_Linux_def LooperSource_ctor_def timer_allocate_def
        Let_def bind_out_Done_iff)
  from sys_DoneE [OF c] have w': "w' = answered TimerfdCreate [c] w" by blast
  then have "\<not> os_ndebug w'" using assms(2) by simp
  from CL_CHECK_debug_DoneE [OF a this]
  have a: "r_rc a = 0" "w1 = answered (?arm c) [a] w'" "\<not> os_ndebug w1" by blast+
  from assms(3) h obtain d where "CL_CHECK (Close (r_rc c)) w1 = Done d w2"
    by (auto simp: LooperSource_dtor_def s AsTimer_Linux_def LooperSource_ctor_def timer_deallocate_def
        CL_ASSERT_holds bind_out_Done_iff)
  from CL_CHECK_debug_DoneE [OF this a(3)]
  have "r_rc d = 0" "w2 = answered (Close (r_rc c)) [d] w1" by blast+
  with a w' h show ?thesis
    by (intro exI [of _ c] exI [of _ a] exI [of _ d]) simp
qed

section \<open>Examples of the properties\<close>

text \<open>A client without closures of its own.\<close>

definition no_user_code :: user_code where
  "no_user_code =
     \<lparr>uc_allocator = (\<lambda>_. returnM (-1, -1)), uc_deallocator = (\<lambda>_ _. returnM ()),
      uc_writer = (\<lambda>_ _. returnM ()), uc_updater = (\<lambda>_ _ _ _ _. returnM ())\<rparr>"

theorem LooperSource_handles_once_witness:
  "\<exists>h s1 w1. LooperSource_handles no_user_code LooperSource_AsTrivial
      (start_os False [(reply 0 ENONE)\<lparr>r_fds := (3, 4)\<rparr>]) = Done (h, s1) w1 \<and>
    (\<exists>s2. source_uses no_user_code [UseRead, UseHandles] s1 w1 = Done ([h], s2) w1 \<and>
      LooperSource_dtor no_user_code s2 = pipe_deallocate h)"
proof -
  obtain h s1 w1 where r: "LooperSource_handles no_user_code LooperSource_AsTrivial
      (start_os False [(reply 0 ENONE)\<lparr>r_fds := (3, 4)\<rparr>]) = Done (h, s1) w1"
    by (simp add: LooperSource_handles_def LooperSource_AsTrivial_def LooperSource_ctor_def
        pipe_allocate_def CL_CHECK_success)
  have "so_handlesDeallocator LooperSource_AsTrivial = Some PipeDeallocator"
    by (simp add: LooperSource_AsTrivial_def LooperSource_ctor_def)
  with LooperSource_handles_once [OF r, of "[UseRead, UseHandles]" w1] r show ?thesis
    by auto
qed

theorem timer_interval_split_witness:
  "int (timer_seconds 2500000001) * 1000000000 + int (timer_nanoseconds 2500000001) = 2500000001 \<and>
    timer_nanoseconds 2500000001 < 1000000000"
  by (rule timer_interval_split) simp_all

theorem timer_life_cycle_witness:
  "\<exists>h s w1 w2. LooperSource_handles no_user_code (AsTimer_Linux 5)
      (start_os False [reply 7 ENONE, reply 0 ENONE, reply 0 ENONE]) = Done (h, s) w1 \<and>
    LooperSource_dtor no_user_code s w1 = Done () w2 \<and>
    (\<exists>c a d. r_rc a = 0 \<and> r_rc d = 0 \<and> h = (r_rc c, -1) \<and>
      os_trace w2 = os_trace (start_os False [reply 7 ENONE, reply 0 ENONE, reply 0 ENONE]) @
        [Sys TimerfdCreate c,
         Sys (TimerfdSettime (r_rc c) (timer_seconds 5) (timer_nanoseconds 5)
                (timer_seconds 5) (timer_nanoseconds 5)) a,
         Sys (Close (r_rc c)) d])"
proof -
  have "\<exists>h s w1 w2. LooperSource_handles no_user_code (AsTimer_Linux 5)
      (start_os False [reply 7 ENONE, reply 0 ENONE, reply 0 ENONE]) = Done (h, s) w1 \<and>
    LooperSource_dtor no_user_code s w1 = Done () w2"
    by (simp add: LooperSource_handles_def AsTimer_Linux_def LooperSource_ctor_def timer_allocate_def
        Let_def sys_Cons CL_CHECK_success LooperSource_dtor_def timer_deallocate_def CL_ASSERT_holds)
  then obtain h s w1 w2 where r: "LooperSource_handles no_user_code (AsTimer_Linux 5)
      (start_os False [reply 7 ENONE, reply 0 ENONE, reply 0 ENONE]) = Done (h, s) w1"
    "LooperSource_dtor no_user_code s w1 = Done () w2"
    by blast
  have "\<not> os_ndebug (start_os False [reply 7 ENONE, reply 0 ENONE, reply 0 ENONE])" by simp
  from timer_life_cycle [OF r(1) this r(2)] r show ?thesis by blast
qed

end
