(* ===== verification/CL_Message.thy ===== *)
theory CL_Message
  imports CL_World
begin

text \<open>
  \<^verbatim>\<open>Source/Message.cpp\<close>, \<^verbatim>\<open>Headers/Message.h\<close> and \<^verbatim>\<open>Headers/Attachment.h\<close>: a growable
  byte buffer with an append cursor (\<open>m_dataLength\<close>), a read cursor (\<open>m_sizeRead\<close>) and a
  vector of descriptors that travel with it. An operation that may fail an assertion or
  touch memory outside the buffer returns \<open>Inl\<close>. \<open>dbg\<close> is a build with assertions, \<open>ok\<close>
  the allocator's answer if the operation asks for memory (none asks twice).
\<close>

section \<open>Data\<close>

record attachment =
  att_handle :: handle

definition Attachment_ctor :: "handle \<Rightarrow> attachment" where
  "Attachment_ctor h = \<lparr>att_handle = h\<rparr>"

record message =
  m_buffer :: "region option"
  m_bufferLength :: size_t
  m_dataLength :: size_t
  m_sizeRead :: size_t
  m_attachments :: "attachment list"

text \<open>\<^verbatim>\<open>Socket::MaxControlBufferItemCount\<close>, which \<^verbatim>\<open>addAttachment\<close> refers to.\<close>

definition MaxControlBufferItemCount :: nat where
  "MaxControlBufferItemCount = 8"

section \<open>Operations\<close>

definition Message_NextPOTSize :: "size_t \<Rightarrow> size_t" where
  "Message_NextPOTSize x0 =
     (let x = x0 - 1;
          x = x OR drop_bit 1 x;
          x = x OR drop_bit 2 x;
          x = x OR drop_bit 4 x;
          x = x OR drop_bit 8 x;
          x = x OR drop_bit 16 x
      in x + 1)"

definition Message_resizeBuffer ::
  "bool \<Rightarrow> bool \<Rightarrow> size_t \<Rightarrow> message \<Rightarrow> failure + (bool \<times> message)" where
  "Message_resizeBuffer dbg ok sz m =
     (case m_buffer m of
        None \<Rightarrow>
          if dbg \<and> m_bufferLength m \<noteq> 0 then Inl AssertFailed
          else if ok
          then Inr (True, m\<lparr>m_buffer := Some (fresh_region (unat sz)), m_bufferLength := sz\<rparr>)
          else Inr (False, m)
      | Some b \<Rightarrow>
          if dbg \<and> \<not> m_bufferLength m < sz then Inl AssertFailed
          else if ok
          then Inr (True, m\<lparr>m_buffer := Some (realloc_region b (unat sz)), m_bufferLength := sz\<rparr>)
          else Inr (False, m))"

definition Message_reserve ::
  "bool \<Rightarrow> bool \<Rightarrow> size_t \<Rightarrow> message \<Rightarrow> failure + (bool \<times> message)" where
  "Message_reserve dbg ok len m =
     (if len = 0 \<or> len \<le> m_bufferLength m then Inr (True, m)
      else Message_resizeBuffer dbg ok (Message_NextPOTSize len) m)"

text \<open>\<^verbatim>\<open>Message(size_t)\<close>: the result of \<^verbatim>\<open>reserve\<close> is ignored.\<close>

definition Message_empty :: message where
  "Message_empty = \<lparr>m_buffer = None, m_bufferLength = 0, m_dataLength = 0, m_sizeRead = 0,
                    m_attachments = []\<rparr>"

definition Message_ctor :: "bool \<Rightarrow> bool \<Rightarrow> size_t \<Rightarrow> failure + message" where
  "Message_ctor dbg ok len =
     (case Message_reserve dbg ok len Message_empty of
        Inl e \<Rightarrow> Inl e
      | Inr (_, m) \<Rightarrow> Inr m)"

text \<open>
  \<^verbatim>\<open>Message(const uint8_t *, size_t)\<close>: a copy of the region. The result of \<^verbatim>\<open>malloc\<close> is
  not checked before the copy.
\<close>

definition Message_of_buffer :: "bool \<Rightarrow> region \<Rightarrow> failure + message" where
  "Message_of_buffer ok src =
     (if \<not> ok \<and> src \<noteq> [] then Inl MemoryFault
      else Inr \<lparr>m_buffer = (if ok then Some src else None),
                m_bufferLength = of_nat (length src), m_dataLength = of_nat (length src),
                m_sizeRead = 0, m_attachments = []\<rparr>)"

text \<open>\<open>bs\<close> is the object representation of the value, \<open>length bs\<close> its \<^verbatim>\<open>sizeof\<close>.\<close>

definition Message_encode ::
  "bool \<Rightarrow> bool \<Rightarrow> byte list \<Rightarrow> message \<Rightarrow> failure + (bool \<times> message)" where
  "Message_encode dbg ok bs m =
     (case Message_reserve dbg ok (m_dataLength m + of_nat (length bs)) m of
        Inl e \<Rightarrow> Inl e
      | Inr (False, m') \<Rightarrow> Inr (False, m')
      | Inr (True, m') \<Rightarrow>
          (case Option.bind (m_buffer m') (\<lambda>b. region_write b (unat (m_dataLength m')) (determined bs)) of
             None \<Rightarrow> Inl MemoryFault
           | Some b' \<Rightarrow>
               Inr (True, m'\<lparr>m_buffer := Some b',
                             m_dataLength := m_dataLength m' + of_nat (length bs)\<rparr>)))"

text \<open>\<open>Some region\<close> is the value copied out (\<^verbatim>\<open>true\<close>), \<open>None\<close> the refusal (\<^verbatim>\<open>false\<close>).\<close>

definition Message_decode :: "nat \<Rightarrow> message \<Rightarrow> failure + (region option \<times> message)" where
  "Message_decode n m =
     (if m_bufferLength m < of_nat n + m_sizeRead m then Inr (None, m)
      else
        (case Option.bind (m_buffer m) (\<lambda>b. region_read b (unat (m_sizeRead m)) n) of
           None \<Rightarrow> Inl MemoryFault
         | Some v \<Rightarrow> Inr (Some v, m\<lparr>m_sizeRead := m_sizeRead m + of_nat n\<rparr>)))"

definition Message_addAttachment :: "bool \<Rightarrow> attachment \<Rightarrow> message \<Rightarrow> failure + message" where
  "Message_addAttachment dbg a m =
     (if dbg \<and> \<not> length (m_attachments m) \<le> MaxControlBufferItemCount then Inl AssertFailed
      else Inr (m\<lparr>m_attachments := m_attachments m @ [a]\<rparr>))"

text \<open>\<^verbatim>\<open>data()\<close> and \<^verbatim>\<open>size()\<close>, as the region of \<open>size()\<close> bytes that starts at \<open>data()\<close>.\<close>

definition Message_size :: "message \<Rightarrow> size_t" where
  "Message_size m = m_dataLength m"

definition Message_data :: "message \<Rightarrow> region" where
  "Message_data m =
     (case m_buffer m of None \<Rightarrow> [] | Some b \<Rightarrow> take (unat (m_dataLength m)) b)"

definition Message_sizeRead :: "message \<Rightarrow> size_t" where
  "Message_sizeRead m = m_sizeRead m"

text \<open>A pair of iterators stands for the sequence between them.\<close>

definition Message_attachmentRange :: "message \<Rightarrow> attachment list" where
  "Message_attachmentRange m = m_attachments m"

definition Attachment_handle :: "attachment \<Rightarrow> handle" where
  "Attachment_handle a = att_handle a"

text \<open>The destructor hands the allocation to \<^verbatim>\<open>free\<close>, which ignores a null pointer.\<close>

definition Message_dtor :: "message \<Rightarrow> region option" where
  "Message_dtor m = m_buffer m"

section \<open>The power-of-two size\<close>

text \<open>
  After the shifts by \<open>1, 2, 4, 8, 16\<close> bit \<open>i\<close> is set iff one of the 32 bits from \<open>i\<close> on was.
\<close>

definition spread_step :: "nat \<Rightarrow> size_t \<Rightarrow> size_t" where
  "spread_step n x = x OR drop_bit n x"

definition spread :: "size_t \<Rightarrow> size_t" where
  "spread x = spread_step 16 (spread_step 8 (spread_step 4 (spread_step 2 (spread_step 1 x))))"

lemma NextPOTSize_spread: "Message_NextPOTSize x = spread (x - 1) + 1"
  by (simp add: Message_NextPOTSize_def spread_def spread_step_def Let_def)

definition covers :: "nat \<Rightarrow> size_t \<Rightarrow> size_t \<Rightarrow> bool" where
  "covers n y x \<longleftrightarrow> (\<forall>i. bit y i \<longleftrightarrow> (\<exists>j. i \<le> j \<and> j < i + n \<and> bit x j))"

lemma covers_step:
  assumes "covers n y x"
  shows "covers (n + n) (spread_step n y) x"
  unfolding covers_def
proof
  fix i
  have "bit (spread_step n y) i \<longleftrightarrow> bit y i \<or> bit y (n + i)"
    by (simp add: spread_step_def bit_or_iff bit_drop_bit_eq)
  also have "\<dots> \<longleftrightarrow> (\<exists>j. i \<le> j \<and> j < i + n \<and> bit x j) \<or> (\<exists>j. n + i \<le> j \<and> j < n + i + n \<and> bit x j)"
    using assms by (simp add: covers_def)
  also have "\<dots> \<longleftrightarrow> (\<exists>j. (i \<le> j \<and> j < i + n \<or> n + i \<le> j \<and> j < n + i + n) \<and> bit x j)"
    by blast
  also have "\<dots> \<longleftrightarrow> (\<exists>j. (i \<le> j \<and> j < i + (n + n)) \<and> bit x j)"
    by (rule ex_cong1, rule conj_cong, arith, rule refl)
  also have "\<dots> \<longleftrightarrow> (\<exists>j. i \<le> j \<and> j < i + (n + n) \<and> bit x j)"
    by simp
  finally show "bit (spread_step n y) i \<longleftrightarrow> (\<exists>j. i \<le> j \<and> j < i + (n + n) \<and> bit x j)" .
qed

lemma covers_self: "covers 1 x x"
  unfolding covers_def by (metis Suc_eq_plus1 le_antisym less_Suc_eq_le order_refl)

lemma covers_spread: "covers 32 (spread x) x"
proof -
  have "covers 2 (spread_step 1 x) x"
    using covers_step [OF covers_self, of x] by (simp only: one_add_one)
  from covers_step [OF covers_step [OF covers_step [OF covers_step [OF this]]]]
  show ?thesis by (simp add: spread_def)
qed

lemma nat_less_exp_bits: "(m :: nat) < 2 ^ n \<longleftrightarrow> (\<forall>i \<ge> n. \<not> bit m i)"
proof -
  have "m < 2 ^ n \<longleftrightarrow> take_bit n m = m"
    by (simp add: take_bit_nat_eq_self_iff)
  also have "\<dots> \<longleftrightarrow> (\<forall>i. i < n \<and> bit m i \<longleftrightarrow> bit m i)"
    by (simp add: bit_eq_iff bit_take_bit_iff)
  also have "\<dots> \<longleftrightarrow> (\<forall>i \<ge> n. \<not> bit m i)"
    by (meson leD leI)
  finally show ?thesis .
qed

lemma bit_unat_size: "bit (unat (x :: size_t)) i \<longleftrightarrow> bit x i"
  by (simp add: bit_unsigned_iff)

lemma bit_spread: "bit (spread x) i \<longleftrightarrow> (\<exists>j. i \<le> j \<and> j < i + 32 \<and> bit x j)"
  using covers_spread by (simp add: covers_def)

lemma spread_less: "unat x < 2 ^ n \<Longrightarrow> unat (spread x) < 2 ^ n"
  by (auto simp: nat_less_exp_bits bit_unat_size bit_spread)

lemma spread_ge: "x \<le> spread x"
proof -
  have "bit (spread x) i" if "bit x i" for i
    unfolding bit_spread using that by (intro exI [of _ i]) simp
  then have "x OR spread x = spread x"
    by (intro bit_eqI) (auto simp: bit_or_iff)
  then show ?thesis
    by (metis le_word_or2)
qed

lemma spread_exact:
  assumes y: "unat y < 2 ^ k" and least: "\<And>j. unat y < 2 ^ j \<Longrightarrow> k \<le> j" and k: "k \<le> 32"
  shows "unat (spread y) = 2 ^ k - 1"
proof -
  have top: "\<not> bit y j" if "k \<le> j" for j
    using y that by (auto simp: nat_less_exp_bits bit_unat_size)
  have "bit (unat (spread y)) i \<longleftrightarrow> i < k" for i
  proof (cases "i < k")
    case True
    then have "\<not> unat y < 2 ^ (k - 1)"
      using least [of "k - 1"] by (cases k) auto
    then obtain j where j: "k - 1 \<le> j" "bit y j"
      by (auto simp: nat_less_exp_bits bit_unat_size)
    with top [of j] True have "j = k - 1" by (cases "k \<le> j") auto
    with j True k show ?thesis
      by (auto simp: bit_unat_size bit_spread intro!: exI [of _ j])
  next
    case False
    with top show ?thesis by (auto simp: bit_unat_size bit_spread)
  qed
  then have "unat (spread y) = mask k"
    by (intro bit_eqI) (simp add: bit_mask_iff)
  then show ?thesis by (simp add: mask_eq_exp_minus_1)
qed

lemma NextPOTSize_bounds:
  assumes "1 \<le> unat x" "unat x \<le> 2 ^ 63"
  shows "unat x \<le> unat (Message_NextPOTSize x)" "unat (Message_NextPOTSize x) \<le> 2 ^ 63"
proof -
  have x1: "unat (x - 1) = unat x - 1"
    using assms(1) by (intro unat_minus_one) auto
  with assms have "unat (x - 1) < 2 ^ 63" by simp
  then have s: "unat (spread (x - 1)) < 2 ^ 63" by (rule spread_less)
  then have eq: "unat (Message_NextPOTSize x) = unat (spread (x - 1)) + 1"
    by (subst NextPOTSize_spread, subst unat_add_size) simp_all
  with s show "unat (Message_NextPOTSize x) \<le> 2 ^ 63" by simp
  have "unat (x - 1) \<le> unat (spread (x - 1))"
    using spread_ge word_le_nat_alt by blast
  with eq x1 assms(1) show "unat x \<le> unat (Message_NextPOTSize x)" by simp
qed

lemma NextPOTSize_exact:
  assumes "1 \<le> unat x" "unat x \<le> 2 ^ 32"
  shows "\<exists>k. unat (Message_NextPOTSize x) = 2 ^ k \<and> unat x \<le> 2 ^ k \<and>
             (\<forall>j. unat x \<le> 2 ^ j \<longrightarrow> k \<le> j)"
proof -
  define k where "k = (LEAST k. unat x \<le> 2 ^ k)"
  have le: "unat x \<le> 2 ^ k" unfolding k_def using assms(2) by (rule LeastI)
  have least: "k \<le> j" if "unat x \<le> 2 ^ j" for j
    unfolding k_def using that by (rule Least_le)
  have x1: "unat (x - 1) = unat x - 1"
    using assms(1) by (intro unat_minus_one) auto
  have "unat (x - 1) < 2 ^ j \<longleftrightarrow> unat x \<le> 2 ^ j" for j
    using x1 assms(1) by auto
  then have s: "unat (spread (x - 1)) = 2 ^ k - 1"
    using le least assms(2) by (intro spread_exact) auto
  have "(2 :: nat) ^ k \<le> 2 ^ 32"
    using least [OF assms(2)] by (rule power_increasing) simp
  then have "unat (Message_NextPOTSize x) = 2 ^ k"
    by (subst NextPOTSize_spread, subst unat_add_size) (simp_all add: s)
  with le least show ?thesis by blast
qed

section \<open>Well-formed messages\<close>

text \<open>
  The fields describe the allocation, both cursors are inside it, and it is no larger than
  an object may be.
\<close>

definition Message_wf :: "message \<Rightarrow> bool" where
  "Message_wf m \<longleftrightarrow>
     (case m_buffer m of None \<Rightarrow> m_bufferLength m = 0
                       | Some b \<Rightarrow> length b = unat (m_bufferLength m)) \<and>
     m_dataLength m \<le> m_bufferLength m \<and> m_sizeRead m \<le> m_bufferLength m \<and>
     unat (m_bufferLength m) \<le> 2 ^ 63"

text \<open>What growing the buffer must not change.\<close>

definition Message_extends :: "message \<Rightarrow> message \<Rightarrow> bool" where
  "Message_extends m m' \<longleftrightarrow>
     m_dataLength m' = m_dataLength m \<and> m_sizeRead m' = m_sizeRead m \<and>
     m_attachments m' = m_attachments m \<and> Message_data m' = Message_data m \<and>
     m_bufferLength m \<le> m_bufferLength m'"

lemma Message_extends_refl [simp]: "Message_extends m m"
  by (simp add: Message_extends_def)

lemma Message_empty_wf [simp]: "Message_wf Message_empty"
  by (simp add: Message_wf_def Message_empty_def)

lemma Message_empty_simps [simp]:
  "m_buffer Message_empty = None" "m_bufferLength Message_empty = 0"
  "m_dataLength Message_empty = 0" "m_sizeRead Message_empty = 0"
  "m_attachments Message_empty = []" "Message_data Message_empty = []"
  by (simp_all add: Message_empty_def Message_data_def)

lemma Message_wf_buffer:
  assumes "Message_wf m" "m_buffer m = Some b"
  shows "length b = unat (m_bufferLength m)" "unat (m_dataLength m) \<le> length b"
    "unat (m_sizeRead m) \<le> length b" "length b \<le> 2 ^ 63"
  using assms by (auto simp: Message_wf_def word_le_nat_alt)

lemma Message_wf_null:
  assumes "Message_wf m" "m_buffer m = None"
  shows "m_bufferLength m = 0" "m_dataLength m = 0" "m_sizeRead m = 0"
  using assms by (auto simp: Message_wf_def)

lemma length_Message_data: "Message_wf m \<Longrightarrow> length (Message_data m) = unat (m_dataLength m)"
  by (auto simp: Message_data_def dest: Message_wf_null Message_wf_buffer split: option.splits)

section \<open>Growing\<close>

lemma resizeBuffer_ok:
  assumes "Message_wf m" "m_bufferLength m < sz" "unat sz \<le> 2 ^ 63"
  obtains m' where "Message_resizeBuffer dbg True sz m = Inr (True, m')" "Message_wf m'"
    "Message_extends m m'" "m_bufferLength m' = sz"
proof (cases "m_buffer m")
  case None
  with assms show ?thesis
    by (intro that [of "m\<lparr>m_buffer := Some (fresh_region (unat sz)), m_bufferLength := sz\<rparr>"])
      (auto simp: Message_resizeBuffer_def Message_wf_def Message_extends_def Message_data_def
        word_less_nat_alt word_le_nat_alt)
next
  case (Some b)
  have "unat (m_dataLength m) \<le> length b" "length b < unat sz"
    using Message_wf_buffer [OF assms(1) Some] assms(2) by (auto simp: word_less_nat_alt)
  with Some assms show ?thesis
    by (intro that [of "m\<lparr>m_buffer := Some (realloc_region b (unat sz)), m_bufferLength := sz\<rparr>"])
      (auto simp: Message_resizeBuffer_def Message_wf_def Message_extends_def Message_data_def
        take_realloc_region word_less_nat_alt word_le_nat_alt)
qed

lemma resizeBuffer_refused:
  assumes "Message_wf m" "m_bufferLength m < sz"
  shows "Message_resizeBuffer dbg False sz m = Inr (False, m)"
  using assms by (auto simp: Message_resizeBuffer_def Message_wf_def split: option.splits)

lemma reserve_enough:
  "len \<le> m_bufferLength m \<Longrightarrow> Message_reserve dbg ok len m = Inr (True, m)"
  by (simp add: Message_reserve_def)

lemma NextPOTSize_above:
  assumes "m_bufferLength m < len" "unat len \<le> 2 ^ 63"
  shows "m_bufferLength m < Message_NextPOTSize len" "unat (Message_NextPOTSize len) \<le> 2 ^ 63"
    "len \<le> Message_NextPOTSize len"
proof -
  have "1 \<le> unat len" using assms(1) by (simp add: word_less_nat_alt)
  from NextPOTSize_bounds [OF this assms(2)] assms(1)
  show "m_bufferLength m < Message_NextPOTSize len" "unat (Message_NextPOTSize len) \<le> 2 ^ 63"
    "len \<le> Message_NextPOTSize len"
    by (simp_all add: word_less_nat_alt word_le_nat_alt)
qed

text \<open>
  \<^verbatim>\<open>reserve\<close> on a well-formed message never fails an assertion, and grows or leaves it.
\<close>

lemma reserve_spec:
  assumes "Message_wf m" "unat len \<le> 2 ^ 63"
  obtains (grown) m' where "Message_reserve dbg ok len m = Inr (True, m')" "Message_wf m'"
      "Message_extends m m'" "len \<le> m_bufferLength m'"
    | (refused) "Message_reserve dbg ok len m = Inr (False, m)" "\<not> ok" "m_bufferLength m < len"
proof (cases "len \<le> m_bufferLength m")
  case True
  with assms show ?thesis by (intro grown [of m]) (auto simp: reserve_enough)
next
  case False
  then have lt: "m_bufferLength m < len" by simp
  then have res: "Message_reserve dbg ok len m =
      Message_resizeBuffer dbg ok (Message_NextPOTSize len) m"
    by (auto simp: Message_reserve_def)
  note above = NextPOTSize_above [OF lt assms(2)]
  show ?thesis
  proof (cases ok)
    case True
    with resizeBuffer_ok [OF assms(1) above(1,2), of dbg] res above(3) grown show ?thesis
      by metis
  next
    case False
    with resizeBuffer_refused [OF assms(1) above(1), of dbg] res lt refused show ?thesis
      by simp
  qed
qed

section \<open>Encoding\<close>

lemma encode_spec:
  assumes wf: "Message_wf m" and ne: "bs \<noteq> []"
    and room: "unat (m_dataLength m) + length bs \<le> 2 ^ 63"
  obtains (written) m' where "Message_encode dbg ok bs m = Inr (True, m')" "Message_wf m'"
      "Message_data m' = Message_data m @ determined bs"
      "m_dataLength m' = m_dataLength m + of_nat (length bs)"
      "m_sizeRead m' = m_sizeRead m" "m_attachments m' = m_attachments m"
      "m_bufferLength m \<le> m_bufferLength m'"
    | (refused) "Message_encode dbg ok bs m = Inr (False, m)" "\<not> ok"
      "m_bufferLength m < m_dataLength m + of_nat (length bs)"
proof -
  let ?len = "m_dataLength m + of_nat (length bs)"
  have len: "unat ?len = unat (m_dataLength m) + length bs"
    using room by (intro unat_add_of_nat_size) simp
  with room have "unat ?len \<le> 2 ^ 63" by simp
  from wf this show ?thesis
  proof (cases rule: reserve_spec [where dbg = dbg and ok = ok])
    case (grown m1)
    from grown(4) len ne have "m_bufferLength m1 \<noteq> 0"
      by (auto simp: word_le_nat_alt)
    then obtain b where b: "m_buffer m1 = Some b"
      using Message_wf_null [OF grown(2)] by (cases "m_buffer m1") auto
    note bw = Message_wf_buffer [OF grown(2) b]
    have same: "m_dataLength m1 = m_dataLength m" "Message_data m1 = Message_data m"
      using grown(3) by (simp_all add: Message_extends_def)
    have fits: "unat (m_dataLength m) + length bs \<le> length b"
      using grown(4) len bw(1) by (simp add: word_le_nat_alt)
    define b' where "b' = take (unat (m_dataLength m)) b @ determined bs @
                          drop (unat (m_dataLength m) + length bs) b"
    have w: "region_write b (unat (m_dataLength m)) (determined bs) = Some b'"
      using fits by (simp add: region_write_total b'_def)
    let ?m' = "m1\<lparr>m_buffer := Some b', m_dataLength := ?len\<rparr>"
    have "Message_encode dbg ok bs m = Inr (True, ?m')"
      using grown(1) b w same by (simp add: Message_encode_def)
    moreover have "Message_wf ?m'"
      using grown(2,4) region_write_length [OF w] bw(1) by (simp add: Message_wf_def)
    moreover have "Message_data ?m' = Message_data m @ determined bs"
      using region_write_prefix [OF w] same(2) b same(1) len by (simp add: Message_data_def)
    ultimately show ?thesis
      using grown(3) by (intro written [of ?m']) (simp_all add: Message_extends_def)
  next
    case refused
    then show ?thesis by (intro that(2)) (simp_all add: Message_encode_def)
  qed
qed

section \<open>Decoding\<close>

lemma decode_spec:
  assumes wf: "Message_wf m" and n: "1 \<le> n" "n < 2 ^ 63"
  obtains (copied) b where "m_buffer m = Some b" "unat (m_sizeRead m) + n \<le> length b"
      "Message_decode n m =
        Inr (Some (take n (drop (unat (m_sizeRead m)) b)), m\<lparr>m_sizeRead := m_sizeRead m + of_nat n\<rparr>)"
      "Message_wf (m\<lparr>m_sizeRead := m_sizeRead m + of_nat n\<rparr>)"
    | (refused) "Message_decode n m = Inr (None, m)"
      "unat (m_bufferLength m) < unat (m_sizeRead m) + n"
proof -
  have "unat (m_sizeRead m) \<le> 2 ^ 63"
    using wf by (auto simp: Message_wf_def word_le_nat_alt)
  then have sum: "unat (m_sizeRead m + of_nat n) = unat (m_sizeRead m) + n"
    using n by (intro unat_add_of_nat_size) simp
  show ?thesis
  proof (cases "unat (m_bufferLength m) < unat (m_sizeRead m) + n")
    case True
    then show ?thesis
      by (intro refused) (simp_all add: Message_decode_def word_less_nat_alt add.commute sum)
  next
    case False
    then have "m_bufferLength m \<noteq> 0" using n by auto
    then obtain b where b: "m_buffer m = Some b"
      using Message_wf_null [OF wf] by (cases "m_buffer m") auto
    with False Message_wf_buffer [OF wf b] wf sum show ?thesis
      by (intro copied [of b])
        (auto simp: Message_decode_def word_less_nat_alt word_le_nat_alt add.commute
          region_read_def Message_wf_def)
  qed
qed

section \<open>Messages made from received bytes\<close>

lemma Message_of_buffer_ok:
  assumes "length src \<le> 2 ^ 63"
  obtains m where "Message_of_buffer True src = Inr m" "Message_wf m" "m_buffer m = Some src"
    "Message_data m = src" "m_sizeRead m = 0" "m_attachments m = []"
    "unat (m_bufferLength m) = length src" "unat (m_dataLength m) = length src"
proof -
  have "unat (of_nat (length src) :: size_t) = length src"
    using assms by (intro unat_of_nat_size) simp
  with assms that show ?thesis
    by (simp add: Message_of_buffer_def Message_wf_def Message_data_def)
qed

lemma Message_of_buffer_failed:
  "Message_of_buffer False src =
     (if src = [] then Inr Message_empty else Inl MemoryFault)"
  by (simp add: Message_of_buffer_def Message_empty_def)

section \<open>Sequences of fields\<close>

text \<open>A client that encodes (decodes) fields one after the other and stops at a refusal.\<close>

fun Message_encode_all :: "bool \<Rightarrow> byte list list \<Rightarrow> message \<Rightarrow> failure + (bool \<times> message)" where
  "Message_encode_all dbg [] m = Inr (True, m)"
| "Message_encode_all dbg (f # fs) m =
     (case Message_encode dbg True f m of
        Inl e \<Rightarrow> Inl e
      | Inr (False, m') \<Rightarrow> Inr (False, m')
      | Inr (True, m') \<Rightarrow> Message_encode_all dbg fs m')"

fun Message_decode_all :: "nat list \<Rightarrow> message \<Rightarrow> failure + (region list option \<times> message)" where
  "Message_decode_all [] m = Inr (Some [], m)"
| "Message_decode_all (n # ns) m =
     (case Message_decode n m of
        Inl e \<Rightarrow> Inl e
      | Inr (None, m') \<Rightarrow> Inr (None, m')
      | Inr (Some v, m') \<Rightarrow>
          (case Message_decode_all ns m' of
             Inl e \<Rightarrow> Inl e
           | Inr (None, m'') \<Rightarrow> Inr (None, m'')
           | Inr (Some vs, m'') \<Rightarrow> Inr (Some (v # vs), m'')))"

lemma encode_all_data:
  assumes "Message_wf m" "[] \<notin> set fs"
    "unat (m_dataLength m) + length (concat fs) \<le> 2 ^ 63"
  obtains m' where "Message_encode_all dbg fs m = Inr (True, m')" "Message_wf m'"
    "Message_data m' = Message_data m @ determined (concat fs)"
    "m_sizeRead m' = m_sizeRead m" "m_attachments m' = m_attachments m"
  using assms
proof (induction fs arbitrary: m thesis)
  case Nil
  then show ?case by simp
next
  case (Cons f fs)
  have "f \<noteq> []" "unat (m_dataLength m) + length f \<le> 2 ^ 63"
    using Cons.prems by auto
  with Cons.prems(2) show ?case
  proof (cases rule: encode_spec [where dbg = dbg and ok = True])
    case (written m1)
    have "unat (m_dataLength m1) = unat (m_dataLength m) + length f"
      unfolding written(4) using \<open>unat (m_dataLength m) + length f \<le> 2 ^ 63\<close>
      by (intro unat_add_of_nat_size) simp
    then have "unat (m_dataLength m1) + length (concat fs) \<le> 2 ^ 63"
      using Cons.prems(4) by simp
    with written(2) Cons.prems(3) obtain m' where
      "Message_encode_all dbg fs m1 = Inr (True, m')" "Message_wf m'"
      "Message_data m' = Message_data m1 @ determined (concat fs)"
      "m_sizeRead m' = m_sizeRead m1" "m_attachments m' = m_attachments m1"
      using Cons.IH [of m1] by auto
    with written show ?thesis by (intro Cons.prems(1) [of m']) simp_all
  qed simp
qed

lemma decode_field:
  assumes "Message_wf m" "m_buffer m = Some b" "f \<noteq> []"
    and at: "drop (unat (m_sizeRead m)) b = determined f @ rest"
  obtains m' where "Message_decode (length f) m = Inr (Some (determined f), m')" "Message_wf m'"
    "m_buffer m' = Some b" "drop (unat (m_sizeRead m')) b = rest"
    "m' = m\<lparr>m_sizeRead := m_sizeRead m + of_nat (length f)\<rparr>"
proof -
  note bw = Message_wf_buffer [OF assms(1,2)]
  have fits: "unat (m_sizeRead m) + length f \<le> length b"
    using arg_cong [OF at, of length] bw(3) by auto
  have sum: "unat (m_sizeRead m + of_nat (length f)) = unat (m_sizeRead m) + length f"
    using fits bw(4) by (intro unat_add_of_nat_size) simp
  have "drop (length f) (drop (unat (m_sizeRead m)) b) = rest"
    using at by simp
  then have rest: "drop (unat (m_sizeRead m + of_nat (length f))) b = rest"
    by (simp add: sum add.commute)
  have "length f < 2 ^ 63 \<or> length f = 2 ^ 63" using fits bw(4) by auto
  have in_range: "of_nat (length f) + m_sizeRead m \<le> m_bufferLength m"
    using sum fits bw(1) by (simp add: word_le_nat_alt add.commute)
  let ?m' = "m\<lparr>m_sizeRead := m_sizeRead m + of_nat (length f)\<rparr>"
  have "Message_decode (length f) m = Inr (Some (determined f), ?m')"
    using in_range assms(2) fits at
    by (simp add: Message_decode_def region_read_total not_less [symmetric])
  moreover have "Message_wf ?m'"
    using assms(1,2) in_range by (simp add: Message_wf_def add.commute)
  ultimately show ?thesis using rest assms(2) by (intro that) simp_all
qed

lemma decode_all_data:
  assumes "Message_wf m" "m_buffer m = Some b" "[] \<notin> set fs"
    and "drop (unat (m_sizeRead m)) b = determined (concat fs) @ rest"
  obtains m' where "Message_decode_all (map length fs) m = Inr (Some (map determined fs), m')"
    "Message_wf m'" "m_buffer m' = Some b" "drop (unat (m_sizeRead m')) b = rest"
    "m_attachments m' = m_attachments m"
  using assms
proof (induction fs arbitrary: m thesis)
  case Nil
  then show ?case by simp
next
  case (Cons f fs)
  have "f \<noteq> []" and at: "drop (unat (m_sizeRead m)) b =
      determined f @ (determined (concat fs) @ rest)"
    using Cons.prems by auto
  from Cons.prems(2,3) this obtain m1 where m1:
    "Message_decode (length f) m = Inr (Some (determined f), m1)" "Message_wf m1"
    "m_buffer m1 = Some b" "drop (unat (m_sizeRead m1)) b = determined (concat fs) @ rest"
    "m1 = m\<lparr>m_sizeRead := m_sizeRead m + of_nat (length f)\<rparr>"
    by (rule decode_field)
  with Cons.prems(4) obtain m' where
    "Message_decode_all (map length fs) m1 = Inr (Some (map determined fs), m')"
    "Message_wf m'" "m_buffer m' = Some b" "drop (unat (m_sizeRead m')) b = rest"
    "m_attachments m' = m_attachments m1"
    using Cons.IH [of m1] by auto
  with m1 show ?case by (intro Cons.prems(1) [of m']) simp_all
qed

section \<open>Typed values\<close>

text \<open>
  The interface the template parameter of \<^verbatim>\<open>encode\<close> and \<^verbatim>\<open>decode\<close> has to meet: a type of a
  fixed, non-zero size whose object representation determines the value.
\<close>

definition region_value :: "(byte list \<Rightarrow> 'a) \<Rightarrow> region \<Rightarrow> 'a option" where
  "region_value val r = (if None \<in> set r then None else Some (val (map the r)))"

lemma region_value_determined [simp]: "region_value val (determined bs) = Some (val bs)"
  by (auto simp: region_value_def determined_def comp_def)

locale object_representation =
  fixes rep :: "'a \<Rightarrow> byte list" and val :: "byte list \<Rightarrow> 'a" and width :: nat
  assumes length_rep: "length (rep v) = width"
    and val_rep: "val (rep v) = v"
    and width_pos: "0 < width"
begin

lemma rep_nonempty: "rep v \<noteq> []"
  using length_rep [of v] width_pos by auto

lemma encode_value:
  assumes "Message_wf m" "unat (m_dataLength m) + width \<le> 2 ^ 63"
  obtains m' where "Message_encode dbg True (rep v) m = Inr (True, m')" "Message_wf m'"
    "Message_data m' = Message_data m @ determined (rep v)"
    "m_dataLength m' = m_dataLength m + of_nat width" "m_sizeRead m' = m_sizeRead m"
proof -
  from assms(2) have "unat (m_dataLength m) + length (rep v) \<le> 2 ^ 63"
    by (simp add: length_rep)
  from assms(1) rep_nonempty this show ?thesis
    by (cases rule: encode_spec [where dbg = dbg and ok = True])
      (use that in \<open>simp_all add: length_rep\<close>)
qed

lemma decode_value:
  assumes "Message_wf m" "m_buffer m = Some b"
    "drop (unat (m_sizeRead m)) b = determined (rep v) @ rest"
  obtains r m' where "Message_decode width m = Inr (Some r, m')" "region_value val r = Some v"
    "Message_wf m'" "m_buffer m' = Some b" "drop (unat (m_sizeRead m')) b = rest"
proof -
  from assms(1,2) rep_nonempty assms(3) obtain m' where
    "Message_decode (length (rep v)) m = Inr (Some (determined (rep v)), m')"
    "Message_wf m'" "m_buffer m' = Some b" "drop (unat (m_sizeRead m')) b = rest"
    by (rule decode_field)
  then show ?thesis
    by (intro that [of "determined (rep v)" m']) (simp_all add: length_rep val_rep)
qed

end

text \<open>
  The scalar types the clients use: \<^verbatim>\<open>uint32_t\<close> (and \<^verbatim>\<open>float\<close>, by its bit pattern),
  \<^verbatim>\<open>uint64_t\<close> (and \<^verbatim>\<open>double\<close>), \<^verbatim>\<open>char\<close> and \<^verbatim>\<open>bool\<close>.
\<close>

definition rep32 :: "32 word \<Rightarrow> byte list" where "rep32 v = le_bytes 4 (unat v)"
definition val32 :: "byte list \<Rightarrow> 32 word" where "val32 bs = of_nat (le_value bs)"
definition rep64 :: "64 word \<Rightarrow> byte list" where "rep64 v = le_bytes 8 (unat v)"
definition val64 :: "byte list \<Rightarrow> 64 word" where "val64 bs = of_nat (le_value bs)"
definition rep8 :: "8 word \<Rightarrow> byte list" where "rep8 v = [v]"
definition val8 :: "byte list \<Rightarrow> 8 word" where "val8 bs = of_nat (le_value bs)"
definition rep_bool :: "bool \<Rightarrow> byte list" where "rep_bool v = [if v then 1 else 0]"
definition val_bool :: "byte list \<Rightarrow> bool" where "val_bool bs = (le_value bs \<noteq> 0)"

interpretation uint32: object_representation rep32 val32 4
proof
  fix v :: "32 word"
  have "unat v < 2 ^ 32" using unsigned_less [where ?'a = nat, of v] by simp
  then show "val32 (rep32 v) = v" by (simp add: rep32_def val32_def le_value_le_bytes)
qed (simp_all add: rep32_def)

interpretation uint64: object_representation rep64 val64 8
proof
  fix v :: "64 word"
  have "unat v < 2 ^ 64" using unsigned_less [where ?'a = nat, of v] by simp
  then show "val64 (rep64 v) = v" by (simp add: rep64_def val64_def le_value_le_bytes)
qed (simp_all add: rep64_def)

interpretation uint8: object_representation rep8 val8 1
  by unfold_locales (simp_all add: rep8_def val8_def)

interpretation boolean: object_representation rep_bool val_bool 1
  by unfold_locales (simp_all add: rep_bool_def val_bool_def)

section \<open>Messages a client can build\<close>

text \<open>
  Every message that the constructors and operations produce, with sizes below \<open>2 ^ 63\<close> and
  copied regions that are initialised.
\<close>

inductive Message_reach :: "bool \<Rightarrow> message \<Rightarrow> bool" for dbg where
  construct: "Message_ctor dbg ok len = Inr m \<Longrightarrow> unat len \<le> 2 ^ 63 \<Longrightarrow> Message_reach dbg m"
| copy: "Message_of_buffer ok (determined bs) = Inr m \<Longrightarrow> length bs \<le> 2 ^ 63 \<Longrightarrow>
    Message_reach dbg m"
| reserve: "Message_reach dbg m \<Longrightarrow> unat len \<le> 2 ^ 63 \<Longrightarrow>
    Message_reserve dbg ok len m = Inr (s, m') \<Longrightarrow> Message_reach dbg m'"
| encode: "Message_reach dbg m \<Longrightarrow> bs \<noteq> [] \<Longrightarrow> unat (m_dataLength m) + length bs \<le> 2 ^ 63 \<Longrightarrow>
    Message_encode dbg ok bs m = Inr (s, m') \<Longrightarrow> Message_reach dbg m'"
| decode: "Message_reach dbg m \<Longrightarrow> 1 \<le> n \<Longrightarrow> n < 2 ^ 63 \<Longrightarrow>
    Message_decode n m = Inr (v, m') \<Longrightarrow> Message_reach dbg m'"
| attach: "Message_reach dbg m \<Longrightarrow> Message_addAttachment dbg a m = Inr m' \<Longrightarrow>
    Message_reach dbg m'"

text \<open>The invariant: well-formed, and the bytes up to the append cursor are initialised.\<close>

definition Message_inv :: "message \<Rightarrow> bool" where
  "Message_inv m \<longleftrightarrow> Message_wf m \<and> None \<notin> set (Message_data m)"

lemma None_notin_determined [simp]: "None \<notin> set (determined bs)"
  by (auto simp: determined_def)

lemma Message_inv_empty [simp]: "Message_inv Message_empty"
  by (simp add: Message_inv_def)

lemma Message_inv_reserve:
  assumes "Message_inv m" "unat len \<le> 2 ^ 63" "Message_reserve dbg ok len m = Inr (s, m')"
  shows "Message_inv m'"
proof -
  from assms(1) have "Message_wf m" by (simp add: Message_inv_def)
  from this assms(2) show ?thesis
    by (cases rule: reserve_spec [where dbg = dbg and ok = ok])
      (use assms(1,3) in \<open>auto simp: Message_inv_def Message_extends_def\<close>)
qed

lemma Message_inv_encode:
  assumes "Message_inv m" "bs \<noteq> []" "unat (m_dataLength m) + length bs \<le> 2 ^ 63"
    "Message_encode dbg ok bs m = Inr (s, m')"
  shows "Message_inv m'"
proof -
  from assms(1) have "Message_wf m" by (simp add: Message_inv_def)
  from this assms(2,3) show ?thesis
    by (cases rule: encode_spec [where dbg = dbg and ok = ok])
      (use assms(1,4) in \<open>auto simp: Message_inv_def\<close>)
qed

lemma Message_inv_decode:
  assumes "Message_inv m" "1 \<le> n" "n < 2 ^ 63" "Message_decode n m = Inr (v, m')"
  shows "Message_inv m'"
proof -
  from assms(1) have "Message_wf m" by (simp add: Message_inv_def)
  from this assms(2,3) show ?thesis
    by (cases rule: decode_spec)
      (use assms(1,4) in \<open>auto simp: Message_inv_def Message_data_def\<close>)
qed

lemma Message_inv_attach:
  "Message_inv m \<Longrightarrow> Message_addAttachment dbg a m = Inr m' \<Longrightarrow> Message_inv m'"
  by (auto simp: Message_inv_def Message_addAttachment_def Message_wf_def Message_data_def
      split: if_splits option.splits)

lemma Message_reach_inv: "Message_reach dbg m \<Longrightarrow> Message_inv m"
proof (induction rule: Message_reach.induct)
  case (construct ok len m)
  then show ?case
    by (auto simp: Message_ctor_def intro: Message_inv_reserve [OF Message_inv_empty]
        split: sum.splits prod.splits)
next
  case (copy ok bs m)
  show ?case
  proof (cases ok)
    case True
    obtain m' where "Message_of_buffer True (determined bs) = Inr m'" "Message_wf m'"
        "Message_data m' = determined bs"
      by (rule Message_of_buffer_ok [of "determined bs"]) (use copy(2) in simp_all)
    with copy(1) True show ?thesis by (simp add: Message_inv_def)
  next
    case False
    with copy show ?thesis by (auto simp: Message_of_buffer_failed split: if_splits)
  qed
qed (blast intro: Message_inv_reserve Message_inv_encode Message_inv_decode Message_inv_attach)+

section \<open>Properties\<close>

text \<open>
  C29: For every length from 1 to \<open>2 ^ 32\<close>, \<^verbatim>\<open>Message_NextPOTSize\<close> returns the least power of
  two that is at least the length.
\<close>

theorem Message_NextPOTSize_least:
  assumes "1 \<le> unat x" "unat x \<le> 2 ^ 32"
  shows "\<exists>k. unat (Message_NextPOTSize x) = 2 ^ k \<and> unat x \<le> 2 ^ k \<and>
             (\<forall>j. unat x \<le> 2 ^ j \<longrightarrow> k \<le> j)"
  using assms by (rule NextPOTSize_exact)

theorem Message_NextPOTSize_least_witness:
  "Message_NextPOTSize 1000 = 1024 \<and>
   (\<exists>k. unat (Message_NextPOTSize 1000) = 2 ^ k \<and> unat (1000 :: size_t) \<le> 2 ^ k \<and>
        (\<forall>j. unat (1000 :: size_t) \<le> 2 ^ j \<longrightarrow> k \<le> j))"
proof (rule conjI)
  show "Message_NextPOTSize 1000 = 1024" by code_simp
qed (rule Message_NextPOTSize_least, simp_all)

text \<open>
  Beyond 32 bits the missing shift by 32 shows: for the length \<open>2 ^ 32 + 1\<close> the result is
  \<open>2 ^ 33 - 1\<close>, which is no power of two.
\<close>

theorem Message_NextPOTSize_not_power:
  "Message_NextPOTSize 4294967297 = 8589934591 \<and>
   (\<nexists>k. unat (Message_NextPOTSize 4294967297) = 2 ^ k)"
proof
  show eq: "Message_NextPOTSize 4294967297 = 8589934591" by code_simp
  show "\<nexists>k. unat (Message_NextPOTSize 4294967297) = 2 ^ k"
  proof
    assume "\<exists>k. unat (Message_NextPOTSize 4294967297) = 2 ^ k"
    then obtain k where k: "(8589934591 :: nat) = 2 ^ k" by (auto simp: eq)
    have "even ((2 :: nat) ^ k) \<or> (2 :: nat) ^ k = 1" by (cases k) simp_all
    then show False unfolding k [symmetric] by simp
  qed
qed

text \<open>
  C1: Fields encoded into a fresh message, sent as \<^verbatim>\<open>data()\<close> and \<^verbatim>\<open>size()\<close>, and decoded
  from a copy with the same sizes come back in order and unchanged; after the last one every
  further \<^verbatim>\<open>decode\<close> is refused and changes nothing.
\<close>

theorem Message_roundtrip:
  assumes "[] \<notin> set fs" "length (concat fs) \<le> 2 ^ 63"
  shows "\<exists>m d d'. Message_encode_all dbg fs Message_empty = Inr (True, m) \<and>
     Message_data m = determined (concat fs) \<and>
     Message_of_buffer True (Message_data m) = Inr d \<and>
     Message_decode_all (map length fs) d = Inr (Some (map determined fs), d') \<and>
     (\<forall>n. 1 \<le> n \<and> n < 2 ^ 63 \<longrightarrow> Message_decode n d' = Inr (None, d'))"
proof -
  obtain m where m: "Message_encode_all dbg fs Message_empty = Inr (True, m)" "Message_wf m"
      "Message_data m = determined (concat fs)"
    by (rule encode_all_data [OF Message_empty_wf assms(1), of dbg]) (use assms(2) in simp_all)
  obtain d where d: "Message_of_buffer True (Message_data m) = Inr d" "Message_wf d"
      "m_buffer d = Some (determined (concat fs))" "m_sizeRead d = 0"
      "unat (m_bufferLength d) = length (concat fs)"
    using Message_of_buffer_ok [of "Message_data m"] m(3) assms(2) by auto
  obtain d' where d': "Message_decode_all (map length fs) d = Inr (Some (map determined fs), d')"
      "Message_wf d'" "m_buffer d' = Some (determined (concat fs))"
      "drop (unat (m_sizeRead d')) (determined (concat fs)) = []"
    by (rule decode_all_data [OF d(2,3) assms(1), where rest = "[]"]) (use d(4) in simp_all)
  have "Message_decode n d' = Inr (None, d')" if "1 \<le> n" "n < 2 ^ 63" for n
    using d'(2) that by (cases rule: decode_spec) (use d'(3,4) that in auto)
  with m d d' show ?thesis by blast
qed

theorem Message_roundtrip_witness:
  "\<exists>m d d'. Message_encode_all True [[40, 0, 0, 0], [1], [99]] Message_empty = Inr (True, m) \<and>
     Message_data m = determined (concat [[40, 0, 0, 0], [1], [99]]) \<and>
     Message_of_buffer True (Message_data m) = Inr d \<and>
     Message_decode_all (map length [[40, 0, 0, 0 :: byte], [1], [99]]) d =
       Inr (Some (map determined [[40, 0, 0, 0], [1], [99]]), d') \<and>
     (\<forall>n. 1 \<le> n \<and> n < 2 ^ 63 \<longrightarrow> Message_decode n d' = Inr (None, d'))"
  by (rule Message_roundtrip) simp_all

text \<open>
  Typed values, as in the decoder tests: a \<^verbatim>\<open>uint32_t\<close>, a \<^verbatim>\<open>bool\<close>, a \<^verbatim>\<open>float\<close>, a
  \<^verbatim>\<open>double\<close> (bit patterns) and a \<^verbatim>\<open>char\<close> that are encoded one after the other decode to the
  same values from a copy of the bytes.
\<close>

theorem Message_typed_roundtrip:
  "\<exists>m d r1 r2 r3 r4 r5 d'.
     Message_encode_all dbg [rep32 u, rep_bool f, rep32 a, rep64 b, rep8 c] Message_empty
       = Inr (True, m) \<and>
     unat (Message_size m) = 18 \<and>
     Message_of_buffer True (Message_data m) = Inr d \<and>
     Message_decode_all [4, 1, 4, 8, 1] d = Inr (Some [r1, r2, r3, r4, r5], d') \<and>
     region_value val32 r1 = Some u \<and> region_value val_bool r2 = Some f \<and>
     region_value val32 r3 = Some a \<and> region_value val64 r4 = Some b \<and>
     region_value val8 r5 = Some c"
proof -
  let ?fs = "[rep32 u, rep_bool f, rep32 a, rep64 b, rep8 c]"
  have ne: "[] \<notin> set ?fs"
    using uint32.rep_nonempty uint64.rep_nonempty uint8.rep_nonempty boolean.rep_nonempty
    by (metis (no_types, lifting) empty_iff empty_set set_ConsD)
  have len: "map length ?fs = [4, 1, 4, 8, 1]" "length (concat ?fs) = 18"
    by (simp_all add: uint32.length_rep uint64.length_rep uint8.length_rep boolean.length_rep)
  obtain m where m: "Message_encode_all dbg ?fs Message_empty = Inr (True, m)" "Message_wf m"
      "Message_data m = determined (concat ?fs)"
    by (rule encode_all_data [OF Message_empty_wf ne, of dbg]) (use len(2) in simp_all)
  then have size: "unat (Message_size m) = 18"
    using length_Message_data [OF m(2)] len(2) by (simp add: Message_size_def)
  obtain d where d: "Message_of_buffer True (Message_data m) = Inr d" "Message_wf d"
      "m_buffer d = Some (determined (concat ?fs))" "m_sizeRead d = 0"
    using Message_of_buffer_ok [of "Message_data m"] m(3) len(2) by auto
  obtain d' where "Message_decode_all (map length ?fs) d = Inr (Some (map determined ?fs), d')"
    by (rule decode_all_data [OF d(2,3) ne, where rest = "[]"]) (use d(4) in simp_all)
  then have "Message_decode_all [4, 1, 4, 8, 1] d = Inr (Some (map determined ?fs), d')"
    unfolding len(1) .
  with m(1) size d(1) show ?thesis
    by - (rule exI [of _ m], rule exI [of _ d], rule exI [of _ "determined (rep32 u)"],
        rule exI [of _ "determined (rep_bool f)"], rule exI [of _ "determined (rep32 a)"],
        rule exI [of _ "determined (rep64 b)"], rule exI [of _ "determined (rep8 c)"],
        rule exI [of _ d'],
        simp add: uint32.val_rep uint64.val_rep uint8.val_rep boolean.val_rep del: Message_encode_all.simps
        Message_decode_all.simps)
qed

text \<open>
  \<^verbatim>\<open>encode\<close> on a well-formed message never faults or fails an assertion: it appends
  exactly the bytes of the value, or, only when the allocator refuses and the buffer is too
  small, returns false and leaves the message as it was.
\<close>

theorem Message_encode_appends:
  assumes "Message_wf m" "bs \<noteq> []" "unat (m_dataLength m) + length bs \<le> 2 ^ 63"
  shows "(\<exists>m'. Message_encode dbg ok bs m = Inr (True, m') \<and> Message_wf m' \<and>
            Message_data m' = Message_data m @ determined bs \<and>
            unat (Message_size m') = unat (Message_size m) + length bs \<and>
            m_sizeRead m' = m_sizeRead m \<and> m_attachments m' = m_attachments m) \<or>
         (Message_encode dbg ok bs m = Inr (False, m) \<and> \<not> ok \<and>
            unat (m_bufferLength m) < unat (Message_size m) + length bs)"
proof -
  have "unat (m_dataLength m + of_nat (length bs)) = unat (m_dataLength m) + length bs"
    using assms(3) by (intro unat_add_of_nat_size) simp
  with assms show ?thesis
    by (cases rule: encode_spec [where dbg = dbg and ok = ok])
      (auto simp: Message_size_def word_less_nat_alt)
qed

theorem Message_encode_appends_witness:
  "(\<exists>m'. Message_encode True True [1, 2, 3] Message_empty = Inr (True, m') \<and> Message_wf m' \<and>
      Message_data m' = Message_data Message_empty @ determined [1, 2, 3] \<and>
      unat (Message_size m') = unat (Message_size Message_empty) + length [1, 2, 3 :: byte] \<and>
      m_sizeRead m' = m_sizeRead Message_empty \<and>
      m_attachments m' = m_attachments Message_empty) \<or>
   (Message_encode True True [1, 2, 3] Message_empty = Inr (False, Message_empty) \<and> \<not> True \<and>
      unat (m_bufferLength Message_empty) < unat (Message_size Message_empty) + length [1, 2, 3 :: byte])"
  by (rule Message_encode_appends) simp_all

text \<open>
  C27: \<^verbatim>\<open>decode\<close> on a well-formed message never reads outside the buffer: it succeeds iff the
  value fits before the end of the \<^emph>\<open>allocation\<close>, then advances the read cursor by the size, and
  otherwise refuses and changes nothing.
\<close>

theorem Message_decode_bounds:
  assumes "Message_wf m" "1 \<le> n" "n < 2 ^ 63"
  shows "Message_decode n m =
    (if unat (m_sizeRead m) + n \<le> unat (m_bufferLength m)
     then Inr (Some (take n (drop (unat (m_sizeRead m)) (the (m_buffer m)))),
               m\<lparr>m_sizeRead := m_sizeRead m + of_nat n\<rparr>)
     else Inr (None, m))"
  using assms by (cases rule: decode_spec) (auto dest: Message_wf_buffer(1) [OF assms(1)])

theorem Message_decode_bounds_witness:
  "Message_decode 2 Message_empty =
    (if unat (m_sizeRead Message_empty) + 2 \<le> unat (m_bufferLength Message_empty)
     then Inr (Some (take 2 (drop (unat (m_sizeRead Message_empty)) (the (m_buffer Message_empty)))),
               Message_empty\<lparr>m_sizeRead := m_sizeRead Message_empty + of_nat 2\<rparr>)
     else Inr (None, Message_empty))"
  by (rule Message_decode_bounds) simp_all

text \<open>
  The bound is the capacity, not the data: after encoding three bytes (capacity four), a
  fourth byte that was never written can be decoded, and its value is indeterminate.
\<close>

theorem Message_decode_past_data:
  "\<exists>m m' m''. Message_encode True True [1, 2, 3] Message_empty = Inr (True, m) \<and>
     unat (Message_size m) = 3 \<and>
     Message_decode 3 m = Inr (Some [Some 1, Some 2, Some 3], m') \<and>
     Message_decode 1 m' = Inr (Some [None], m'')"
proof -
  have "Message_encode True True [1, 2, 3] Message_empty = Inr (True,
      \<lparr>m_buffer = Some [Some 1, Some 2, Some 3, None], m_bufferLength = 4, m_dataLength = 3,
       m_sizeRead = 0, m_attachments = []\<rparr>)"
    by code_simp
  then show ?thesis
    by (intro exI conjI) (assumption, code_simp+)
qed

text \<open>
  C28: Every message a client can build keeps the invariant: the buffer has the recorded
  length, both cursors are inside it and all bytes before the append cursor are initialised.
\<close>

theorem Message_reachable_invariant:
  assumes "Message_reach dbg m"
  shows "Message_wf m \<and> None \<notin> set (Message_data m)"
  using Message_reach_inv [OF assms] by (simp add: Message_inv_def)

theorem Message_reachable_invariant_witness:
  "Message_wf Message_empty \<and> None \<notin> set (Message_data Message_empty)"
proof (rule Message_reachable_invariant)
  show "Message_reach True Message_empty"
    by (rule Message_reach.construct [of True True 0]) (simp_all add: Message_ctor_def Message_reserve_def)
qed

text \<open>
  \<^verbatim>\<open>reserve\<close> on a well-formed message keeps the encoded bytes, the cursors and the
  attachments, never shrinks the buffer and fails no assertion; when it returns true the
  capacity is at least the length asked for.
\<close>

theorem Message_reserve_keeps:
  assumes "Message_wf m" "unat len \<le> 2 ^ 63"
  shows "\<exists>s m'. Message_reserve dbg ok len m = Inr (s, m') \<and> Message_wf m' \<and>
     Message_extends m m' \<and> (s \<longrightarrow> len \<le> m_bufferLength m') \<and> (\<not> s \<longrightarrow> m' = m \<and> \<not> ok)"
  using assms
proof (cases rule: reserve_spec [where dbg = dbg and ok = ok])
  case (grown m')
  then show ?thesis by blast
next
  case refused
  with assms(1) show ?thesis by (intro exI [of _ False] exI [of _ m]) simp
qed

theorem Message_reserve_keeps_witness:
  "\<exists>s m'. Message_reserve True True 100 Message_empty = Inr (s, m') \<and> Message_wf m' \<and>
     Message_extends Message_empty m' \<and> (s \<longrightarrow> 100 \<le> m_bufferLength m') \<and>
     (\<not> s \<longrightarrow> m' = Message_empty \<and> \<not> True)"
  by (rule Message_reserve_keeps) simp_all

end
