(* ===== verification/CL_Lock.thy ===== *)
theory CL_Lock
  imports CL_World
begin

text \<open>
  \<^verbatim>\<open>Headers/Lock.h\<close> and \<^verbatim>\<open>Headers/AutoLock.h\<close>: a non-recursive mutex and the scope guard over
  it. The first part is the sequential view the socket operations use (a lock that is already
  held blocks its caller for ever); the second is the concurrent one, threads whose guards
  are constructed and destroyed in any interleaving.
\<close>

section \<open>The mutex and its guard\<close>

record lock =
  lk_locked :: bool

definition Lock_ctor :: lock where
  "Lock_ctor = \<lparr>lk_locked = False\<rparr>"

text \<open>\<open>None\<close>: the caller blocks.\<close>

definition Lock_lock :: "lock \<Rightarrow> lock option" where
  "Lock_lock l = (if lk_locked l then None else Some (l\<lparr>lk_locked := True\<rparr>))"

definition Lock_unlock :: "lock \<Rightarrow> lock" where
  "Lock_unlock l = l\<lparr>lk_locked := False\<rparr>"

text \<open>
  A block of code guarded by an \<^verbatim>\<open>AutoLock\<close> on the lock that \<open>get\<close> and \<open>put\<close> access in the
  object: the destructor unlocks on every way out of the block except a crash.
\<close>

definition with_AutoLock ::
  "('s \<Rightarrow> lock) \<Rightarrow> (lock \<Rightarrow> 's \<Rightarrow> 's) \<Rightarrow> ('s \<Rightarrow> os \<Rightarrow> ('a \<times> 's) outcome) \<Rightarrow> 's \<Rightarrow> os \<Rightarrow> ('a \<times> 's) outcome"
  where
  "with_AutoLock get put body s w =
     (case Lock_lock (get s) of
        None \<Rightarrow> Fail Deadlock w
      | Some l \<Rightarrow>
          bind_out (body (put l s) w)
            (\<lambda>(a, s') w'. Done (a, put (Lock_unlock (get s')) s') w'))"

text \<open>The contract of a mutex, which is all the interleaving argument needs.\<close>

locale mutex =
  fixes free :: "'l" and acquire :: "'l \<Rightarrow> 'l option" and release :: "'l \<Rightarrow> 'l"
    and held :: "'l \<Rightarrow> bool"
  assumes free_not_held: "\<not> held free"
    and acquire_free: "\<not> held l \<Longrightarrow> \<exists>l'. acquire l = Some l' \<and> held l'"
    and acquire_held: "held l \<Longrightarrow> acquire l = None"
    and release_frees: "\<not> held (release l)"
begin

lemma acquire_Some_iff: "(\<exists>l'. acquire l = Some l') \<longleftrightarrow> \<not> held l"
  using acquire_free acquire_held by fastforce

lemma acquired_held: "acquire l = Some l' \<Longrightarrow> held l'"
  using acquire_free [of l] acquire_held [of l] by (cases "held l") auto

lemma acquire_once: "acquire l = Some l' \<Longrightarrow> acquire l' = None"
  using acquired_held acquire_held by blast

lemma acquire_after_release: "\<exists>l'. acquire (release l) = Some l'"
  using acquire_Some_iff release_frees by blast

end

interpretation pthread_mutex: mutex Lock_ctor Lock_lock Lock_unlock lk_locked
  by unfold_locales (simp_all add: Lock_ctor_def Lock_lock_def Lock_unlock_def)

section \<open>Guards in several threads\<close>

text \<open>The lock, and for each thread the number of its guards that are alive.\<close>

record guards =
  gd_lock :: lock
  gd_live :: "nat \<Rightarrow> nat"

datatype guard_event = Construct nat | Destruct nat

definition guards_init :: guards where
  "guards_init = \<lparr>gd_lock = Lock_ctor, gd_live = (\<lambda>_. 0)\<rparr>"

inductive guard_step :: "guards \<Rightarrow> guard_event \<Rightarrow> guards \<Rightarrow> bool" where
  AutoLock_ctor: "Lock_lock (gd_lock g) = Some l \<Longrightarrow>
    guard_step g (Construct t) \<lparr>gd_lock = l, gd_live = (gd_live g)(t := Suc (gd_live g t))\<rparr>"
| AutoLock_dtor: "gd_live g t = Suc n \<Longrightarrow>
    guard_step g (Destruct t) \<lparr>gd_lock = Lock_unlock (gd_lock g), gd_live = (gd_live g)(t := n)\<rparr>"

inductive_cases guard_step_ConstructE: "guard_step g (Construct t) g'"
inductive_cases guard_step_DestructE: "guard_step g (Destruct t) g'"

inductive guard_run :: "guards \<Rightarrow> guard_event list \<Rightarrow> guards \<Rightarrow> bool" where
  idle: "guard_run g [] g"
| step: "guard_run g es g' \<Longrightarrow> guard_step g' e g'' \<Longrightarrow> guard_run g (es @ [e]) g''"

text \<open>
  The invariant, indexed by the history: complete pairs of a construction and a destruction
  by the same thread, then at most one open construction, which is the one live guard.
\<close>

definition guard_pairs :: "nat list \<Rightarrow> guard_event list" where
  "guard_pairs ts = concat (map (\<lambda>t. [Construct t, Destruct t]) ts)"

definition guards_inv :: "guard_event list \<Rightarrow> guards \<Rightarrow> bool" where
  "guards_inv es g \<longleftrightarrow>
     (\<not> lk_locked (gd_lock g) \<and> gd_live g = (\<lambda>_. 0) \<and> (\<exists>ts. es = guard_pairs ts)) \<or>
     (lk_locked (gd_lock g) \<and>
        (\<exists>ts u. es = guard_pairs ts @ [Construct u] \<and> gd_live g = (\<lambda>_. 0)(u := 1)))"

lemma guard_pairs_simps [simp]:
  "guard_pairs [] = []" "guard_pairs (ts @ [t]) = guard_pairs ts @ [Construct t, Destruct t]"
  by (simp_all add: guard_pairs_def)

lemma guards_inv_init: "guards_inv [] guards_init"
  unfolding guards_inv_def guards_init_def
  by (intro disjI1 conjI exI [of _ "[]"]) (simp_all add: pthread_mutex.free_not_held)

lemma guards_inv_Construct:
  assumes "guards_inv es g" "guard_step g (Construct t) g'"
  shows "guards_inv (es @ [Construct t]) g'"
proof -
  from assms(2) obtain l where
    1: "g' = \<lparr>gd_lock = l, gd_live = (gd_live g)(t := Suc (gd_live g t))\<rparr>"
      "Lock_lock (gd_lock g) = Some l"
    by (rule guard_step_ConstructE)
  then have "\<not> lk_locked (gd_lock g)" "lk_locked l"
    using pthread_mutex.acquire_Some_iff pthread_mutex.acquired_held by blast+
  with assms(1) 1(1) show ?thesis by (auto simp: guards_inv_def)
qed

lemma guards_inv_Destruct:
  assumes "guards_inv es g" "guard_step g (Destruct t) g'"
  shows "guards_inv (es @ [Destruct t]) g'"
proof -
  from assms(2) obtain n where
    1: "g' = \<lparr>gd_lock = Lock_unlock (gd_lock g), gd_live = (gd_live g)(t := n)\<rparr>"
      "gd_live g t = Suc n"
    by (rule guard_step_DestructE)
  with assms(1) obtain ts where
    "es = guard_pairs ts @ [Construct t]" "gd_live g = (\<lambda>_. 0)(t := 1)" "n = 0"
    by (auto simp: guards_inv_def split: if_splits)
  then have "es @ [Destruct t] = guard_pairs (ts @ [t])" "(gd_live g)(t := n) = (\<lambda>_. 0)"
    by auto
  with 1(1) pthread_mutex.release_frees show ?thesis
    unfolding guards_inv_def by (intro disjI1 conjI exI [of _ "ts @ [t]"]) simp_all
qed

lemma guard_run_inv: "guard_run guards_init es g \<Longrightarrow> guards_inv es g"
proof (induction guards_init es g rule: guard_run.induct)
  case idle
  show ?case by (rule guards_inv_init)
next
  case (step es g' e g'')
  then show ?case
    by (cases e) (auto intro: guards_inv_Construct guards_inv_Destruct)
qed

section \<open>Properties\<close>

text \<open>
  C26: Mutual exclusion of \<^verbatim>\<open>AutoLock\<close> scopes: in every interleaving of any number of threads
  at most one guard is alive, so two threads are never inside guarded code at once.
\<close>

theorem AutoLock_mutual_exclusion:
  assumes "guard_run guards_init es g" "0 < gd_live g t" "0 < gd_live g u"
  shows "t = u \<and> gd_live g t = 1"
  using guard_run_inv [OF assms(1)] assms(2,3) by (auto simp: guards_inv_def split: if_splits)

theorem AutoLock_mutual_exclusion_witness:
  "(3 :: nat) = 3 \<and> gd_live \<lparr>gd_lock = \<lparr>lk_locked = True\<rparr>, gd_live = (\<lambda>_. 0)(3 := Suc 0)\<rparr> 3 = 1"
proof (rule AutoLock_mutual_exclusion)
  show "guard_run guards_init ([] @ [Construct 3])
      \<lparr>gd_lock = \<lparr>lk_locked = True\<rparr>, gd_live = (\<lambda>_. 0)(3 := Suc 0)\<rparr>"
    using guard_step.AutoLock_ctor [of guards_init "\<lparr>lk_locked = True\<rparr>" 3]
    by (intro guard_run.step [OF guard_run.idle])
      (simp add: guards_init_def Lock_lock_def Lock_ctor_def)
qed simp_all

text \<open>
  Guarded code runs serially: every interleaving is a sequence of complete scopes, each
  opened and closed by one thread, followed by at most one scope that is still open.
\<close>

theorem AutoLock_serial:
  assumes "guard_run guards_init es g"
  shows "\<exists>ts. es = guard_pairs ts \<or> (\<exists>u. es = guard_pairs ts @ [Construct u])"
  using guard_run_inv [OF assms] by (auto simp: guards_inv_def)

theorem AutoLock_serial_witness:
  "\<exists>ts. [Construct 7] = guard_pairs ts \<or> (\<exists>u. [Construct 7] = guard_pairs ts @ [Construct u])"
proof (rule AutoLock_serial)
  show "guard_run guards_init [Construct 7]
      \<lparr>gd_lock = \<lparr>lk_locked = True\<rparr>, gd_live = (\<lambda>_. 0)(7 := Suc 0)\<rparr>"
    using guard_run.step [OF guard_run.idle guard_step.AutoLock_ctor [of guards_init "\<lparr>lk_locked = True\<rparr>" 7]]
    by (simp add: guards_init_def Lock_lock_def Lock_ctor_def)
qed

text \<open>
  The lock is available exactly when nobody is inside: a thread can construct a guard iff
  no guard is alive. In particular a thread that already holds one can never construct a
  second (the mutex is not recursive).
\<close>

theorem AutoLock_available_iff:
  assumes "guard_run guards_init es g"
  shows "(\<exists>g'. guard_step g (Construct t) g') \<longleftrightarrow> (\<forall>u. gd_live g u = 0)"
proof -
  have "(\<exists>g'. guard_step g (Construct t) g') \<longleftrightarrow> \<not> lk_locked (gd_lock g)"
    using pthread_mutex.acquire_Some_iff [of "gd_lock g"]
    by (auto elim: guard_step_ConstructE intro: guard_step.AutoLock_ctor)
  also have "\<dots> \<longleftrightarrow> (\<forall>u. gd_live g u = 0)"
    using guard_run_inv [OF assms] unfolding guards_inv_def
    by (metis fun_upd_same zero_neq_one)
  finally show ?thesis .
qed

theorem AutoLock_available_iff_witness:
  "(\<exists>g'. guard_step guards_init (Construct 1) g') \<longleftrightarrow> (\<forall>u. gd_live guards_init u = 0)"
  by (rule AutoLock_available_iff [OF guard_run.idle])

end
