(* ===== verification/CL_Socket.thy ===== *)
theory CL_Socket
  imports CL_Message CL_Lock
begin

text \<open>
  \<^verbatim>\<open>Source/Socket.cpp\<close> and \<^verbatim>\<open>Headers/Socket.h\<close>: a non-blocking \<open>SOCK_SEQPACKET\<close> socket that
  reads and writes whole messages with descriptors attached. The state is the lock, the
  receive buffer, the control buffer (as the control messages in it) and the handle.
\<close>

section \<open>Constants and data\<close>

definition MaxBufferSize :: nat where
  "MaxBufferSize = 4096"

definition ControlBufferItemSize :: nat where
  "ControlBufferItemSize = 4"

definition MaxControlBufferSize :: nat where
  "MaxControlBufferSize = CMSG_SPACE (ControlBufferItemSize * MaxControlBufferItemCount)"

datatype status = Success | TemporaryFailure | PermanentFailure

text \<open>The enumerators are numbers, by which statuses are ordered.\<close>

fun status_code :: "status \<Rightarrow> nat" where
  "status_code Success = 0"
| "status_code TemporaryFailure = 1"
| "status_code PermanentFailure = 2"

instantiation status :: linorder
begin

definition "s \<le> t \<longleftrightarrow> status_code s \<le> status_code t"
definition "s < t \<longleftrightarrow> status_code s < status_code t"

instance
proof
  fix s t :: status
  show "s \<le> t \<Longrightarrow> t \<le> s \<Longrightarrow> s = t"
    by (cases s; cases t) (simp_all add: less_eq_status_def)
qed (auto simp: less_eq_status_def less_status_def)

end

record socket =
  sk_lock :: lock
  sk_buffer :: "region option"
  sk_controlBuffer :: "cmsghdr list option"
  sk_handle :: handle

section \<open>Creation, connection and closing\<close>

definition Socket_ctor :: "handle \<Rightarrow> os \<Rightarrow> socket outcome" where
  "Socket_ctor handle =
     bindM
       (if handle = 0
        then bindM (sys SocketCreate) (\<lambda>r.
               seqM (CL_ASSERT (r_rc r \<noteq> -1)) (returnM (r_rc r)))
        else returnM handle)
       (\<lambda>h.
         seqM (CL_ASSERT (h > 0)) (
         seqM (CL_CHECK (Setsockopt h SO_SNDBUF MaxBufferSize)) (
         seqM (CL_CHECK (Setsockopt h SO_RCVBUF MaxBufferSize)) (
         seqM (CL_CHECK (SetNonblock h)) (
         seqM (CL_CHECK (SetNonblock h)) (
         bindM malloc (\<lambda>b.
         bindM malloc (\<lambda>c.
         returnM \<lparr>sk_lock = Lock_ctor,
                  sk_buffer = (if b then Some (fresh_region MaxBufferSize) else None),
                  sk_controlBuffer = (if c then Some [] else None),
                  sk_handle = h\<rparr>))))))))"

definition Socket_Create :: "handle \<Rightarrow> os \<Rightarrow> socket outcome" where
  "Socket_Create handle = Socket_ctor handle"

text \<open>On failure (in a release build) the array of handles keeps its initial zeros.\<close>

type_synonym socket_pair = "socket \<times> socket"

definition Socket_CreatePair :: "os \<Rightarrow> socket_pair outcome" where
  "Socket_CreatePair =
     bindM (CL_CHECK Socketpair) (\<lambda>r.
       let handles = (if r_rc r = 0 then r_fds r else (0, 0)) in
       bindM (Socket_Create (fst handles)) (\<lambda>s1.
       bindM (Socket_Create (snd handles)) (\<lambda>s2.
       returnM (s1, s2))))"

text \<open>
  \<^verbatim>\<open>strcpy\<close> into the 108 bytes of \<^verbatim>\<open>sockaddr_un::sun_path\<close>: the characters before the first
  NUL, and the terminator.
\<close>

definition c_str :: "string \<Rightarrow> string" where
  "c_str s = takeWhile (\<lambda>c. c \<noteq> CHR 0x00) s"

definition strcpy_sun_path :: "string \<Rightarrow> os \<Rightarrow> string outcome" where
  "strcpy_sun_path name =
     (if length (c_str name) < 108 then returnM (c_str name) else failM MemoryFault)"

definition Socket_connect :: "string \<Rightarrow> socket \<Rightarrow> os \<Rightarrow> bool outcome" where
  "Socket_connect endpoint s =
     seqM (CL_ASSERT (length endpoint \<le> 96)) (
     bindM (strcpy_sun_path endpoint) (\<lambda>path.
     bindM (sys (Connect (sk_handle s) path)) (\<lambda>r.
     returnM (r_rc r = 0))))"

definition Socket_close :: "socket \<Rightarrow> os \<Rightarrow> (bool \<times> socket) outcome" where
  "Socket_close s =
     (if sk_handle s \<noteq> -1
      then seqM (CL_CHECK (Close (sk_handle s))) (returnM (True, s\<lparr>sk_handle := -1\<rparr>))
      else returnM (False, s))"

definition Socket_dtor :: "socket \<Rightarrow> os \<Rightarrow> socket outcome" where
  "Socket_dtor s =
     bindM (Socket_close s) (\<lambda>(_, s'). returnM (s'\<lparr>sk_buffer := None, sk_controlBuffer := None\<rparr>))"

definition Socket_handle :: "socket \<Rightarrow> handle" where
  "Socket_handle s = sk_handle s"

section \<open>Reading\<close>

text \<open>What \<^verbatim>\<open>recvmsg\<close> leaves in the two buffers of the socket.\<close>

definition receive_into :: "sysres \<Rightarrow> socket \<Rightarrow> socket" where
  "receive_into r s =
     s\<lparr>sk_buffer := map_option (\<lambda>b. determined (take (length b) (r_bytes r)) @ drop (length (r_bytes r)) b)
                      (sk_buffer s),
       sk_controlBuffer := map_option (\<lambda>_. r_cmsgs r) (sk_controlBuffer s)\<rparr>"

text \<open>The walk over the control messages with \<^verbatim>\<open>CMSG_NXTHDR\<close>.\<close>

fun read_descriptors :: "cmsghdr list \<Rightarrow> message \<Rightarrow> os \<Rightarrow> message outcome" where
  "read_descriptors [] m = returnM m"
| "read_descriptors (c # cs) m =
     seqM (CL_ASSERT (cmsg_level c = SOL_SOCKET)) (
     seqM (CL_ASSERT (cmsg_type c = SCM_RIGHTS)) (
     seqM (CL_ASSERT (cmsg_len c = CMSG_LEN ControlBufferItemSize)) (
     if length (cmsg_data c) < ControlBufferItemSize then failM MemoryFault
     else
       (let descriptor = int_of_bytes (take ControlBufferItemSize (cmsg_data c)) in
        seqM (CL_ASSERT (descriptor \<noteq> -1)) (
        bindM (\<lambda>w. liftE (Message_addAttachment (\<not> os_ndebug w) (Attachment_ctor descriptor) m) w)
              (read_descriptors cs))))))"

text \<open>The body of the loop for a call that received \<open>received > 0\<close> bytes.\<close>

definition read_message :: "socket \<Rightarrow> sysres \<Rightarrow> nat \<Rightarrow> os \<Rightarrow> message outcome" where
  "read_message s r received =
     (case Option.bind (sk_buffer s) (\<lambda>b. region_read b 0 received) of
        None \<Rightarrow> failM MemoryFault
      | Some src \<Rightarrow>
          bindM malloc (\<lambda>ok.
          bindM (liftE (Message_of_buffer ok src)) (\<lambda>m.
          bindM
            (if r_cmsgs r = [] then returnM m
             else (case sk_controlBuffer s of
                     None \<Rightarrow> failM MemoryFault
                   | Some cs \<Rightarrow> read_descriptors cs m))
            (\<lambda>m'. seqM (CL_ASSERT (\<not> r_ctrunc r)) (returnM m')))))"

definition recv_call :: "socket \<Rightarrow> syscall" where
  "recv_call s = Recvmsg (sk_handle s) MaxBufferSize MaxControlBufferSize"

lemma read_descriptors_forward [forward_intros]: "forward P (read_descriptors cs m)"
proof (induction cs arbitrary: m)
  case (Cons c cs)
  have "forward P (\<lambda>w. liftE (Message_addAttachment (\<not> os_ndebug w) a m) w)" for a
    by (rule forwardI) (auto simp: liftE_def split: sum.splits)
  with Cons show ?case
    unfolding read_descriptors.simps Let_def by (intro forward_intros)
qed (simp add: forward_intros)

lemma read_message_forward [forward_intros]: "forward P (read_message s r n)"
  unfolding read_message_def by (intro forward_intros)

text \<open>
  The loop. A negative result other than \<open>-1\<close> matches none of the three tests of the source
  and is followed by another call.
\<close>

type_synonym read_result = "status \<times> message list"

function read_loop ::
  "message list \<Rightarrow> socket \<Rightarrow> os \<Rightarrow> (read_result \<times> socket) outcome" where
  "read_loop messages s w =
     bind_out (CL_TEMP_FAILURE_RETRY (recv_call s) w) (\<lambda>r w'.
       let s' = receive_into r s; received = to_int (r_rc r) in
       if received > 0 then
         bind_out (read_message s' r (nat received) w') (\<lambda>m w''.
           read_loop (messages @ [m]) s' w'')
       else if received = -1 then
         (if os_errno w' = EAGAIN \<or> os_errno w' = EWOULDBLOCK
          then Done ((Success, messages), s') w'
          else Done ((TemporaryFailure, messages), s') w')
       else if received = 0 then Done ((PermanentFailure, messages), s') w'
       else read_loop messages s' w')"
  by pat_completeness auto
termination
proof (relation "measure (\<lambda>(_, _, w). length (os_script w))", simp, goal_cases)
  case (1 messages s w r w' s' received m w'')
  note retry_script_less [OF 1(1)]
  moreover have "length (os_script w'') \<le> length (os_script w')"
    using os_le_script_length [OF forward_Done [OF read_message_forward 1(5)]] .
  ultimately show ?case by simp
next
  case (2 messages s w r w' s' received)
  from retry_script_less [OF 2(1)] show ?case by simp
qed

declare read_loop.simps [simp del]

definition Socket_ReadMessages :: "socket \<Rightarrow> os \<Rightarrow> (read_result \<times> socket) outcome" where
  "Socket_ReadMessages =
     with_AutoLock sk_lock (\<lambda>l s. s\<lparr>sk_lock := l\<rparr>) (read_loop [])"

section \<open>Writing\<close>

definition attachment_control :: "attachment list \<Rightarrow> cmsghdr list" where
  "attachment_control as =
     (if as = [] then []
      else [\<lparr>cmsg_level = SOL_SOCKET, cmsg_type = SCM_RIGHTS,
             cmsg_len = CMSG_LEN (ControlBufferItemSize * length as),
             cmsg_data = concat (map (\<lambda>a. bytes_of_int (att_handle a)) as)\<rparr>])"

definition would_block :: "sysres \<Rightarrow> bool" where
  "would_block r \<longleftrightarrow> to_int (r_rc r) = -1 \<and> (r_errno r = EAGAIN \<or> r_errno r = EWOULDBLOCK)"

function send_loop :: "handle \<Rightarrow> region \<Rightarrow> cmsghdr list \<Rightarrow> os \<Rightarrow> int outcome" where
  "send_loop h payload control w =
     bind_out (CL_TEMP_FAILURE_RETRY (Sendmsg h payload control) w) (\<lambda>r w'.
       let sent = to_int (r_rc r) in
       if sent = -1 \<and> (os_errno w' = EAGAIN \<or> os_errno w' = EWOULDBLOCK) then
         bind_out (CL_TEMP_FAILURE_RETRY (PollOut h) w') (\<lambda>p w''.
           bind_out (CL_ASSERT (to_int (r_rc p) = 1) w'') (\<lambda>_ w3.
             send_loop h payload control w3))
       else Done sent w')"
  by pat_completeness auto
termination
proof (relation "measure (\<lambda>(_, _, _, w). length (os_script w))", simp, goal_cases)
  case (1 h payload control w r w' sent p w'' u w3)
  note retry_script_less [OF 1(1)]
  moreover note retry_script_less [OF 1(4)]
  moreover have "w3 = w''"
    using 1(5) by (auto simp: CL_ASSERT_def split: if_splits)
  ultimately show ?case by simp
qed

declare send_loop.simps [simp del]

definition write_body :: "message \<Rightarrow> socket \<Rightarrow> os \<Rightarrow> (status \<times> socket) outcome" where
  "write_body m s =
     (if of_nat MaxBufferSize < Message_size m then returnM (TemporaryFailure, s)
      else
        bindM (send_loop (sk_handle s) (Message_data m) (attachment_control (m_attachments m)))
          (\<lambda>sent w.
            if int_to_size sent \<noteq> Message_size m
            then Done (if os_errno w = EPIPE then PermanentFailure else TemporaryFailure, s) w
            else Done (Success, s) w))"

definition Socket_WriteMessage :: "message \<Rightarrow> socket \<Rightarrow> os \<Rightarrow> (status \<times> socket) outcome" where
  "Socket_WriteMessage m = with_AutoLock sk_lock (\<lambda>l s. s\<lparr>sk_lock := l\<rparr>) (write_body m)"

section \<open>Which calls an operation makes\<close>

lemma with_AutoLock_forward [forward_intros]:
  assumes "\<And>s. forward P (body s)"
  shows "forward P (with_AutoLock get put body s)"
  by (rule forwardI)
    (auto simp: with_AutoLock_def forwardD [OF assms] intro!: os_le_bind_out split: option.splits)

text \<open>A \<open>Done\<close> result of guarded code comes from the body, with the lock free again.\<close>

lemma with_AutoLock_Done:
  assumes "with_AutoLock get put body s w = Done (a, s') w'"
  obtains l s1 where "Lock_lock (get s) = Some l" "body (put l s) w = Done (a, s1) w'"
    "s' = put (Lock_unlock (get s1)) s1"
  using assms by (auto simp: with_AutoLock_def bind_out_Done_iff split: option.splits prod.splits)

lemma with_AutoLock_held: "lk_locked (get s) \<Longrightarrow> with_AutoLock get put body s w = Fail Deadlock w"
  by (simp add: with_AutoLock_def pthread_mutex.acquire_held)

lemma with_AutoLock_free:
  "\<not> lk_locked (get s) \<Longrightarrow> with_AutoLock get put body s w =
     bind_out (body (put ((get s)\<lparr>lk_locked := True\<rparr>) s) w)
       (\<lambda>(a, s') w'. Done (a, put (Lock_unlock (get s')) s') w')"
  by (simp add: with_AutoLock_def Lock_lock_def)

definition only_on :: "handle \<Rightarrow> event \<Rightarrow> bool" where
  "only_on h e \<longleftrightarrow>
     (case e of
        Sys (Recvmsg h' _ _) _ \<Rightarrow> h' = h
      | Sys (Sendmsg h' _ _) _ \<Rightarrow> h' = h
      | Sys (PollOut h') _ \<Rightarrow> h' = h
      | LogErrno _ \<Rightarrow> True
      | _ \<Rightarrow> False)"

lemma receive_into_simps [simp]:
  "sk_lock (receive_into r s) = sk_lock s" "sk_handle (receive_into r s) = sk_handle s"
  "recv_call (receive_into r s) = recv_call s"
  by (simp_all add: receive_into_def recv_call_def)

lemma read_loop_forward [forward_intros]: "forward (only_on (sk_handle s)) (read_loop ms s)"
proof (rule forwardI)
  fix w
  show "os_le (only_on (sk_handle s)) w (outcome_world (read_loop ms s w))"
  proof (induction ms s w rule: read_loop.induct)
    case (1 ms s w)
    have "forward (only_on (sk_handle s)) (CL_TEMP_FAILURE_RETRY (recv_call s))"
      by (intro forward_intros) (simp add: only_on_def recv_call_def)
    note call = forwardD [OF this, of w]
    show ?case
      by (subst read_loop.simps, unfold Let_def, rule os_le_bind_out [OF call])
        (use 1 in \<open>auto intro!: os_le_bind_out [OF forwardD [OF read_message_forward]]\<close>)
  qed
qed

lemma read_loop_frame:
  "read_loop ms s w = Done (res, s') w' \<Longrightarrow> sk_handle s' = sk_handle s \<and> sk_lock s' = sk_lock s"
proof (induction ms s w rule: read_loop.induct)
  case (1 ms s w)
  from "1.prems" obtain r w1 where call: "CL_TEMP_FAILURE_RETRY (recv_call s) w = Done r w1"
    by (subst (asm) read_loop.simps) (auto elim: bind_out_DoneE)
  with "1.prems" show ?case
    by (subst (asm) read_loop.simps)
      (auto simp: Let_def dest: "1.IH" [OF call refl refl] elim!: bind_out_DoneE split: if_splits)
qed

lemma send_loop_forward [forward_intros]: "forward (only_on h) (send_loop h payload control)"
proof (rule forwardI)
  fix w
  show "os_le (only_on h) w (outcome_world (send_loop h payload control w))"
  proof (induction h payload control w rule: send_loop.induct)
    case (1 h payload control w)
    have "forward (only_on h) (CL_TEMP_FAILURE_RETRY (Sendmsg h payload control))"
      "forward (only_on h) (CL_TEMP_FAILURE_RETRY (PollOut h))"
      by (intro forward_intros; simp add: only_on_def)+
    note call = this [THEN forwardD]
    show ?case
      by (subst send_loop.simps, unfold Let_def, rule os_le_bind_out [OF call(1)])
        (use 1 in \<open>auto intro!: os_le_bind_out [OF call(2)]
            os_le_bind_out [OF forwardD [OF forward_basic(4)]]\<close>)
  qed
qed

lemma write_body_forward [forward_intros]: "forward (only_on (sk_handle s)) (write_body m s)"
proof -
  have "forward (only_on (sk_handle s)) (\<lambda>w. if b then Done (f w) w else Done c w)" for b f c
    by (rule forwardI) simp
  then show ?thesis
    unfolding write_body_def by (intro forward_intros)
qed

lemma ReadMessages_forward [forward_intros]:
  "forward (only_on (sk_handle s)) (Socket_ReadMessages s)"
proof (rule forwardI)
  fix w
  have "os_le (only_on (sk_handle s)) w (outcome_world (read_loop [] (s\<lparr>sk_lock := l\<rparr>) w))" for l
    using forwardD [OF read_loop_forward, of "s\<lparr>sk_lock := l\<rparr>"] by simp
  then show "os_le (only_on (sk_handle s)) w (outcome_world (Socket_ReadMessages s w))"
    by (auto simp: Socket_ReadMessages_def with_AutoLock_def intro!: os_le_bind_out split: option.splits)
qed

lemma WriteMessage_forward [forward_intros]:
  "forward (only_on (sk_handle s)) (Socket_WriteMessage m s)"
proof (rule forwardI)
  fix w
  have "os_le (only_on (sk_handle s)) w (outcome_world (write_body m (s\<lparr>sk_lock := l\<rparr>) w))" for l
    using forwardD [OF write_body_forward, of "s\<lparr>sk_lock := l\<rparr>"] by simp
  then show "os_le (only_on (sk_handle s)) w (outcome_world (Socket_WriteMessage m s w))"
    by (auto simp: Socket_WriteMessage_def with_AutoLock_def intro!: os_le_bind_out split: option.splits)
qed

section \<open>What a well-behaved kernel hands to \<^verbatim>\<open>ReadMessages\<close>\<close>

text \<open>
  \<open>socket_ready\<close>: the two buffers were allocated with their sizes. \<open>good_packet\<close>: a datagram
  that was received whole, whose control messages hold one descriptor each, as the loop
  expects. \<open>read_end\<close>: the status for an answer that ends the loop.
\<close>

definition socket_ready :: "socket \<Rightarrow> bool" where
  "socket_ready s \<longleftrightarrow>
     (case sk_buffer s of None \<Rightarrow> False | Some b \<Rightarrow> length b = MaxBufferSize) \<and>
     sk_controlBuffer s \<noteq> None"

definition good_cmsg :: "cmsghdr \<Rightarrow> bool" where
  "good_cmsg c \<longleftrightarrow>
     cmsg_level c = SOL_SOCKET \<and> cmsg_type c = SCM_RIGHTS \<and>
     cmsg_len c = CMSG_LEN ControlBufferItemSize \<and>
     length (cmsg_data c) = ControlBufferItemSize \<and> int_of_bytes (cmsg_data c) \<noteq> -1"

definition good_packet :: "sysres \<Rightarrow> bool" where
  "good_packet r \<longleftrightarrow>
     r_bytes r \<noteq> [] \<and> length (r_bytes r) \<le> MaxBufferSize \<and> r_rc r = int (length (r_bytes r)) \<and>
     \<not> r_ctrunc r \<and> length (r_cmsgs r) \<le> MaxControlBufferItemCount \<and>
     (\<forall>c \<in> set (r_cmsgs r). good_cmsg c)"

definition read_end :: "sysres \<Rightarrow> status option" where
  "read_end r =
     (if r_rc r = 0 then Some PermanentFailure
      else if r_rc r = -1 \<and> r_errno r \<noteq> EINTR
      then Some (if r_errno r = EAGAIN \<or> r_errno r = EWOULDBLOCK then Success else TemporaryFailure)
      else None)"

definition descriptor_of :: "cmsghdr \<Rightarrow> attachment" where
  "descriptor_of c = \<lparr>att_handle = int_of_bytes (cmsg_data c)\<rparr>"

text \<open>The message that a good packet carries.\<close>

definition packet_message :: "sysres \<Rightarrow> message" where
  "packet_message r =
     \<lparr>m_buffer = Some (determined (r_bytes r)), m_bufferLength = of_nat (length (r_bytes r)),
      m_dataLength = of_nat (length (r_bytes r)), m_sizeRead = 0,
      m_attachments = map descriptor_of (r_cmsgs r)\<rparr>"

lemma read_descriptors_good:
  assumes "\<forall>c \<in> set cs. good_cmsg c"
    "length (m_attachments m) + length cs \<le> MaxControlBufferItemCount"
  shows "read_descriptors cs m w =
    Done (m\<lparr>m_attachments := m_attachments m @ map descriptor_of cs\<rparr>) w"
  using assms
proof (induction cs arbitrary: m)
  case (Cons c cs)
  have "good_cmsg c" using Cons.prems by simp
  moreover have "read_descriptors cs (m\<lparr>m_attachments := m_attachments m @ [descriptor_of c]\<rparr>) w =
      Done (m\<lparr>m_attachments := m_attachments m @ descriptor_of c # map descriptor_of cs\<rparr>) w"
    using Cons.IH [of "m\<lparr>m_attachments := m_attachments m @ [descriptor_of c]\<rparr>"] Cons.prems by simp
  ultimately show ?case
    using Cons.prems(2)
    by (simp add: good_cmsg_def Message_addAttachment_def Attachment_ctor_def descriptor_of_def
        CL_ASSERT_holds)
qed simp

lemma read_message_good:
  assumes "socket_ready s" "good_packet r" "\<forall>k. os_malloc w k"
  shows "read_message (receive_into r s) r (nat (to_int (r_rc r))) w =
    Done (packet_message r) (w\<lparr>os_mallocs := Suc (os_mallocs w)\<rparr>)"
proof -
  let ?n = "length (r_bytes r)" and ?m0 = "(packet_message r)\<lparr>m_attachments := []\<rparr>"
  from assms(1) obtain b cs where b: "sk_buffer s = Some b" "length b = MaxBufferSize"
      "sk_controlBuffer s = Some cs"
    by (auto simp: socket_ready_def split: option.splits)
  have n: "?n \<le> MaxBufferSize" "nat (to_int (r_rc r)) = ?n"
    using assms(2) by (auto simp: good_packet_def MaxBufferSize_def to_int_small)
  then have src: "Option.bind (sk_buffer (receive_into r s)) (\<lambda>b. region_read b 0 ?n) =
      Some (determined (r_bytes r))"
    using b by (simp add: receive_into_def region_read_def)
  have ctl: "sk_controlBuffer (receive_into r s) = Some (r_cmsgs r)"
    using b by (simp add: receive_into_def)
  have m0: "Message_of_buffer True (determined (r_bytes r)) = Inr ?m0"
    by (simp add: Message_of_buffer_def packet_message_def)
  have rd: "read_descriptors (r_cmsgs r) ?m0 w' = Done (packet_message r) w'" for w'
    using assms(2) by (subst read_descriptors_good) (auto simp: good_packet_def packet_message_def)
  have none: "r_cmsgs r = [] \<Longrightarrow> ?m0 = packet_message r"
    by (simp add: packet_message_def)
  have "\<not> r_ctrunc r" using assms(2) by (simp add: good_packet_def)
  with assms(3) show ?thesis
    unfolding read_message_def n(2) src ctl option.case
    by (simp add: malloc_def m0 rd none CL_ASSERT_holds)
qed

lemma socket_ready_receive [simp]: "socket_ready s \<Longrightarrow> socket_ready (receive_into r s)"
  by (auto simp: socket_ready_def receive_into_def min_def split: option.splits)

text \<open>One turn of the loop, after any number of interruptions.\<close>

lemma read_loop_turn:
  assumes "os_script w = is @ r # rest" "\<forall>i \<in> set is. interrupted i" "\<not> interrupted r"
  shows "read_loop ms s w =
    (let w' = answered (recv_call s) (is @ [r]) w; s' = receive_into r s;
         received = to_int (r_rc r) in
     if received > 0 then
       bind_out (read_message s' r (nat received) w') (\<lambda>m w''. read_loop (ms @ [m]) s' w'')
     else if received = -1 then
       Done ((if r_errno r = EAGAIN \<or> r_errno r = EWOULDBLOCK then Success else TemporaryFailure, ms), s') w'
     else if received = 0 then Done ((PermanentFailure, ms), s') w'
     else read_loop ms s' w')"
  by (subst read_loop.simps) (simp add: retry_interrupted [OF assms] Let_def)

lemma read_loop_end:
  assumes "os_script w = is @ r # rest" "\<forall>i \<in> set is. interrupted i" "read_end r = Some st"
  shows "read_loop ms s w = Done ((st, ms), receive_into r s) (answered (recv_call s) (is @ [r]) w)"
proof -
  have "\<not> interrupted r"
    using assms(3) by (auto simp: read_end_def interrupted_def split: if_splits)
  from read_loop_turn [OF assms(1,2) this] assms(3) show ?thesis
    by (auto simp: read_end_def Let_def split: if_splits)
qed

text \<open>
  The answers of a whole call: rounds of interruptions and a packet. A call drains them all.
\<close>

definition rounds :: "(sysres list \<times> sysres) list \<Rightarrow> sysres list" where
  "rounds bs = concat (map (\<lambda>(is, r). is @ [r]) bs)"

definition good_rounds :: "(sysres list \<times> sysres) list \<Rightarrow> bool" where
  "good_rounds bs \<longleftrightarrow> (\<forall>(is, r) \<in> set bs. (\<forall>i \<in> set is. interrupted i) \<and> good_packet r)"

lemma rounds_simps [simp]: "rounds [] = []" "rounds ((is, r) # bs) = is @ r # rounds bs"
  by (simp_all add: rounds_def)

lemma good_rounds_simps [simp]:
  "good_rounds []"
  "good_rounds ((is, r) # bs) \<longleftrightarrow> (\<forall>i \<in> set is. interrupted i) \<and> good_packet r \<and> good_rounds bs"
  by (auto simp: good_rounds_def)

lemma read_loop_drains:
  assumes "os_script w = rounds bs @ is @ r # rest" "good_rounds bs"
    "\<forall>i \<in> set is. interrupted i" "read_end r = Some st" "socket_ready s" "\<forall>k. os_malloc w k"
  obtains s' w' where
    "read_loop ms s w = Done ((st, ms @ map (\<lambda>(_, p). packet_message p) bs), s') w'"
    "sk_handle s' = sk_handle s" "sk_lock s' = sk_lock s" "socket_ready s'"
    "os_script w' = rest"
    "os_trace w' = os_trace w @ map (Sys (recv_call s)) (rounds bs @ is @ [r])"
    "os_ndebug w' = os_ndebug w" "os_malloc w' = os_malloc w"
  using assms
proof (induction bs arbitrary: ms s w thesis)
  case Nil
  have "read_loop ms s w = Done ((st, ms), receive_into r s) (answered (recv_call s) (is @ [r]) w)"
    by (rule read_loop_end [of w "is" r rest]) (use Nil.prems in simp_all)
  with Nil.prems show ?case
    by (intro Nil.prems(1) [of "receive_into r s" "answered (recv_call s) (is @ [r]) w"]) simp_all
next
  case (Cons b bs)
  obtain js p where b: "b = (js, p)" by (cases b)
  let ?s1 = "receive_into p s" and ?w1 = "answered (recv_call s) (js @ [p]) w"
  let ?w2 = "?w1\<lparr>os_mallocs := Suc (os_mallocs ?w1)\<rparr>"
  from Cons.prems b have p: "good_packet p" "\<not> interrupted p" "0 < to_int (r_rc p)"
    by (auto simp: good_packet_def interrupted_def to_int_small MaxBufferSize_def)
  have "read_message ?s1 p (nat (to_int (r_rc p))) ?w1 = Done (packet_message p) ?w2"
    by (rule read_message_good) (use Cons.prems p in simp_all)
  then have turn: "read_loop ms s w = read_loop (ms @ [packet_message p]) ?s1 ?w2"
    by (subst read_loop_turn [of w js p "rounds bs @ is @ r # rest"])
      (use Cons.prems b p in \<open>simp_all add: Let_def\<close>)
  have "os_script ?w2 = rounds bs @ is @ r # rest" "good_rounds bs" "socket_ready ?s1"
    "\<forall>k. os_malloc ?w2 k"
    using Cons.prems b by simp_all
  with Cons.prems(4,5) obtain s' w' where
    "read_loop (ms @ [packet_message p]) ?s1 ?w2 =
       Done ((st, (ms @ [packet_message p]) @ map (\<lambda>(_, p). packet_message p) bs), s') w'"
    "sk_handle s' = sk_handle ?s1" "sk_lock s' = sk_lock ?s1" "socket_ready s'"
    "os_script w' = rest"
    "os_trace w' = os_trace ?w2 @ map (Sys (recv_call ?s1)) (rounds bs @ is @ [r])"
    "os_ndebug w' = os_ndebug ?w2" "os_malloc w' = os_malloc ?w2"
    using Cons.IH [where w = ?w2 and s = ?s1 and ms = "ms @ [packet_message p]"] by metis
  with turn b show ?case
    by (intro Cons.prems(1) [of s' w']) simp_all
qed

section \<open>What a kernel answers to \<^verbatim>\<open>WriteMessage\<close>\<close>

text \<open>
  A busy round: the queue is full (\<open>EAGAIN\<close>), \<^verbatim>\<open>poll\<close> waits until it is not. Both calls may be
  interrupted any number of times first.
\<close>

record busy_round =
  br_send_interrupts :: "sysres list"
  br_send :: sysres
  br_poll_interrupts :: "sysres list"
  br_poll :: sysres

definition busy_ok :: "busy_round \<Rightarrow> bool" where
  "busy_ok b \<longleftrightarrow>
     (\<forall>i \<in> set (br_send_interrupts b). interrupted i) \<and> would_block (br_send b) \<and>
     (\<forall>i \<in> set (br_poll_interrupts b). interrupted i) \<and> r_rc (br_poll b) = 1"

definition busy_sends :: "busy_round \<Rightarrow> sysres list" where
  "busy_sends b = br_send_interrupts b @ [br_send b]"

definition busy_polls :: "busy_round \<Rightarrow> sysres list" where
  "busy_polls b = br_poll_interrupts b @ [br_poll b]"

definition busy_answers :: "busy_round list \<Rightarrow> sysres list" where
  "busy_answers bs = concat (map (\<lambda>b. busy_sends b @ busy_polls b) bs)"

definition busy_events :: "syscall \<Rightarrow> syscall \<Rightarrow> busy_round list \<Rightarrow> event list" where
  "busy_events send poll bs =
     concat (map (\<lambda>b. map (Sys send) (busy_sends b) @ map (Sys poll) (busy_polls b)) bs)"

lemma would_block_not_interrupted: "would_block r \<Longrightarrow> \<not> interrupted r"
  by (auto simp: would_block_def interrupted_def)

lemma poll_not_interrupted: "r_rc r = 1 \<Longrightarrow> \<not> interrupted r"
  by (simp add: interrupted_def)

lemma send_loop_busy:
  assumes "os_script w = busy_sends b @ busy_polls b @ rest" "busy_ok b"
  shows "send_loop h payload control w = send_loop h payload control
    (answered (PollOut h) (busy_polls b) (answered (Sendmsg h payload control) (busy_sends b) w))"
proof -
  let ?w1 = "answered (Sendmsg h payload control) (busy_sends b) w"
  have send: "CL_TEMP_FAILURE_RETRY (Sendmsg h payload control) w = Done (br_send b) ?w1"
    using assms retry_interrupted [of w "br_send_interrupts b" "br_send b"]
    by (simp add: busy_sends_def busy_ok_def would_block_not_interrupted)
  have poll: "CL_TEMP_FAILURE_RETRY (PollOut h) ?w1 =
      Done (br_poll b) (answered (PollOut h) (busy_polls b) ?w1)"
    using assms retry_interrupted [of ?w1 "br_poll_interrupts b" "br_poll b"]
    by (simp add: busy_sends_def busy_polls_def busy_ok_def poll_not_interrupted)
  have "would_block (br_send b)" "to_int (r_rc (br_poll b)) = 1"
    using assms(2) by (simp_all add: busy_ok_def to_int_small)
  then show ?thesis
    by (subst send_loop.simps)
      (simp add: send poll [unfolded busy_sends_def] would_block_def Let_def busy_sends_def
        CL_ASSERT_holds)
qed

lemma send_loop_final:
  assumes "os_script w = is @ r # rest" "\<forall>i \<in> set is. interrupted i" "\<not> interrupted r" "\<not> would_block r"
  shows "send_loop h payload control w =
    Done (to_int (r_rc r)) (answered (Sendmsg h payload control) (is @ [r]) w)"
  using assms(4)
  by (subst send_loop.simps) (auto simp: retry_interrupted [OF assms(1-3)] would_block_def Let_def)

lemma send_loop_result:
  assumes "os_script w = busy_answers bs @ is @ r # rest" "\<forall>b \<in> set bs. busy_ok b"
    "\<forall>i \<in> set is. interrupted i" "\<not> interrupted r" "\<not> would_block r"
  shows "\<exists>w'. send_loop h payload control w = Done (to_int (r_rc r)) w' \<and> os_script w' = rest \<and>
    os_errno w' = r_errno r \<and> os_ndebug w' = os_ndebug w \<and>
    os_trace w' = os_trace w @ busy_events (Sendmsg h payload control) (PollOut h) bs @
      map (Sys (Sendmsg h payload control)) (is @ [r])"
  using assms
proof (induction bs arbitrary: w)
  case Nil
  then have "os_script w = is @ r # rest" by (simp add: busy_answers_def)
  from send_loop_final [OF this Nil.prems(3-5)] this show ?case
    by (simp add: busy_events_def)
next
  case (Cons b bs)
  let ?w = "answered (PollOut h) (busy_polls b) (answered (Sendmsg h payload control) (busy_sends b) w)"
  have script: "os_script w = busy_sends b @ busy_polls b @ busy_answers bs @ is @ r # rest"
    using Cons.prems(1) by (simp add: busy_answers_def)
  then have "os_script ?w = busy_answers bs @ is @ r # rest" by simp
  with Cons.IH [of ?w] Cons.prems obtain w' where
    "send_loop h payload control ?w = Done (to_int (r_rc r)) w'" "os_script w' = rest"
    "os_errno w' = r_errno r" "os_ndebug w' = os_ndebug w"
    "os_trace w' = os_trace ?w @ busy_events (Sendmsg h payload control) (PollOut h) bs @
      map (Sys (Sendmsg h payload control)) (is @ [r])"
    by auto
  moreover have "send_loop h payload control w = send_loop h payload control ?w"
    by (rule send_loop_busy [OF script]) (use Cons.prems(2) in simp)
  ultimately show ?case
    by (simp add: busy_events_def)
qed

section \<open>Closing once\<close>

text \<open>
  The contract of an object that owns a descriptor: \<open>close\<close> passes an open one to the kernel and
  forgets it, and does nothing when there is none.
\<close>

fun is_close :: "handle \<Rightarrow> event \<Rightarrow> bool" where
  "is_close h (Sys (Close h') r) \<longleftrightarrow> h' = h"
| "is_close h e \<longleftrightarrow> False"

definition closes :: "handle \<Rightarrow> os \<Rightarrow> nat" where
  "closes h w = length (filter (is_close h) (os_trace w))"

lemma closes_same:
  assumes "forward P m" "m w = Done a w'" "\<And>e. P e \<Longrightarrow> \<not> is_close h e"
  shows "closes h w' = closes h w"
  using forward_Done [OF assms(1,2)] assms(3) by (auto simp: closes_def os_le_def filter_empty_conv)

lemma CL_CHECK_Close_closes:
  assumes "CL_CHECK (Close h) w = Done r w'"
  shows "closes h w' = Suc (closes h w)"
  using assms
  by (auto simp: CL_CHECK_def CL_CHECK_EXPECT_def bind_out_Done_iff sys_def CL_LOG_ERRNO_def emit_def
      CL_ASSERT_def closes_def split: list.splits if_splits)

locale closable =
  fixes close :: "'s \<Rightarrow> os \<Rightarrow> (bool \<times> 's) outcome" and owned :: "'s \<Rightarrow> handle" and disown :: "'s \<Rightarrow> 's"
  assumes close_open: "owned s \<noteq> -1 \<Longrightarrow>
      close s w = bind_out (CL_CHECK (Close (owned s)) w) (\<lambda>_. Done (True, disown s))"
    and close_closed: "owned s = -1 \<Longrightarrow> close s w = Done (False, s) w"
    and owned_disown: "owned (disown s) = -1"
begin

lemma close_result:
  assumes "close s w = Done (b, s') w'"
  shows "owned s' = -1" "b \<longleftrightarrow> owned s \<noteq> -1" "s' = (if owned s = -1 then s else disown s)"
proof -
  have "owned s' = -1 \<and> (b \<longleftrightarrow> owned s \<noteq> -1) \<and> s' = (if owned s = -1 then s else disown s)"
  proof (cases "owned s = -1")
    case True
    with assms close_closed [OF True, of w] show ?thesis by simp
  next
    case False
    with assms close_open [OF False, of w] owned_disown [of s] show ?thesis
      by (auto simp: bind_out_Done_iff)
  qed
  then show "owned s' = -1" "b \<longleftrightarrow> owned s \<noteq> -1" "s' = (if owned s = -1 then s else disown s)"
    by blast+
qed

lemma close_again: "close s w = Done (b, s') w' \<Longrightarrow> close s' v = Done (False, s') v"
  using close_closed [OF close_result(1)] .

lemma close_closes:
  assumes "close s w = Done (b, s') w'"
  shows "closes (owned s) w' = closes (owned s) w + (if owned s = -1 then 0 else 1)"
proof (cases "owned s = -1")
  case True
  with assms close_closed [OF True, of w] show ?thesis by simp
next
  case False
  with assms obtain r where "CL_CHECK (Close (owned s)) w = Done r w'"
    by (auto simp: close_open bind_out_Done_iff)
  from CL_CHECK_Close_closes [OF this] False show ?thesis by simp
qed

end

interpretation sock: closable Socket_close sk_handle "\<lambda>s. s\<lparr>sk_handle := -1\<rparr>"
  by unfold_locales (simp_all add: Socket_close_def returnM_eta)

section \<open>The life of a socket\<close>

datatype socket_op = OpConnect string | OpRead | OpWrite message | OpClose

fun socket_run :: "socket_op list \<Rightarrow> socket \<Rightarrow> os \<Rightarrow> socket outcome" where
  "socket_run [] s = returnM s"
| "socket_run (OpConnect e # ops) s = bindM (Socket_connect e s) (\<lambda>_. socket_run ops s)"
| "socket_run (OpRead # ops) s = bindM (Socket_ReadMessages s) (\<lambda>(_, s'). socket_run ops s')"
| "socket_run (OpWrite m # ops) s = bindM (Socket_WriteMessage m s) (\<lambda>(_, s'). socket_run ops s')"
| "socket_run (OpClose # ops) s = bindM (Socket_close s) (\<lambda>(_, s'). socket_run ops s')"

definition closed_once_inv :: "handle \<Rightarrow> nat \<Rightarrow> socket \<Rightarrow> os \<Rightarrow> bool" where
  "closed_once_inv h n s w \<longleftrightarrow>
     sk_handle s = h \<and> closes h w = n \<or> sk_handle s = -1 \<and> closes h w = Suc n"

lemma only_on_not_close: "only_on h e \<Longrightarrow> \<not> is_close h' e"
  by (auto simp: only_on_def split: event.splits syscall.splits)

lemma Socket_connect_forward [forward_intros]:
  "(\<And>path r. P (Sys (Connect (sk_handle s) path) r)) \<Longrightarrow> forward P (Socket_connect e s)"
  unfolding Socket_connect_def strcpy_sun_path_def by (intro forward_intros)

lemma ReadMessages_frame:
  assumes "Socket_ReadMessages s w = Done (res, s') w'"
  shows "sk_handle s' = sk_handle s" "\<not> lk_locked (sk_lock s')"
  using assms unfolding Socket_ReadMessages_def
  by (auto elim!: with_AutoLock_Done dest: read_loop_frame simp: pthread_mutex.release_frees)

lemma write_body_frame: "write_body m s w = Done (st, s') w' \<Longrightarrow> s' = s"
  by (auto simp: write_body_def bind_out_Done_iff split: if_splits)

lemma WriteMessage_frame:
  assumes "Socket_WriteMessage m s w = Done (st, s') w'"
  shows "sk_handle s' = sk_handle s" "\<not> lk_locked (sk_lock s')"
  using assms unfolding Socket_WriteMessage_def
  by (auto elim!: with_AutoLock_Done dest: write_body_frame simp: pthread_mutex.release_frees)

lemma closed_once_close:
  assumes "closed_once_inv h n s w" "h \<noteq> -1" "Socket_close s w = Done (b, s') w'"
  shows "sk_handle s' = -1 \<and> closes h w' = Suc n"
  using assms sock.close_result(1) [OF assms(3)] sock.close_closes [OF assms(3)]
    sock.close_closed [of s w]
  by (auto simp: closed_once_inv_def)

lemma socket_run_closed_once:
  assumes "socket_run ops s w = Done s' w'" "closed_once_inv h n s w" "h \<noteq> -1"
  shows "closed_once_inv h n s' w'"
  using assms(1,2)
proof (induction ops s arbitrary: w rule: socket_run.induct)
  case (2 e ops s)
  then obtain b w1 where r: "Socket_connect e s w = Done b w1" "socket_run ops s w1 = Done s' w'"
    by (auto elim: bind_out_DoneE)
  have "forward (\<lambda>ev. \<exists>h p r. ev = Sys (Connect h p) r) (Socket_connect e s)"
    by (intro forward_intros) auto
  from closes_same [OF this r(1), where h = h] 2 r show ?case
    by (fastforce simp: closed_once_inv_def)
next
  case (3 ops s)
  then obtain res s1 w1 where r: "Socket_ReadMessages s w = Done (res, s1) w1"
      "socket_run ops s1 w1 = Done s' w'"
    by (auto elim!: bind_out_DoneE split: prod.splits)
  from closes_same [OF ReadMessages_forward r(1) only_on_not_close, where h = h] ReadMessages_frame [OF r(1)]
  have "closed_once_inv h n s1 w1" using 3(3) by (simp add: closed_once_inv_def)
  with 3(1) r(2) show ?case by blast
next
  case (4 m ops s)
  then obtain res s1 w1 where r: "Socket_WriteMessage m s w = Done (res, s1) w1"
      "socket_run ops s1 w1 = Done s' w'"
    by (auto elim!: bind_out_DoneE split: prod.splits)
  from closes_same [OF WriteMessage_forward r(1) only_on_not_close, where h = h] WriteMessage_frame [OF r(1)]
  have "closed_once_inv h n s1 w1" using 4(3) by (simp add: closed_once_inv_def)
  with 4(1) r(2) show ?case by blast
next
  case (5 ops s)
  then obtain b s1 w1 where r: "Socket_close s w = Done (b, s1) w1" "socket_run ops s1 w1 = Done s' w'"
    by (auto elim!: bind_out_DoneE split: prod.splits)
  with closed_once_close [OF 5(3) assms(3) r(1)] 5(1) show ?case
    by (simp add: closed_once_inv_def)
qed simp

section \<open>Delivery of a written message\<close>

text \<open>
  The documented behaviour of a \<open>SOCK_SEQPACKET\<close> pair. A packet carries what one send gave to the
  kernel: the same bytes, and the control messages, each of one descriptor, with the descriptors
  translated by \<open>f\<close> to new ones of the receiving process.
\<close>

definition carries :: "(handle \<Rightarrow> handle) \<Rightarrow> region \<Rightarrow> cmsghdr list \<Rightarrow> sysres \<Rightarrow> bool" where
  "carries f payload control p \<longleftrightarrow>
     r_rc p = int (length payload) \<and> determined (r_bytes p) = payload \<and> \<not> r_ctrunc p \<and>
     r_cmsgs p = map (\<lambda>c. c\<lparr>cmsg_data := bytes_of_int (f (int_of_bytes (cmsg_data c)))\<rparr>) control"

text \<open>
  The packet \<open>r\<close> carries what the last call of the world \<open>v\<close>, a \<^verbatim>\<open>sendmsg\<close>, gave to the kernel,
  whatever that was.
\<close>

definition transmits :: "(handle \<Rightarrow> handle) \<Rightarrow> os \<Rightarrow> sysres \<Rightarrow> bool" where
  "transmits f v r \<longleftrightarrow>
     (\<exists>es h payload control k. os_trace v = es @ [Sys (Sendmsg h payload control) k] \<and> carries f payload control r)"

text \<open>The packet that brings the message \<open>m\<close> with its descriptors, which may be several.\<close>

definition delivers :: "(handle \<Rightarrow> handle) \<Rightarrow> message \<Rightarrow> sysres \<Rightarrow> bool" where
  "delivers f m r \<longleftrightarrow>
     r_rc r = int (unat (Message_size m)) \<and> determined (r_bytes r) = Message_data m \<and>
     r_cmsgs r = attachment_control (map (\<lambda>a. Attachment_ctor (f (att_handle a))) (m_attachments m)) \<and>
     \<not> r_ctrunc r"

definition valid_handle :: "handle \<Rightarrow> bool" where
  "valid_handle h \<longleftrightarrow> 0 \<le> h \<and> h < 2 ^ 31"

lemma delivered_length:
  assumes "Message_wf m" "delivers f m r"
  shows "length (r_bytes r) = unat (Message_size m)"
proof -
  have "length (r_bytes r) = length (determined (r_bytes r))" by simp
  also have "\<dots> = unat (Message_size m)"
    using assms length_Message_data [OF assms(1)] by (simp add: delivers_def Message_size_def)
  finally show ?thesis .
qed

lemma delivers_good_packet:
  assumes "Message_wf m" "delivers f m r" "0 < unat (Message_size m)"
    "unat (Message_size m) \<le> MaxBufferSize" "length (m_attachments m) \<le> 1"
    "\<forall>a \<in> set (m_attachments m). valid_handle (f (att_handle a))"
  shows "good_packet r"
    "m_attachments (packet_message r) = map (\<lambda>a. Attachment_ctor (f (att_handle a))) (m_attachments m)"
proof -
  have "int_of_bytes (bytes_of_int (f (att_handle a))) = f (att_handle a) \<and> f (att_handle a) \<noteq> -1"
    if "a \<in> set (m_attachments m)" for a
    using assms(6) that by (auto simp: int_of_bytes_of_int valid_handle_def to_int_id)
  then have "good_packet r \<and>
      m_attachments (packet_message r) = map (\<lambda>a. Attachment_ctor (f (att_handle a))) (m_attachments m)"
    using assms(2-5) delivered_length [OF assms(1,2)]
    by (cases "m_attachments m")
      (auto simp: good_packet_def delivers_def attachment_control_def good_cmsg_def
        ControlBufferItemSize_def MaxControlBufferItemCount_def Attachment_ctor_def
        packet_message_def descriptor_of_def)
  then show "good_packet r"
    "m_attachments (packet_message r) = map (\<lambda>a. Attachment_ctor (f (att_handle a))) (m_attachments m)"
    by blast+
qed

lemma carries_delivers:
  assumes "Message_wf m" "length (m_attachments m) \<le> 1" "\<forall>a \<in> set (m_attachments m). valid_handle (att_handle a)"
    "carries f (Message_data m) (attachment_control (m_attachments m)) r"
  shows "delivers f m r"
proof -
  have "int_of_bytes (bytes_of_int (att_handle a)) = att_handle a" if "a \<in> set (m_attachments m)" for a
    using assms(3) that by (auto simp: int_of_bytes_of_int valid_handle_def to_int_id)
  moreover have "length (Message_data m) = unat (Message_size m)"
    using assms(1) length_Message_data by (simp add: Message_size_def)
  ultimately show ?thesis
    using assms by (cases "m_attachments m")
      (auto simp: delivers_def carries_def attachment_control_def Attachment_ctor_def)
qed

lemma received_message:
  assumes "Message_wf m" "0 < unat (Message_size m)" "unat (Message_size m) \<le> MaxBufferSize"
    "length (m_attachments m) \<le> 1" "\<forall>a \<in> set (m_attachments m). valid_handle (f (att_handle a))" "delivers f m r"
  shows "Message_data (packet_message r) = Message_data m" "Message_size (packet_message r) = Message_size m"
    "Message_wf (packet_message r)" "m_sizeRead (packet_message r) = 0"
    "m_attachments (packet_message r) = map (\<lambda>a. Attachment_ctor (f (att_handle a))) (m_attachments m)"
proof -
  have len: "length (r_bytes r) = unat (Message_size m)" using assms(1,6) by (rule delivered_length)
  have "Message_data (packet_message r) = determined (r_bytes r)"
    by (simp add: packet_message_def Message_data_def len)
  then show "Message_data (packet_message r) = Message_data m" using assms(6) by (simp add: delivers_def)
  show "Message_wf (packet_message r)"
    using len assms(3) by (simp add: packet_message_def Message_wf_def MaxBufferSize_def)
  show "Message_size (packet_message r) = Message_size m" "m_sizeRead (packet_message r) = 0"
    by (simp_all add: packet_message_def Message_size_def len)
  show "m_attachments (packet_message r) = map (\<lambda>a. Attachment_ctor (f (att_handle a))) (m_attachments m)"
    using delivers_good_packet(2) [OF assms(1,6,2,3,4,5)] .
qed

lemma ReadMessages_drains:
  assumes "os_script w = rounds bs @ is @ r # rest" "good_rounds bs"
    "\<forall>i \<in> set is. interrupted i" "read_end r = Some st" "socket_ready s" "\<forall>k. os_malloc w k"
    "\<not> lk_locked (sk_lock s)"
  obtains s' w' where
    "Socket_ReadMessages s w = Done ((st, map (\<lambda>(_, p). packet_message p) bs), s') w'"
    "sk_handle s' = sk_handle s" "\<not> lk_locked (sk_lock s')" "socket_ready s'"
    "os_script w' = rest"
    "os_trace w' = os_trace w @ map (Sys (recv_call s)) (rounds bs @ is @ [r])"
    "os_ndebug w' = os_ndebug w" "os_malloc w' = os_malloc w"
proof -
  let ?s = "s\<lparr>sk_lock := (sk_lock s)\<lparr>lk_locked := True\<rparr>\<rparr>"
  have ready: "socket_ready ?s" using assms(5) by (simp add: socket_ready_def)
  obtain s1 w1 where r:
    "read_loop [] ?s w = Done ((st, [] @ map (\<lambda>(_, p). packet_message p) bs), s1) w1"
    "sk_handle s1 = sk_handle ?s" "sk_lock s1 = sk_lock ?s" "socket_ready s1" "os_script w1 = rest"
    "os_trace w1 = os_trace w @ map (Sys (recv_call ?s)) (rounds bs @ is @ [r])"
    "os_ndebug w1 = os_ndebug w" "os_malloc w1 = os_malloc w"
    by (rule read_loop_drains [OF assms(1-4) ready assms(6)])
  have "recv_call ?s = recv_call s" by (simp add: recv_call_def)
  with r show ?thesis
    by (intro that [of "s1\<lparr>sk_lock := Lock_unlock (sk_lock s1)\<rparr>" w1])
      (simp_all add: Socket_ReadMessages_def with_AutoLock_free assms(7) pthread_mutex.release_frees
        socket_ready_def)
qed

text \<open>An open socket with both buffers, for the examples.\<close>

definition open_socket :: "handle \<Rightarrow> socket" where
  "open_socket h = \<lparr>sk_lock = Lock_ctor, sk_buffer = Some (fresh_region MaxBufferSize),
                    sk_controlBuffer = Some [], sk_handle = h\<rparr>"

definition packet :: "byte list \<Rightarrow> cmsghdr list \<Rightarrow> sysres" where
  "packet bs cs = (reply (int (length bs)) ENONE)\<lparr>r_bytes := bs, r_cmsgs := cs\<rparr>"

lemma open_socket_simps [simp]:
  "socket_ready (open_socket h)" "sk_handle (open_socket h) = h"
  "\<not> lk_locked (sk_lock (open_socket h))"
  by (simp_all add: open_socket_def socket_ready_def Lock_ctor_def)

section \<open>Construction and writing, evaluated\<close>

lemma Socket_ctor_configured:
  assumes "Socket_ctor h w = Done s w'" "\<not> os_ndebug w"
  shows "0 < sk_handle s \<and> (h \<noteq> 0 \<longrightarrow> sk_handle s = h) \<and> \<not> lk_locked (sk_lock s) \<and>
    ((\<forall>k. os_malloc w k) \<longrightarrow> socket_ready s) \<and>
    (\<exists>create a b c d. r_rc a = 0 \<and> r_rc b = 0 \<and> r_rc c = 0 \<and> r_rc d = 0 \<and>
       (if h = 0 then \<exists>r. r_rc r = sk_handle s \<and> create = [Sys SocketCreate r] else create = []) \<and>
       os_trace w' = os_trace w @ create @
         [Sys (Setsockopt (sk_handle s) SO_SNDBUF MaxBufferSize) a,
          Sys (Setsockopt (sk_handle s) SO_RCVBUF MaxBufferSize) b,
          Sys (SetNonblock (sk_handle s)) c, Sys (SetNonblock (sk_handle s)) d])"
proof -
  let ?open = "if h = 0 then bindM (sys SocketCreate) (\<lambda>r.
      seqM (CL_ASSERT (r_rc r \<noteq> -1)) (returnM (r_rc r))) else returnM h"
  obtain k w1 where open': "?open w = Done k w1" and
    cfg: "seqM (CL_ASSERT (k > 0)) (
         seqM (CL_CHECK (Setsockopt k SO_SNDBUF MaxBufferSize)) (
         seqM (CL_CHECK (Setsockopt k SO_RCVBUF MaxBufferSize)) (
         seqM (CL_CHECK (SetNonblock k)) (
         seqM (CL_CHECK (SetNonblock k)) (
         bindM malloc (\<lambda>b. bindM malloc (\<lambda>c.
         returnM \<lparr>sk_lock = Lock_ctor,
                  sk_buffer = (if b then Some (fresh_region MaxBufferSize) else None),
                  sk_controlBuffer = (if c then Some [] else None),
                  sk_handle = k\<rparr>)))))) ) w1 = Done s w'"
    using assms(1) unfolding Socket_ctor_def bindM_apply by (rule bind_out_DoneE)
  have opened: "(\<exists>create. (if h = 0 then \<exists>r. r_rc r = k \<and> create = [Sys SocketCreate r] else create = []) \<and>
      os_trace w1 = os_trace w @ create)" "h \<noteq> 0 \<longrightarrow> k = h" "\<not> os_ndebug w1" "os_malloc w1 = os_malloc w"
    using open' assms(2) by (auto simp: bind_out_Done_iff CL_ASSERT_Done sys_def split: if_splits list.splits)
  from cfg opened(3) obtain a w2 b w3 c w4 d w5 where
    pos: "0 < k" and
    1: "CL_CHECK (Setsockopt k SO_SNDBUF MaxBufferSize) w1 = Done a w2" and
    2: "CL_CHECK (Setsockopt k SO_RCVBUF MaxBufferSize) w2 = Done b w3" and
    3: "CL_CHECK (SetNonblock k) w3 = Done c w4" and
    4: "CL_CHECK (SetNonblock k) w4 = Done d w5" and
    s: "s = \<lparr>sk_lock = Lock_ctor,
         sk_buffer = (if os_malloc w5 (os_mallocs w5) then Some (fresh_region MaxBufferSize) else None),
         sk_controlBuffer = (if os_malloc w5 (Suc (os_mallocs w5)) then Some [] else None),
         sk_handle = k\<rparr>" and
    w': "os_trace w' = os_trace w5"
    by (auto simp: bind_out_Done_iff CL_ASSERT_Done malloc_def)
  from CL_CHECK_debug_DoneE [OF 1 opened(3)] have 1: "r_rc a = 0" "w2 = answered (Setsockopt k SO_SNDBUF MaxBufferSize) [a] w1" "\<not> os_ndebug w2" by blast+
  from CL_CHECK_debug_DoneE [OF 2 1(3)] have 2: "r_rc b = 0" "w3 = answered (Setsockopt k SO_RCVBUF MaxBufferSize) [b] w2" "\<not> os_ndebug w3" by blast+
  from CL_CHECK_debug_DoneE [OF 3 2(3)] have 3: "r_rc c = 0" "w4 = answered (SetNonblock k) [c] w3" "\<not> os_ndebug w4" by blast+
  from CL_CHECK_debug_DoneE [OF 4 3(3)] have 4: "r_rc d = 0" "w5 = answered (SetNonblock k) [d] w4" by blast+
  have trace: "os_trace w' = os_trace w1 @
      [Sys (Setsockopt k SO_SNDBUF MaxBufferSize) a, Sys (Setsockopt k SO_RCVBUF MaxBufferSize) b,
       Sys (SetNonblock k) c, Sys (SetNonblock k) d]" and malloc5: "os_malloc w5 = os_malloc w"
    using w' 1(2) 2(2) 3(2) 4(2) opened(4) by simp_all
  have handle: "sk_handle s = k" "\<not> lk_locked (sk_lock s)"
    "(\<forall>k. os_malloc w k) \<longrightarrow> socket_ready s"
    using s malloc5 pthread_mutex.free_not_held by (simp_all add: socket_ready_def)
  obtain create where "if h = 0 then \<exists>r. r_rc r = k \<and> create = [Sys SocketCreate r] else create = []"
    "os_trace w1 = os_trace w @ create"
    using opened(1) by blast
  with pos opened(2) handle 1(1) 2(1) 3(1) 4(1) trace show ?thesis
    by (intro conjI exI [of _ create] exI [of _ a] exI [of _ b] exI [of _ c] exI [of _ d]) simp_all
qed

lemma Socket_WriteMessage_result:
  assumes "os_script w = busy_answers bs @ is @ r # rest" "\<forall>b \<in> set bs. busy_ok b"
    "\<forall>i \<in> set is. interrupted i" "\<not> interrupted r" "\<not> would_block r"
    "unat (Message_size m) \<le> MaxBufferSize" "\<not> lk_locked (sk_lock s)"
  shows "\<exists>w'. Socket_WriteMessage m s w =
      Done ((if int_to_size (to_int (r_rc r)) = Message_size m then Success
             else if r_errno r = EPIPE then PermanentFailure else TemporaryFailure), s) w' \<and>
    os_script w' = rest \<and>
    (let send = Sendmsg (sk_handle s) (Message_data m) (attachment_control (m_attachments m)) in
     os_trace w' = os_trace w @ busy_events send (PollOut (sk_handle s)) bs @ map (Sys send) (is @ [r]))"
proof -
  let ?s = "s\<lparr>sk_lock := (sk_lock s)\<lparr>lk_locked := True\<rparr>\<rparr>"
  let ?send = "Sendmsg (sk_handle s) (Message_data m) (attachment_control (m_attachments m))"
  obtain w' where w': "send_loop (sk_handle s) (Message_data m) (attachment_control (m_attachments m)) w
      = Done (to_int (r_rc r)) w'"
    "os_script w' = rest" "os_errno w' = r_errno r"
    "os_trace w' = os_trace w @ busy_events ?send (PollOut (sk_handle s)) bs @ map (Sys ?send) (is @ [r])"
    using send_loop_result [OF assms(1-5)] by blast
  have small: "\<not> of_nat MaxBufferSize < Message_size m"
    using assms(6) by (simp add: word_less_nat_alt MaxBufferSize_def)
  have same: "s\<lparr>sk_lock := Lock_unlock ((sk_lock s)\<lparr>lk_locked := True\<rparr>)\<rparr> = s"
    using assms(7) by (cases s) (simp add: Lock_unlock_def)
  show ?thesis
    using w' small same
    by (intro exI [of _ w'])
      (simp add: Socket_WriteMessage_def with_AutoLock_free assms(7) write_body_def Let_def)
qed

lemma taken_whole:
  assumes "Message_wf m" "unat (Message_size m) \<le> MaxBufferSize" "r_rc r = int (unat (Message_size m))"
  shows "int_to_size (to_int (r_rc r)) = Message_size m" "\<not> would_block r" "\<not> interrupted r"
proof -
  have int: "to_int (r_rc r) = int (unat (Message_size m))"
    unfolding assms(3)
    by (rule to_int_small [OF of_nat_0_le_iff]) (use assms(2) in \<open>unfold MaxBufferSize_def, linarith\<close>)
  then show "int_to_size (to_int (r_rc r)) = Message_size m" by (simp add: int_to_size_def)
  have "to_int (r_rc r) \<noteq> -1" "r_rc r \<noteq> -1"
    using of_nat_0_le_iff [of "unat (Message_size m)", where ?'a = int] by (unfold int, unfold assms(3), linarith+)
  then show "\<not> would_block r" "\<not> interrupted r" by (simp_all add: would_block_def interrupted_def)
qed

text \<open>A message that the kernel takes whole at last: what the last call of the write was, and its packet.\<close>

lemma WriteMessage_taken:
  assumes "Message_wf m" "unat (Message_size m) \<le> MaxBufferSize"
    "os_script v = busy_answers bs @ is @ k # rest" "\<forall>b \<in> set bs. busy_ok b" "\<forall>i \<in> set is. interrupted i"
    "r_rc k = int (unat (Message_size m))" "\<not> lk_locked (sk_lock s)"
  obtains v' es where "Socket_WriteMessage m s v = Done (Success, s) v'" "os_script v' = rest"
    "os_trace v' = es @ [Sys (Sendmsg (sk_handle s) (Message_data m) (attachment_control (m_attachments m))) k]"
  using Socket_WriteMessage_result [OF assms(3-5) taken_whole(3,2) [OF assms(1,2,6)] assms(2,7)]
    taken_whole(1) [OF assms(1,2,6)] by (auto simp: Let_def)

lemma transmitsD:
  assumes "transmits f v r" "os_trace v = es @ [Sys (Sendmsg h payload control) k]"
  shows "carries f payload control r"
  using assms by (auto simp: transmits_def)

section \<open>Properties\<close>

text \<open>
  C11: \<^verbatim>\<open>ReadMessages\<close> drains the socket. If the kernel answers with any number of well-formed
  packets, each after any number of interruptions, and then with an answer that ends the loop,
  the call returns the status of that answer and exactly one message per packet, in order, with
  the packet's bytes and descriptors. It makes one \<^verbatim>\<open>recvmsg\<close> call per answer and no other, and
  leaves the handle open and the lock free.
\<close>

theorem Socket_ReadMessages_drains:
  assumes "os_script w = rounds bs @ is @ r # rest" "good_rounds bs"
    "\<forall>i \<in> set is. interrupted i" "read_end r = Some st" "socket_ready s" "\<forall>k. os_malloc w k"
    "\<not> lk_locked (sk_lock s)"
  shows "\<exists>s' w'. Socket_ReadMessages s w = Done ((st, map (\<lambda>(_, p). packet_message p) bs), s') w' \<and>
    sk_handle s' = sk_handle s \<and> \<not> lk_locked (sk_lock s') \<and> socket_ready s' \<and>
    os_script w' = rest \<and>
    os_trace w' = os_trace w @ map (Sys (recv_call s)) (rounds bs @ is @ [r])"
  using ReadMessages_drains [OF assms] by metis

theorem Socket_ReadMessages_drains_witness:
  "\<exists>s' w'. Socket_ReadMessages (open_socket 5)
      (start_os False (rounds [([reply (-1) EINTR], packet [1, 2] []), ([], packet [3] [])] @
        [] @ reply (-1) EAGAIN # []))
      = Done ((Success, map (\<lambda>(_, p). packet_message p)
          [([reply (-1) EINTR], packet [1, 2] []), ([], packet [3] [])]), s') w' \<and>
    sk_handle s' = sk_handle (open_socket 5) \<and> \<not> lk_locked (sk_lock s') \<and> socket_ready s' \<and>
    os_script w' = [] \<and>
    os_trace w' = os_trace (start_os False (rounds [([reply (-1) EINTR], packet [1, 2] []),
        ([], packet [3] [])] @ [] @ reply (-1) EAGAIN # [])) @
      map (Sys (recv_call (open_socket 5)))
        (rounds [([reply (-1) EINTR], packet [1, 2] []), ([], packet [3] [])] @ [] @ [reply (-1) EAGAIN])"
  by (rule Socket_ReadMessages_drains)
    (simp_all add: interrupted_def good_packet_def packet_def MaxBufferSize_def read_end_def)

text \<open>
  C22: \<^verbatim>\<open>WriteMessage\<close>. For a message of at most 4096 bytes on a free lock, whatever number of
  full-queue rounds (\<open>EAGAIN\<close>, then \<^verbatim>\<open>poll\<close>) and interruptions comes first, the status is that of
  the final \<^verbatim>\<open>sendmsg\<close>: success iff it sent the whole message, otherwise permanent iff \<^verbatim>\<open>errno\<close>
  is \<open>EPIPE\<close>. Nothing else is called, and the socket is unchanged.
\<close>

theorem Socket_WriteMessage_status:
  assumes "os_script w = busy_answers bs @ is @ r # rest" "\<forall>b \<in> set bs. busy_ok b"
    "\<forall>i \<in> set is. interrupted i" "\<not> interrupted r" "\<not> would_block r"
    "unat (Message_size m) \<le> MaxBufferSize" "\<not> lk_locked (sk_lock s)"
  shows "\<exists>w'. Socket_WriteMessage m s w =
      Done ((if int_to_size (to_int (r_rc r)) = Message_size m then Success
             else if r_errno r = EPIPE then PermanentFailure else TemporaryFailure), s) w' \<and>
    os_script w' = rest \<and>
    (let send = Sendmsg (sk_handle s) (Message_data m) (attachment_control (m_attachments m)) in
     os_trace w' = os_trace w @ busy_events send (PollOut (sk_handle s)) bs @ map (Sys send) (is @ [r]))"
  by (rule Socket_WriteMessage_result [OF assms])

theorem Socket_WriteMessage_status_witness:
  "\<exists>w'. Socket_WriteMessage Message_empty (open_socket 5)
      (start_os False (busy_answers [\<lparr>br_send_interrupts = [], br_send = reply (-1) EAGAIN,
          br_poll_interrupts = [reply (-1) EINTR], br_poll = reply 1 ENONE\<rparr>] @ [] @ reply (-1) EPIPE # []))
    = Done ((if int_to_size (to_int (r_rc (reply (-1) EPIPE))) = Message_size Message_empty then Success
             else if r_errno (reply (-1) EPIPE) = EPIPE then PermanentFailure else TemporaryFailure),
            open_socket 5) w' \<and>
    os_script w' = [] \<and>
    (let send = Sendmsg (sk_handle (open_socket 5)) (Message_data Message_empty)
                  (attachment_control (m_attachments Message_empty)) in
     os_trace w' = os_trace (start_os False (busy_answers [\<lparr>br_send_interrupts = [],
          br_send = reply (-1) EAGAIN, br_poll_interrupts = [reply (-1) EINTR],
          br_poll = reply 1 ENONE\<rparr>] @ [] @ reply (-1) EPIPE # [])) @
       busy_events send (PollOut (sk_handle (open_socket 5)))
         [\<lparr>br_send_interrupts = [], br_send = reply (-1) EAGAIN,
          br_poll_interrupts = [reply (-1) EINTR], br_poll = reply 1 ENONE\<rparr>] @
       map (Sys send) ([] @ [reply (-1) EPIPE]))"
  by (rule Socket_WriteMessage_status)
    (simp_all add: busy_ok_def would_block_def interrupted_def Message_size_def)

text \<open>
  C20: Delivery end to end. \<^verbatim>\<open>WriteMessage\<close> of a well-formed message of 1 to 4096 bytes with at most
  one descriptor succeeds once the kernel takes it, after any number of full-queue rounds and
  interruptions. Whatever its last \<^verbatim>\<open>sendmsg\<close> gave to the kernel, when a packet with just that arrives
  at the other end, \<^verbatim>\<open>ReadMessages\<close> there returns one message, with the bytes of the one that was
  written and its descriptor, translated.
\<close>

theorem Socket_delivery:
  assumes "Message_wf m" "0 < unat (Message_size m)" "unat (Message_size m) \<le> MaxBufferSize"
    "length (m_attachments m) \<le> 1"
    "\<forall>a \<in> set (m_attachments m). valid_handle (att_handle a) \<and> valid_handle (f (att_handle a))"
    "os_script v = busy_answers bs @ is @ k # rest'" "\<forall>b \<in> set bs. busy_ok b" "\<forall>i \<in> set is. interrupted i"
    "r_rc k = int (unat (Message_size m))" "\<not> lk_locked (sk_lock a)"
    "os_script w = r # e # rest" "read_end e = Some Success"
    "socket_ready s" "\<forall>k. os_malloc w k" "\<not> lk_locked (sk_lock s)"
  shows "\<exists>v'. Socket_WriteMessage m a v = Done (Success, a) v' \<and> os_script v' = rest' \<and>
    (transmits f v' r \<longrightarrow>
      (\<exists>m' s' w'. Socket_ReadMessages s w = Done ((Success, [m']), s') w' \<and> os_script w' = rest \<and>
        Message_data m' = Message_data m \<and> Message_size m' = Message_size m \<and> Message_wf m' \<and>
        m_sizeRead m' = 0 \<and>
        m_attachments m' = map (\<lambda>a. Attachment_ctor (f (att_handle a))) (m_attachments m)))"
proof -
  obtain v' es where v': "Socket_WriteMessage m a v = Done (Success, a) v'" "os_script v' = rest'"
    "os_trace v' = es @ [Sys (Sendmsg (sk_handle a) (Message_data m) (attachment_control (m_attachments m))) k]"
    by (rule WriteMessage_taken [OF assms(1,3,6-10)])
  have "\<exists>m' s' w'. Socket_ReadMessages s w = Done ((Success, [m']), s') w' \<and> os_script w' = rest \<and>
      Message_data m' = Message_data m \<and> Message_size m' = Message_size m \<and> Message_wf m' \<and> m_sizeRead m' = 0 \<and>
      m_attachments m' = map (\<lambda>a. Attachment_ctor (f (att_handle a))) (m_attachments m)" if "transmits f v' r"
  proof -
    have valid: "\<forall>a \<in> set (m_attachments m). valid_handle (f (att_handle a))" using assms(5) by blast
    have d: "delivers f m r"
      by (rule carries_delivers [OF assms(1,4) _ transmitsD [OF that v'(3)]]) (use assms(5) in blast)
    obtain s' w' where "Socket_ReadMessages s w =
        Done ((Success, map (\<lambda>(_, p). packet_message p) [([], r)]), s') w'" "os_script w' = rest"
      by (rule ReadMessages_drains [of w "[([], r)]" "[]" e rest Success s])
        (use assms delivers_good_packet(1) [OF assms(1) d assms(2-4) valid] in simp_all)
    with received_message [OF assms(1-4) valid d] show ?thesis by auto
  qed
  with v'(1,2) show ?thesis by blast
qed

text \<open>A one-byte message with one descriptor, and its delivery as descriptor 9.\<close>

definition tiny_message :: "handle list \<Rightarrow> message" where
  "tiny_message hs = \<lparr>m_buffer = Some [Some 65], m_bufferLength = 1, m_dataLength = 1, m_sizeRead = 0,
                      m_attachments = map Attachment_ctor hs\<rparr>"

lemma tiny_message_simps [simp]:
  "Message_wf (tiny_message hs)" "Message_size (tiny_message hs) = 1"
  "Message_data (tiny_message hs) = [Some 65]"
  "m_attachments (tiny_message hs) = map Attachment_ctor hs"
  by (simp_all add: tiny_message_def Message_wf_def Message_size_def Message_data_def)

definition tiny_reply :: "handle list \<Rightarrow> sysres" where
  "tiny_reply hs = packet [65] (attachment_control (map (\<lambda>_. Attachment_ctor 9) hs))"

lemma tiny_delivered: "delivers (\<lambda>_. 9) (tiny_message hs) (tiny_reply hs)"
  by (simp add: delivers_def tiny_reply_def packet_def Attachment_ctor_def comp_def)

lemma tiny_carried: "carries (\<lambda>_. 9) [Some 65] (attachment_control [Attachment_ctor 4]) (tiny_reply [4])"
  by (simp add: carries_def tiny_reply_def packet_def attachment_control_def Attachment_ctor_def)

theorem Socket_delivery_witness:
  "\<exists>v'. Socket_WriteMessage (tiny_message [4]) (open_socket 6)
      (start_os False [reply (-1) EAGAIN, reply 1 ENONE, reply (-1) EINTR, reply 1 ENONE]) =
      Done (Success, open_socket 6) v' \<and> os_script v' = [] \<and> transmits (\<lambda>_. 9) v' (tiny_reply [4]) \<and>
    (\<exists>m' s' w'. Socket_ReadMessages (open_socket 5) (start_os False [tiny_reply [4], reply (-1) EAGAIN])
        = Done ((Success, [m']), s') w' \<and> os_script w' = [] \<and>
      Message_data m' = [Some 65] \<and> Message_size m' = 1 \<and> Message_wf m' \<and> m_sizeRead m' = 0 \<and>
      m_attachments m' = [Attachment_ctor 9])"
proof -
  let ?b = "\<lparr>br_send_interrupts = [], br_send = reply (-1) EAGAIN, br_poll_interrupts = [], br_poll = reply 1 ENONE\<rparr>"
  let ?v = "start_os False [reply (-1) EAGAIN, reply 1 ENONE, reply (-1) EINTR, reply 1 ENONE]"
  have busy: "os_script ?v = busy_answers [?b] @ [reply (-1) EINTR] @ reply 1 ENONE # []" "busy_ok ?b"
    by (simp_all add: busy_answers_def busy_sends_def busy_polls_def busy_ok_def would_block_def interrupted_def)
  have sent: "transmits (\<lambda>_. 9) v' (tiny_reply [4])"
    if run: "Socket_WriteMessage (tiny_message [4]) (open_socket 6) ?v = Done (Success, open_socket 6) v'" for v'
  proof -
    obtain es where "os_trace v' = es @ [Sys (Sendmsg 6 [Some 65] (attachment_control [Attachment_ctor 4])) (reply 1 ENONE)]"
      by (rule WriteMessage_taken [OF _ _ busy(1), of "tiny_message [4]" "open_socket 6"])
        (use run busy(2) in \<open>simp_all add: interrupted_def MaxBufferSize_def\<close>)
    with tiny_carried show ?thesis unfolding transmits_def by blast
  qed
  have "\<exists>v'. Socket_WriteMessage (tiny_message [4]) (open_socket 6) ?v = Done (Success, open_socket 6) v' \<and>
      os_script v' = [] \<and> (transmits (\<lambda>_. 9) v' (tiny_reply [4]) \<longrightarrow>
      (\<exists>m' s' w'. Socket_ReadMessages (open_socket 5) (start_os False [tiny_reply [4], reply (-1) EAGAIN])
        = Done ((Success, [m']), s') w' \<and> os_script w' = [] \<and>
        Message_data m' = Message_data (tiny_message [4]) \<and> Message_size m' = Message_size (tiny_message [4]) \<and>
        Message_wf m' \<and> m_sizeRead m' = 0 \<and>
        m_attachments m' = map (\<lambda>a. Attachment_ctor 9) (m_attachments (tiny_message [4]))))"
    by (rule Socket_delivery [OF _ _ _ _ _ busy(1), where e = "reply (-1) EAGAIN"])
      (use busy(2) in \<open>simp_all add: MaxBufferSize_def valid_handle_def read_end_def interrupted_def Attachment_ctor_def\<close>)
  with sent show ?thesis by auto
qed

text \<open>Several descriptors arrive in one control message, whose first item is the first of them.\<close>

lemma packed_control:
  assumes "m_attachments m = a # b # as" "valid_handle (f (att_handle a))" "delivers f m r"
  obtains c where "r_cmsgs r = [c]" "cmsg_len c \<noteq> CMSG_LEN ControlBufferItemSize"
    "cmsg_level c = SOL_SOCKET" "cmsg_type c = SCM_RIGHTS" "\<not> length (cmsg_data c) < ControlBufferItemSize"
    "int_of_bytes (take ControlBufferItemSize (cmsg_data c)) = f (att_handle a)" "f (att_handle a) \<noteq> -1"
    "\<not> r_ctrunc r"
proof -
  have "int_of_bytes (bytes_of_int (f (att_handle a))) = f (att_handle a)" "f (att_handle a) \<noteq> -1"
    using assms(2) by (auto simp: int_of_bytes_of_int valid_handle_def to_int_id)
  with assms(1,3) that show ?thesis
    by (auto simp: delivers_def attachment_control_def CMSG_LEN_def ControlBufferItemSize_def Attachment_ctor_def)
qed

lemma packed_message_read:
  assumes "Message_wf m" "0 < unat (Message_size m)" "unat (Message_size m) \<le> MaxBufferSize" "delivers f m r"
    "os_script w = r # rest" "socket_ready s" "\<forall>k. os_malloc w k" "r_cmsgs r = [c]"
  obtains m0 where "m_attachments m0 = []"
    "read_loop [] s w = bind_out
      (bind_out (read_descriptors [c] m0 ((answered (recv_call s) [r] w)\<lparr>os_mallocs := Suc (os_mallocs w)\<rparr>))
        (\<lambda>m'. seqM (CL_ASSERT (\<not> r_ctrunc r)) (Done m')))
      (\<lambda>m'. read_loop [m'] (receive_into r s))"
proof -
  let ?n = "unat (Message_size m)" and ?w1 = "answered (recv_call s) [r] w" and ?s1 = "receive_into r s"
  have rc: "r_rc r = int ?n" "length (r_bytes r) = ?n" "to_int (int ?n) = int ?n"
    using assms(4) delivered_length [OF assms(1,4)] to_int_small [of "int ?n"] assms(3)
    by (simp_all only: delivers_def MaxBufferSize_def)
  obtain buf ctl where s: "sk_buffer s = Some buf" "length buf = MaxBufferSize" "sk_controlBuffer s = Some ctl"
    using assms(6) by (auto simp: socket_ready_def split: option.splits)
  have src: "Option.bind (sk_buffer ?s1) (\<lambda>b. region_read b 0 ?n) = Some (determined (r_bytes r))"
    using s rc assms(3) by (simp add: receive_into_def region_read_def)
  have ctl: "sk_controlBuffer ?s1 = Some [c]" using s assms(8) by (simp add: receive_into_def)
  define m0 where "m0 = \<lparr>m_buffer = Some (determined (r_bytes r)), m_bufferLength = of_nat ?n,
    m_dataLength = of_nat ?n, m_sizeRead = 0, m_attachments = []\<rparr>"
  have m0: "Message_of_buffer True (determined (r_bytes r)) = Inr m0"
    by (simp add: Message_of_buffer_def m0_def rc)
  have received: "0 < to_int (r_rc r)" "nat (to_int (r_rc r)) = ?n"
    by (simp_all only: rc of_nat_0_less_iff nat_int assms(2))
  then have "\<not> interrupted r" by (auto simp: interrupted_def)
  then have "read_loop [] s w = bind_out (read_message ?s1 r ?n ?w1) (\<lambda>m'. read_loop [m'] ?s1)"
    using read_loop_turn [of w "[]" r rest "[]" s] assms(5) received
    by (simp only: append_Nil list.set ball_empty Let_def if_True simp_thms)
  moreover have "read_message ?s1 r ?n ?w1 =
      bind_out (read_descriptors [c] m0 (?w1\<lparr>os_mallocs := Suc (os_mallocs ?w1)\<rparr>))
        (\<lambda>m'. seqM (CL_ASSERT (\<not> r_ctrunc r)) (Done m'))"
    unfolding read_message_def src ctl option.case using assms(7)
    by (simp add: malloc_def m0 assms(8) bind_out_assoc returnM_eta del: read_descriptors.simps)
  ultimately show ?thesis
    by (intro that [of m0]) (simp_all add: m0_def del: read_descriptors.simps read_loop.simps)
qed

text \<open>
  C37: The two sides disagree on several descriptors: \<^verbatim>\<open>WriteMessage\<close> packs them into one control
  message, \<^verbatim>\<open>ReadMessages\<close> asserts that each holds exactly one. A delivered message with two or
  more descriptors fails the receiver's assertion; in a build without assertions it arrives
  with the first descriptor only.
\<close>

theorem Socket_many_attachments:
  assumes "Message_wf m" "0 < unat (Message_size m)" "unat (Message_size m) \<le> MaxBufferSize"
    "m_attachments m = a # b # as" "valid_handle (f (att_handle a))" "delivers f m r"
    "os_script w = r # reply (-1) EAGAIN # rest" "socket_ready s" "\<forall>k. os_malloc w k"
    "\<not> lk_locked (sk_lock s)"
  shows "if os_ndebug w
    then \<exists>m' s' w'. Socket_ReadMessages s w = Done ((Success, [m']), s') w' \<and>
           m_attachments m' = [Attachment_ctor (f (att_handle a))]
    else \<exists>w'. Socket_ReadMessages s w = Fail AssertFailed w'"
proof -
  let ?s = "s\<lparr>sk_lock := (sk_lock s)\<lparr>lk_locked := True\<rparr>\<rparr>"
  let ?w2 = "(answered (recv_call ?s) [r] w)\<lparr>os_mallocs := Suc (os_mallocs w)\<rparr>" and ?s1 = "receive_into r ?s"
  obtain c where c: "r_cmsgs r = [c]" "cmsg_len c \<noteq> CMSG_LEN ControlBufferItemSize"
    "cmsg_level c = SOL_SOCKET" "cmsg_type c = SCM_RIGHTS" "\<not> length (cmsg_data c) < ControlBufferItemSize"
    "int_of_bytes (take ControlBufferItemSize (cmsg_data c)) = f (att_handle a)" "f (att_handle a) \<noteq> -1"
    "\<not> r_ctrunc r"
    using assms(4-6) by (rule packed_control)
  have "socket_ready ?s" using assms(8) by (simp add: socket_ready_def)
  from assms(1-3,6,7) this assms(9) c(1) obtain m0 where m0: "m_attachments m0 = []"
    "read_loop [] ?s w = bind_out
      (bind_out (read_descriptors [c] m0 ?w2) (\<lambda>m'. seqM (CL_ASSERT (\<not> r_ctrunc r)) (Done m')))
      (\<lambda>m'. read_loop [m'] ?s1)"
    by (rule packed_message_read)
  show ?thesis
  proof (cases "os_ndebug w")
    case False
    then have "read_descriptors [c] m0 ?w2 = Fail AssertFailed ?w2"
      using c by (simp add: CL_ASSERT_def)
    with False m0(2) assms(10) show ?thesis
      by (simp add: Socket_ReadMessages_def with_AutoLock_free del: read_descriptors.simps)
  next
    case True
    let ?m = "m0\<lparr>m_attachments := [Attachment_ctor (f (att_handle a))]\<rparr>"
    have "read_descriptors [c] m0 ?w2 = Done ?m ?w2"
      using c True m0(1) by (simp add: CL_ASSERT_def Message_addAttachment_def)
    moreover have "read_loop [?m] ?s1 ?w2 = Done ((Success, [?m]), receive_into (reply (-1) EAGAIN) ?s1)
        (answered (recv_call ?s1) ([] @ [reply (-1) EAGAIN]) ?w2)"
      by (rule read_loop_end [of _ "[]" _ rest]) (use assms(7) in \<open>simp_all add: read_end_def\<close>)
    ultimately show ?thesis
      using True m0(2) assms(10) c(8)
      by (simp add: Socket_ReadMessages_def with_AutoLock_free CL_ASSERT_holds del: read_descriptors.simps)
  qed
qed

theorem Socket_many_attachments_witness:
  "if os_ndebug (start_os False [tiny_reply [3, 4], reply (-1) EAGAIN])
    then \<exists>m' s' w'. Socket_ReadMessages (open_socket 5)
           (start_os False [tiny_reply [3, 4], reply (-1) EAGAIN]) = Done ((Success, [m']), s') w' \<and>
           m_attachments m' = [Attachment_ctor 9]
    else \<exists>w'. Socket_ReadMessages (open_socket 5)
           (start_os False [tiny_reply [3, 4], reply (-1) EAGAIN]) = Fail AssertFailed w'"
  by (rule Socket_many_attachments [where f = "\<lambda>_. 9" and as = "[]" and a = "Attachment_ctor 3"
        and b = "Attachment_ctor 4" and rest = "[]" and m = "tiny_message [3, 4]",
        OF _ _ _ _ _ tiny_delivered])
    (simp_all add: MaxBufferSize_def valid_handle_def)


text \<open>
  Construction in a checked build. If it returns, the handle is positive (the given one
  unless that is 0), it was configured by exactly four successful calls (both buffer sizes,
  \<open>O_NONBLOCK\<close> twice) after at most one \<^verbatim>\<open>socket\<close> call, the lock is free and, memory
  permitting, both buffers have their sizes.
\<close>

theorem Socket_ctor_configures:
  assumes "Socket_ctor h w = Done s w'" "\<not> os_ndebug w"
  shows "0 < sk_handle s \<and> (h \<noteq> 0 \<longrightarrow> sk_handle s = h) \<and> \<not> lk_locked (sk_lock s) \<and>
    ((\<forall>k. os_malloc w k) \<longrightarrow> socket_ready s) \<and>
    (\<exists>create a b c d. r_rc a = 0 \<and> r_rc b = 0 \<and> r_rc c = 0 \<and> r_rc d = 0 \<and>
       (if h = 0 then \<exists>r. r_rc r = sk_handle s \<and> create = [Sys SocketCreate r] else create = []) \<and>
       os_trace w' = os_trace w @ create @
         [Sys (Setsockopt (sk_handle s) SO_SNDBUF MaxBufferSize) a,
          Sys (Setsockopt (sk_handle s) SO_RCVBUF MaxBufferSize) b,
          Sys (SetNonblock (sk_handle s)) c, Sys (SetNonblock (sk_handle s)) d])"
  by (rule Socket_ctor_configured [OF assms])

text \<open>
  A descriptor is closed exactly once: whatever is done with a socket that has one (connect,
  reads, writes, any number of closes), when the destructor has run the kernel got exactly one
  \<^verbatim>\<open>close\<close> of it.
\<close>

theorem Socket_closed_once:
  assumes "socket_run ops s w = Done s1 w1" "Socket_dtor s1 w1 = Done s2 w2" "sk_handle s \<noteq> -1"
  shows "closes (sk_handle s) w2 = Suc (closes (sk_handle s) w) \<and> sk_handle s2 = -1"
proof -
  have "closed_once_inv (sk_handle s) (closes (sk_handle s) w) s w"
    by (simp add: closed_once_inv_def)
  note inv = socket_run_closed_once [OF assms(1) this assms(3)]
  from assms(2) obtain b s3 where c: "Socket_close s1 w1 = Done (b, s3) w2"
      "s2 = s3\<lparr>sk_buffer := None, sk_controlBuffer := None\<rparr>"
    by (auto simp: Socket_dtor_def bind_out_Done_iff)
  from closed_once_close [OF inv assms(3) c(1)] c(2) show ?thesis by simp
qed

text \<open>
  The lock of a socket is released on every return of a read or a write, which also keep the
  handle; a caller that finds the lock held makes no call at all.
\<close>

theorem Socket_lock_released:
  "(\<forall>res s' w'. Socket_ReadMessages s w = Done (res, s') w' \<longrightarrow>
      \<not> lk_locked (sk_lock s') \<and> sk_handle s' = sk_handle s) \<and>
   (\<forall>st s' w'. Socket_WriteMessage m s w = Done (st, s') w' \<longrightarrow>
      \<not> lk_locked (sk_lock s') \<and> sk_handle s' = sk_handle s) \<and>
   (lk_locked (sk_lock s) \<longrightarrow>
      Socket_ReadMessages s w = Fail Deadlock w \<and> Socket_WriteMessage m s w = Fail Deadlock w)"
proof (intro conjI allI impI)
  show "Socket_ReadMessages s w = Fail Deadlock w" if "lk_locked (sk_lock s)"
    using that by (simp add: Socket_ReadMessages_def with_AutoLock_held)
  show "Socket_WriteMessage m s w = Fail Deadlock w" if "lk_locked (sk_lock s)"
    using that by (simp add: Socket_WriteMessage_def with_AutoLock_held)
qed (rule ReadMessages_frame WriteMessage_frame, assumption)+

text \<open>
  C23: An empty message is the end of the connection for its receiver. \<^verbatim>\<open>WriteMessage\<close> hands it to the
  kernel, with its descriptors, and returns \<open>Success\<close>; but when a packet with just that arrives,
  \<^verbatim>\<open>ReadMessages\<close> returns \<open>PermanentFailure\<close> and no message, as after an orderly shutdown, and the
  descriptors that came with it are neither handed over nor closed.
\<close>

theorem Socket_empty_message:
  assumes "Message_wf m" "Message_size m = 0"
    "os_script w = busy_answers bs @ is @ k # rest" "\<forall>b \<in> set bs. busy_ok b" "\<forall>i \<in> set is. interrupted i"
    "r_rc k = 0" "\<not> lk_locked (sk_lock s)" "os_script v = r # rest'" "\<not> lk_locked (sk_lock t)"
  shows "\<exists>w'. Socket_WriteMessage m s w = Done (Success, s) w' \<and>
    (\<exists>es. os_trace w' = es @ [Sys (Sendmsg (sk_handle s) [] (attachment_control (m_attachments m))) k]) \<and>
    (transmits f w' r \<longrightarrow>
      (\<exists>t' v'. Socket_ReadMessages t v = Done ((PermanentFailure, []), t') v' \<and>
        os_trace v' = os_trace v @ [Sys (recv_call t) r]))"
proof -
  have none: "Message_data m = []" using assms(2) by (simp add: Message_data_def Message_size_def split: option.split)
  have rc: "r_rc k = int (unat (Message_size m))" using assms(2,6) by simp
  obtain w' es where w': "Socket_WriteMessage m s w = Done (Success, s) w'"
    "os_trace w' = es @ [Sys (Sendmsg (sk_handle s) [] (attachment_control (m_attachments m))) k]"
    by (rule WriteMessage_taken [OF assms(1) _ assms(3-5) rc assms(7)]) (use none assms(2) in simp_all)
  have "\<exists>t' v'. Socket_ReadMessages t v = Done ((PermanentFailure, []), t') v' \<and>
      os_trace v' = os_trace v @ [Sys (recv_call t) r]" if "transmits f w' r"
  proof -
    let ?t = "t\<lparr>sk_lock := (sk_lock t)\<lparr>lk_locked := True\<rparr>\<rparr>"
    have "r_rc r = 0" using transmitsD [OF that w'(2)] by (simp add: carries_def)
    then have "read_loop [] ?t v = Done ((PermanentFailure, []), receive_into r ?t) (answered (recv_call ?t) ([] @ [r]) v)"
      by (intro read_loop_end [where rest = rest']) (use assms(8) in \<open>simp_all add: read_end_def\<close>)
    moreover have "recv_call ?t = recv_call t" by (simp add: recv_call_def)
    ultimately show ?thesis
      using assms(9) by (simp add: Socket_ReadMessages_def with_AutoLock_free)
  qed
  with w' show ?thesis by blast
qed

section \<open>Examples of the properties\<close>

definition four_ok :: "sysres list" where
  "four_ok = replicate 4 (reply 0 ENONE)"

theorem Socket_ctor_configures_witness:
  "\<exists>s w'. Socket_ctor 5 (start_os False four_ok) = Done s w' \<and> sk_handle s = 5 \<and> socket_ready s \<and>
    (\<exists>a b c d. os_trace w' = [Sys (Setsockopt 5 SO_SNDBUF MaxBufferSize) a,
       Sys (Setsockopt 5 SO_RCVBUF MaxBufferSize) b, Sys (SetNonblock 5) c, Sys (SetNonblock 5) d])"
proof -
  have "\<exists>s w'. Socket_ctor 5 (start_os False four_ok) = Done s w'"
    by (simp add: Socket_ctor_def four_ok_def numeral_eq_Suc CL_CHECK_success malloc_def CL_ASSERT_holds)
  then obtain s w' where r: "Socket_ctor 5 (start_os False four_ok) = Done s w'" by blast
  have "\<not> os_ndebug (start_os False four_ok)" by simp
  from Socket_ctor_configures [OF r this] r show ?thesis
    by (intro exI [of _ s] exI [of _ w']) auto
qed

theorem Socket_closed_once_witness:
  "\<exists>s1 w1 s2 w2. socket_run [OpConnect ''a'', OpClose, OpClose] (open_socket 5)
      (start_os False [reply 0 ENONE, reply 0 ENONE]) = Done s1 w1 \<and> Socket_dtor s1 w1 = Done s2 w2 \<and>
    closes (sk_handle (open_socket 5)) w2 =
      Suc (closes (sk_handle (open_socket 5)) (start_os False [reply 0 ENONE, reply 0 ENONE])) \<and>
    sk_handle s2 = -1"
proof -
  have "\<exists>s1 w1 s2 w2. socket_run [OpConnect ''a'', OpClose, OpClose] (open_socket 5)
      (start_os False [reply 0 ENONE, reply 0 ENONE]) = Done s1 w1 \<and> Socket_dtor s1 w1 = Done s2 w2"
    by (simp add: Socket_connect_def strcpy_sun_path_def c_str_def sys_Cons Socket_close_def
        CL_CHECK_success Socket_dtor_def CL_ASSERT_holds)
  then obtain s1 w1 s2 w2 where r: "socket_run [OpConnect ''a'', OpClose, OpClose] (open_socket 5)
      (start_os False [reply 0 ENONE, reply 0 ENONE]) = Done s1 w1" "Socket_dtor s1 w1 = Done s2 w2"
    by blast
  have "sk_handle (open_socket 5) \<noteq> -1" by simp
  from r Socket_closed_once [OF r this] show ?thesis by blast
qed

theorem Socket_lock_released_witness:
  "\<exists>res s' w'. Socket_ReadMessages (open_socket 5) (start_os False [reply 0 ENONE]) = Done (res, s') w' \<and>
    \<not> lk_locked (sk_lock s') \<and> sk_handle s' = 5"
proof -
  have "\<exists>res s' w'. Socket_ReadMessages (open_socket 5) (start_os False [reply 0 ENONE]) = Done (res, s') w'"
    using ReadMessages_drains [of "start_os False [reply 0 ENONE]" "[]" "[]" "reply 0 ENONE" "[]"
        PermanentFailure "open_socket 5"]
    by (simp add: read_end_def) metis
  with Socket_lock_released [of "open_socket 5" "start_os False [reply 0 ENONE]"] show ?thesis
    by (metis open_socket_simps(2))
qed

theorem Socket_empty_message_witness:
  "\<exists>w'. Socket_WriteMessage \<lparr>m_buffer = None, m_bufferLength = 0, m_dataLength = 0, m_sizeRead = 0,
        m_attachments = [Attachment_ctor 4]\<rparr> (open_socket 5) (start_os False [reply 0 ENONE])
      = Done (Success, open_socket 5) w' \<and> transmits (\<lambda>_. 9) w' (packet [] (attachment_control [Attachment_ctor 9])) \<and>
    (\<exists>t' v'. Socket_ReadMessages (open_socket 6) (start_os False [packet [] (attachment_control [Attachment_ctor 9])])
        = Done ((PermanentFailure, []), t') v' \<and>
      os_trace v' = [Sys (recv_call (open_socket 6)) (packet [] (attachment_control [Attachment_ctor 9]))])"
proof -
  let ?m = "\<lparr>m_buffer = None, m_bufferLength = 0, m_dataLength = 0, m_sizeRead = 0, m_attachments = [Attachment_ctor 4]\<rparr>"
  let ?w = "start_os False [reply 0 ENONE]" and ?r = "packet [] (attachment_control [Attachment_ctor 9])"
  have script: "os_script ?w = busy_answers [] @ [] @ reply 0 ENONE # []" by (simp add: busy_answers_def)
  have c: "carries (\<lambda>_. 9) [] (attachment_control [Attachment_ctor 4]) ?r"
    by (simp add: carries_def packet_def attachment_control_def Attachment_ctor_def)
  have "\<exists>w'. Socket_WriteMessage ?m (open_socket 5) ?w = Done (Success, open_socket 5) w' \<and>
    (\<exists>es. os_trace w' = es @ [Sys (Sendmsg (sk_handle (open_socket 5)) [] (attachment_control (m_attachments ?m))) (reply 0 ENONE)]) \<and>
    (transmits (\<lambda>_. 9) w' ?r \<longrightarrow>
      (\<exists>t' v'. Socket_ReadMessages (open_socket 6) (start_os False [?r]) = Done ((PermanentFailure, []), t') v' \<and>
        os_trace v' = os_trace (start_os False [?r]) @ [Sys (recv_call (open_socket 6)) ?r]))"
    by (rule Socket_empty_message [OF _ _ script]) (simp_all add: Message_wf_def Message_size_def)
  then obtain w' es where w': "Socket_WriteMessage ?m (open_socket 5) ?w = Done (Success, open_socket 5) w'"
    "os_trace w' = es @ [Sys (Sendmsg 5 [] (attachment_control [Attachment_ctor 4])) (reply 0 ENONE)]"
    "transmits (\<lambda>_. 9) w' ?r \<longrightarrow>
      (\<exists>t' v'. Socket_ReadMessages (open_socket 6) (start_os False [?r]) = Done ((PermanentFailure, []), t') v' \<and>
        os_trace v' = [Sys (recv_call (open_socket 6)) ?r])"
    by auto
  from w'(2) c have "transmits (\<lambda>_. 9) w' ?r" unfolding transmits_def by blast
  with w' show ?thesis by blast
qed

end
