(* ===== verification/CL_WaitSet.thy ===== *)
theory CL_WaitSet
  imports CL_Source CL_Socket
begin

text \<open>
  \<^verbatim>\<open>Source/WaitSet.cpp\<close> with the platform files \<^verbatim>\<open>Linux/WaitSet_Linux.cpp\<close> (epoll) and
  \<^verbatim>\<open>Apple/WaitSet_Apple.cpp\<close> (kqueue): the set of registered sources and its mirror image in
  the kernel. Source objects live in a store, addressed by \<open>std::shared_ptr\<close> values (0 is null);
  \<open>std::set\<close> of pointers is the ascending list of addresses. The contract of a platform is a
  locale, interpreted for both.
\<close>

section \<open>Objects and sets of addresses\<close>

record source_store =
  sr_next :: nat
  sr_objects :: "nat \<Rightarrow> looperSource option"

definition store_empty :: source_store where
  "store_empty = \<lparr>sr_next = 1, sr_objects = (\<lambda>_. None)\<rparr>"

definition store_new :: "looperSource \<Rightarrow> source_store \<Rightarrow> nat \<times> source_store" where
  "store_new s st =
     (sr_next st, \<lparr>sr_next = Suc (sr_next st), sr_objects = (sr_objects st)(sr_next st \<mapsto> s)\<rparr>)"

definition deref :: "source_store \<Rightarrow> nat \<Rightarrow> os \<Rightarrow> looperSource outcome" where
  "deref st p = (case sr_objects st p of None \<Rightarrow> failM MemoryFault | Some s \<Rightarrow> returnM s)"

definition store_put :: "nat \<Rightarrow> looperSource \<Rightarrow> source_store \<Rightarrow> source_store" where
  "store_put p s st = st\<lparr>sr_objects := (sr_objects st)(p \<mapsto> s)\<rparr>"

definition set_contains :: "nat \<Rightarrow> nat list \<Rightarrow> bool" where
  "set_contains p ps \<longleftrightarrow> p \<in> set ps"

definition set_insert :: "nat \<Rightarrow> nat list \<Rightarrow> nat list" where
  "set_insert p ps = (if set_contains p ps then ps else insort p ps)"

definition set_erase :: "nat \<Rightarrow> nat list \<Rightarrow> nat list" where
  "set_erase p ps = remove1 p ps"

locale ordered_set =
  fixes contains :: "'a \<Rightarrow> 's \<Rightarrow> bool" and add :: "'a \<Rightarrow> 's \<Rightarrow> 's" and erase :: "'a \<Rightarrow> 's \<Rightarrow> 's"
    and elems :: "'s \<Rightarrow> 'a set" and ok :: "'s \<Rightarrow> bool"
  assumes contains_iff: "ok s \<Longrightarrow> contains x s \<longleftrightarrow> x \<in> elems s"
    and elems_add: "ok s \<Longrightarrow> elems (add x s) = insert x (elems s)"
    and elems_erase: "ok s \<Longrightarrow> elems (erase x s) = elems s - {x}"
    and ok_add: "ok s \<Longrightarrow> ok (add x s)"
    and ok_erase: "ok s \<Longrightarrow> ok (erase x s)"
begin

lemma erase_add: "ok s \<Longrightarrow> \<not> contains x s \<Longrightarrow> elems (erase x (add x s)) = elems s"
  by (simp add: elems_erase ok_add elems_add contains_iff)

lemma contains_add: "ok s \<Longrightarrow> contains y (add x s) \<longleftrightarrow> y = x \<or> contains y s"
  by (simp add: contains_iff ok_add elems_add)

lemma contains_erase: "ok s \<Longrightarrow> contains y (erase x s) \<longleftrightarrow> y \<noteq> x \<and> contains y s"
  by (auto simp: contains_iff ok_erase elems_erase)

end

interpretation addresses: ordered_set set_contains set_insert set_erase set "\<lambda>ps. sorted ps \<and> distinct ps"
  by unfold_locales
    (auto simp: set_contains_def set_insert_def set_erase_def set_insort_key sorted_insort
      distinct_insort sorted_remove1)

section \<open>The platform\<close>

datatype platform = Linux | Apple

definition platformHandleCreate_Linux :: "os \<Rightarrow> handle outcome" where
  "platformHandleCreate_Linux =
     bindM (CL_TEMP_FAILURE_RETRY EpollCreate) (\<lambda>r. seqM (CL_ASSERT (r_rc r \<noteq> -1)) (returnM (r_rc r)))"

definition platformHandleCreate_Apple :: "os \<Rightarrow> handle outcome" where
  "platformHandleCreate_Apple =
     bindM (CL_TEMP_FAILURE_RETRY Kqueue) (\<lambda>r. seqM (CL_ASSERT (r_rc r \<noteq> -1)) (returnM (r_rc r)))"

text \<open>The event structure is zeroed first, so an answer without an event gives the null pointer.\<close>

definition platformHandleWait_Linux :: "handle \<Rightarrow> os \<Rightarrow> nat outcome" where
  "platformHandleWait_Linux h =
     bindM (CL_TEMP_FAILURE_RETRY (EpollWait h)) (\<lambda>r.
       seqM (CL_ASSERT (r_rc r = 1)) (returnM (if r_rc r > 0 then r_ptr r else 0)))"

definition platformHandleWait_Apple :: "handle \<Rightarrow> os \<Rightarrow> nat outcome" where
  "platformHandleWait_Apple h =
     bindM (CL_TEMP_FAILURE_RETRY (KeventWait h)) (\<lambda>r.
       seqM (CL_ASSERT (r_rc r = 1)) (returnM (if r_rc r > 0 then r_ptr r else 0)))"

definition platformHandleDestory_Linux :: "handle \<Rightarrow> os \<Rightarrow> unit outcome" where
  "platformHandleDestory_Linux h = seqM (CL_CHECK (Close h)) (returnM ())"

definition platformHandleDestory_Apple :: "handle \<Rightarrow> os \<Rightarrow> unit outcome" where
  "platformHandleDestory_Apple h = seqM (CL_CHECK (Close h)) (returnM ())"

definition platformHandleCreate :: "platform \<Rightarrow> os \<Rightarrow> handle outcome" where
  "platformHandleCreate pf =
     (case pf of Linux \<Rightarrow> platformHandleCreate_Linux | Apple \<Rightarrow> platformHandleCreate_Apple)"

definition platformHandleWait :: "platform \<Rightarrow> handle \<Rightarrow> os \<Rightarrow> nat outcome" where
  "platformHandleWait pf =
     (case pf of Linux \<Rightarrow> platformHandleWait_Linux | Apple \<Rightarrow> platformHandleWait_Apple)"

definition platformHandleDestory :: "platform \<Rightarrow> handle \<Rightarrow> os \<Rightarrow> unit outcome" where
  "platformHandleDestory pf =
     (case pf of Linux \<Rightarrow> platformHandleDestory_Linux | Apple \<Rightarrow> platformHandleDestory_Apple)"

definition updateInWaitSetHandle ::
  "platform \<Rightarrow> user_code \<Rightarrow> nat \<Rightarrow> handle \<Rightarrow> bool \<Rightarrow> looperSource \<Rightarrow> os \<Rightarrow> looperSource outcome" where
  "updateInWaitSetHandle pf =
     (case pf of Linux \<Rightarrow> updateInWaitSetHandle_Linux | Apple \<Rightarrow> updateInWaitSetHandle_Apple)"

section \<open>Operations of the set\<close>

record waitSet =
  ws_handle :: handle
  ws_sources :: "nat list"

definition WaitSet_ctor :: "platform \<Rightarrow> os \<Rightarrow> waitSet outcome" where
  "WaitSet_ctor pf = bindM (platformHandleCreate pf) (\<lambda>h. returnM \<lparr>ws_handle = h, ws_sources = []\<rparr>)"

definition update_source ::
  "platform \<Rightarrow> user_code \<Rightarrow> handle \<Rightarrow> bool \<Rightarrow> nat \<Rightarrow> source_store \<Rightarrow> os \<Rightarrow> source_store outcome" where
  "update_source pf u h shouldAdd p st =
     bindM (deref st p) (\<lambda>s.
     bindM (updateInWaitSetHandle pf u p h shouldAdd s) (\<lambda>s'.
     returnM (store_put p s' st)))"

text \<open>
  The source changes the set first and then tells the kernel. Telling it reads nothing of the set but
  the handle of the queue, so the order is not visible.
\<close>

definition WaitSet_addSource ::
  "platform \<Rightarrow> user_code \<Rightarrow> nat \<Rightarrow> waitSet \<Rightarrow> source_store \<Rightarrow> os \<Rightarrow> (bool \<times> waitSet \<times> source_store) outcome" where
  "WaitSet_addSource pf u p ws st =
     (if set_contains p (ws_sources ws) then returnM (False, ws, st)
      else
        bindM (update_source pf u (ws_handle ws) True p st)
          (\<lambda>st'. returnM (True, ws\<lparr>ws_sources := set_insert p (ws_sources ws)\<rparr>, st')))"

definition WaitSet_removeSource ::
  "platform \<Rightarrow> user_code \<Rightarrow> nat \<Rightarrow> waitSet \<Rightarrow> source_store \<Rightarrow> os \<Rightarrow> (bool \<times> waitSet \<times> source_store) outcome" where
  "WaitSet_removeSource pf u p ws st =
     (if \<not> set_contains p (ws_sources ws) then returnM (False, ws, st)
      else
        bindM (update_source pf u (ws_handle ws) False p st)
          (\<lambda>st'. returnM (True, ws\<lparr>ws_sources := set_erase p (ws_sources ws)\<rparr>, st')))"

definition WaitSet_wait :: "platform \<Rightarrow> waitSet \<Rightarrow> os \<Rightarrow> nat outcome" where
  "WaitSet_wait pf ws = platformHandleWait pf (ws_handle ws)"

fun deregister_all ::
  "platform \<Rightarrow> user_code \<Rightarrow> handle \<Rightarrow> nat list \<Rightarrow> source_store \<Rightarrow> os \<Rightarrow> source_store outcome" where
  "deregister_all pf u h [] st = returnM st"
| "deregister_all pf u h (p # ps) st =
     bindM (update_source pf u h False p st) (deregister_all pf u h ps)"

definition WaitSet_dtor ::
  "platform \<Rightarrow> user_code \<Rightarrow> waitSet \<Rightarrow> source_store \<Rightarrow> os \<Rightarrow> source_store outcome" where
  "WaitSet_dtor pf u ws st =
     bindM (deregister_all pf u (ws_handle ws) (ws_sources ws) st)
       (\<lambda>st'. seqM (platformHandleDestory pf (ws_handle ws)) (returnM st'))"

section \<open>The registrations the kernel holds\<close>

text \<open>
  Documented behaviour of epoll and kqueue: a queue keeps, for each descriptor and filter, the
  pointer given when it was added; a call that failed changes nothing, and closing a descriptor
  removes its registrations.
\<close>

type_synonym interest = "handle \<times> kevent_filter \<Rightarrow> nat option"

fun interest_event :: "handle \<Rightarrow> interest \<Rightarrow> event \<Rightarrow> interest" where
  "interest_event q m (Sys (EpollCtl q' EPOLL_CTL_ADD fd p) r) =
     (if q' = q \<and> r_rc r = 0 then m((fd, EVFILT_READ) \<mapsto> p) else m)"
| "interest_event q m (Sys (EpollCtl q' EPOLL_CTL_DEL fd p) r) =
     (if q' = q \<and> r_rc r = 0 then m((fd, EVFILT_READ) := None) else m)"
| "interest_event q m (Sys (KeventChange q' fd filt EV_ADD ns data p) r) =
     (if q' = q \<and> r_rc r = 0 then m((fd, filt) \<mapsto> p) else m)"
| "interest_event q m (Sys (KeventChange q' fd filt EV_DELETE ns data p) r) =
     (if q' = q \<and> r_rc r = 0 then m((fd, filt) := None) else m)"
| "interest_event q m (Sys (Close fd) r) =
     (if r_rc r = 0 then (\<lambda>(h, f). if h = fd then None else m (h, f)) else m)"
| "interest_event q m e = m"

definition interest :: "handle \<Rightarrow> event list \<Rightarrow> interest" where
  "interest q es = foldl (interest_event q) (\<lambda>_. None) es"

lemma interest_append: "interest q (es @ es') = foldl (interest_event q) (interest q es) es'"
  by (simp add: interest_def)

text \<open>A source whose registration is an ordinary read event on handles it already has.\<close>

definition plain_source :: "looperSource \<Rightarrow> bool" where
  "plain_source s \<longleftrightarrow> so_handlesAllocated s \<and> so_customWaitSetUpdateHandler s = None"

text \<open>The contract: on such a source the update is one control call, with the effect described.\<close>

locale waitset_platform =
  fixes pf :: platform and control :: "handle \<Rightarrow> bool \<Rightarrow> handle \<Rightarrow> nat \<Rightarrow> syscall"
    and waiting :: "handle \<Rightarrow> syscall"
  assumes update_plain: "plain_source s \<Longrightarrow>
      updateInWaitSetHandle pf u p q b s w =
        bind_out (CL_TEMP_FAILURE_RETRY (control q b (fst (so_handles s)) p) w) (\<lambda>_. Done s)"
    and control_interest: "interest_event q m (Sys (control q b h p) r) =
      (if r_rc r = 0 then (if b then m((h, EVFILT_READ) \<mapsto> p) else m((h, EVFILT_READ) := None)) else m)"
    and wait_call: "platformHandleWait pf q w =
      bind_out (CL_TEMP_FAILURE_RETRY (waiting q) w) (\<lambda>r w'.
        bind_out (CL_ASSERT (r_rc r = 1) w') (\<lambda>_. Done (if r_rc r > 0 then r_ptr r else 0)))"
    and destroy_call: "platformHandleDestory pf q w = bind_out (CL_CHECK (Close q) w) (\<lambda>_. Done ())"

definition epoll_control :: "handle \<Rightarrow> bool \<Rightarrow> handle \<Rightarrow> nat \<Rightarrow> syscall" where
  "epoll_control q b h p = EpollCtl q (if b then EPOLL_CTL_ADD else EPOLL_CTL_DEL) h p"

definition kqueue_control :: "handle \<Rightarrow> bool \<Rightarrow> handle \<Rightarrow> nat \<Rightarrow> syscall" where
  "kqueue_control q b h p = KeventChange q h EVFILT_READ (if b then EV_ADD else EV_DELETE) False 0 p"

interpretation epoll: waitset_platform Linux epoll_control EpollWait
  by unfold_locales
    (simp_all add: updateInWaitSetHandle_def updateInWaitSetHandle_Linux_def plain_source_def
      readHandle_allocated LooperSource_UpdateEpollSource_def epoll_control_def platformHandleWait_def
      platformHandleWait_Linux_def platformHandleDestory_def platformHandleDestory_Linux_def
      returnM_eta seqM_eta bind_out_assoc)

interpretation kqueue: waitset_platform Apple kqueue_control KeventWait
  by unfold_locales
    (simp_all add: updateInWaitSetHandle_def updateInWaitSetHandle_Apple_def plain_source_def
      readHandle_allocated LooperSource_UpdateKeventSource_def kqueue_control_def platformHandleWait_def
      platformHandleWait_Apple_def platformHandleDestory_def platformHandleDestory_Apple_def
      returnM_eta seqM_eta bind_out_assoc)

section \<open>The set and its image in the kernel\<close>

datatype ws_op = AddSource nat | RemoveSource nat

fun ws_run :: "platform \<Rightarrow> user_code \<Rightarrow> ws_op list \<Rightarrow> waitSet \<Rightarrow> source_store \<Rightarrow> os \<Rightarrow>
    (bool list \<times> waitSet \<times> source_store) outcome" where
  "ws_run pf u [] ws st = returnM ([], ws, st)"
| "ws_run pf u (AddSource p # ops) ws st =
     bindM (WaitSet_addSource pf u p ws st) (\<lambda>(b, ws', st').
     bindM (ws_run pf u ops ws' st') (\<lambda>(bs, ws'', st''). returnM (b # bs, ws'', st'')))"
| "ws_run pf u (RemoveSource p # ops) ws st =
     bindM (WaitSet_removeSource pf u p ws st) (\<lambda>(b, ws', st').
     bindM (ws_run pf u ops ws' st') (\<lambda>(bs, ws'', st''). returnM (b # bs, ws'', st'')))"

text \<open>The abstract specification: a mathematical set, and whether each operation changed it.\<close>

fun set_run :: "ws_op list \<Rightarrow> nat set \<Rightarrow> bool list \<times> nat set" where
  "set_run [] A = ([], A)"
| "set_run (AddSource p # ops) A =
     (let (bs, B) = set_run ops (insert p A) in ((p \<notin> A) # bs, B))"
| "set_run (RemoveSource p # ops) A =
     (let (bs, B) = set_run ops (A - {p}) in ((p \<in> A) # bs, B))"

definition WaitSet_wf :: "waitSet \<Rightarrow> bool" where
  "WaitSet_wf ws \<longleftrightarrow> sorted (ws_sources ws) \<and> distinct (ws_sources ws)"

text \<open>Plain sources with pairwise different read handles.\<close>

definition plain_store :: "source_store \<Rightarrow> bool" where
  "plain_store st \<longleftrightarrow>
     (\<forall>p s. sr_objects st p = Some s \<longrightarrow> plain_source s) \<and>
     (\<forall>p p' s s'. sr_objects st p = Some s \<longrightarrow> sr_objects st p' = Some s' \<longrightarrow>
        fst (so_handles s) = fst (so_handles s') \<longrightarrow> p = p')"

text \<open>The kernel holds exactly one registration per member: its read handle, with its address.\<close>

definition synced :: "waitSet \<Rightarrow> source_store \<Rightarrow> interest \<Rightarrow> bool" where
  "synced ws st m \<longleftrightarrow>
     (\<forall>h f p. m (h, f) = Some p \<longleftrightarrow>
        f = EVFILT_READ \<and> p \<in> set (ws_sources ws) \<and>
        (\<exists>s. sr_objects st p = Some s \<and> fst (so_handles s) = h))"

definition all_succeed :: "os \<Rightarrow> bool" where
  "all_succeed w \<longleftrightarrow> (\<forall>r \<in> set (os_script w). r_rc r = 0)"

lemma all_succeed_retry:
  assumes "CL_TEMP_FAILURE_RETRY c w = Done r w'" "all_succeed w"
  shows "r_rc r = 0 \<and> w' = answered c [r] w \<and> all_succeed w'"
proof (cases "os_script w")
  case Nil
  then show ?thesis
    using assms(1) by (subst (asm) CL_TEMP_FAILURE_RETRY.simps) (simp add: sys_Nil)
next
  case (Cons x xs)
  then have "r_rc x = 0" using assms(2) by (simp add: all_succeed_def)
  with Cons assms show ?thesis
    by (auto simp: retry_step interrupted_def all_succeed_def)
qed

lemma store_put_same: "sr_objects st p = Some s \<Longrightarrow> store_put p s st = st"
  by (simp add: store_put_def fun_upd_idem)

lemma synced_add:
  assumes "synced ws st m" "sr_objects st p = Some s" "p \<notin> set (ws_sources ws)" "plain_store st"
  shows "synced (ws\<lparr>ws_sources := insort p (ws_sources ws)\<rparr>) st (m((fst (so_handles s), EVFILT_READ) \<mapsto> p))"
  using assms unfolding synced_def plain_store_def
  by (auto simp: set_insort_key)

lemma synced_remove:
  assumes "synced ws st m" "sr_objects st p = Some s" "distinct (ws_sources ws)" "plain_store st"
  shows "synced (ws\<lparr>ws_sources := remove1 p (ws_sources ws)\<rparr>) st (m((fst (so_handles s), EVFILT_READ) := None))"
  unfolding synced_def
proof (intro allI)
  fix h f q
  have m: "m (h, f) = Some q \<longleftrightarrow> f = EVFILT_READ \<and> q \<in> set (ws_sources ws) \<and>
      (\<exists>t. sr_objects st q = Some t \<and> fst (so_handles t) = h)"
    using assms(1) unfolding synced_def by blast
  have inj: "q = p" if "sr_objects st q = Some t" "fst (so_handles t) = fst (so_handles s)" for t
    using assms(2,4) that unfolding plain_store_def by blast
  have rem: "set (remove1 p (ws_sources ws)) = set (ws_sources ws) - {p}"
    using assms(3) by simp
  show "(m((fst (so_handles s), EVFILT_READ) := None)) (h, f) = Some q \<longleftrightarrow>
      f = EVFILT_READ \<and>
      q \<in> set (ws_sources (ws\<lparr>ws_sources := remove1 p (ws_sources ws)\<rparr>)) \<and>
      (\<exists>t. sr_objects st q = Some t \<and> fst (so_handles t) = h)"
  proof (cases "(h, f) = (fst (so_handles s), EVFILT_READ)")
    case True
    then show ?thesis using inj rem by auto
  next
    case False
    then have "q \<noteq> p" if "sr_objects st q = Some t" "fst (so_handles t) = h" "f = EVFILT_READ" for t
      using that assms(2) by auto
    with False m rem show ?thesis by auto
  qed
qed

context waitset_platform
begin

lemma update_source_plain:
  assumes "update_source pf u q b p st w = Done st' w'" "plain_store st" "all_succeed w"
  obtains s r where "sr_objects st p = Some s" "plain_source s" "st' = st" "r_rc r = 0"
    "w' = answered (control q b (fst (so_handles s)) p) [r] w" "all_succeed w'"
proof (cases "sr_objects st p")
  case None
  then show ?thesis using assms(1) by (simp add: update_source_def deref_def)
next
  case (Some s)
  then have plain: "plain_source s" using assms(2) unfolding plain_store_def by blast
  with Some assms(1) obtain r where r:
    "CL_TEMP_FAILURE_RETRY (control q b (fst (so_handles s)) p) w = Done r w'" "st' = store_put p s st"
    by (auto simp: update_source_def deref_def update_plain bind_out_Done_iff)
  from all_succeed_retry [OF r(1) assms(3)] r(2) Some plain store_put_same [OF Some]
  show ?thesis by (intro that [of s r]) auto
qed

lemma interest_answered:
  assumes "r_rc r = 0"
  shows "interest q (os_trace (answered (control q b h p) [r] w)) =
    (if b then (interest q (os_trace w))((h, EVFILT_READ) \<mapsto> p)
     else (interest q (os_trace w))((h, EVFILT_READ) := None))"
  using assms by (simp add: interest_append control_interest)

lemma addSource_simulates:
  assumes "WaitSet_addSource pf u p ws st w = Done (b, ws', st') w'" "WaitSet_wf ws" "plain_store st"
    "synced ws st (interest (ws_handle ws) (os_trace w))" "all_succeed w"
  shows "b \<longleftrightarrow> p \<notin> set (ws_sources ws)" "set (ws_sources ws') = insert p (set (ws_sources ws))"
    "st' = st" "WaitSet_wf ws'" "all_succeed w'"
    "synced ws' st (interest (ws_handle ws') (os_trace w'))"
proof -
  have "(b \<longleftrightarrow> p \<notin> set (ws_sources ws)) \<and> set (ws_sources ws') = insert p (set (ws_sources ws)) \<and>
    st' = st \<and> WaitSet_wf ws' \<and> all_succeed w' \<and> synced ws' st (interest (ws_handle ws') (os_trace w'))"
  proof (cases "p \<in> set (ws_sources ws)")
    case True
    with assms show ?thesis by (auto simp: WaitSet_addSource_def set_contains_def)
  next
    case False
    with assms(1) have upd: "update_source pf u (ws_handle ws) True p st w = Done st' w'" "b"
      and ws': "ws' = ws\<lparr>ws_sources := set_insert p (ws_sources ws)\<rparr>"
      by (auto simp: WaitSet_addSource_def set_contains_def bind_out_Done_iff)
    from upd(1) assms(3,5) obtain s r where s: "sr_objects st p = Some s" "st' = st" "r_rc r = 0"
      "w' = answered (control (ws_handle ws) True (fst (so_handles s)) p) [r] w" "all_succeed w'"
      by (rule update_source_plain)
    have "set_insert p (ws_sources ws) = insort p (ws_sources ws)"
      using False by (simp add: set_insert_def set_contains_def)
    moreover from this have "WaitSet_wf ws'"
      using addresses.ok_add [of "ws_sources ws" p] assms(2) ws' by (simp add: WaitSet_wf_def)
    ultimately show ?thesis
      using s upd(2) False ws' synced_add [OF assms(4) s(1) False assms(3)]
        interest_answered [OF s(3), of "ws_handle ws" True]
      by (simp add: set_insort_key)
  qed
  then show "b \<longleftrightarrow> p \<notin> set (ws_sources ws)" "set (ws_sources ws') = insert p (set (ws_sources ws))"
    "st' = st" "WaitSet_wf ws'" "all_succeed w'"
    "synced ws' st (interest (ws_handle ws') (os_trace w'))"
    by blast+
qed

lemma removeSource_simulates:
  assumes "WaitSet_removeSource pf u p ws st w = Done (b, ws', st') w'" "WaitSet_wf ws" "plain_store st"
    "synced ws st (interest (ws_handle ws) (os_trace w))" "all_succeed w"
  shows "b \<longleftrightarrow> p \<in> set (ws_sources ws)" "set (ws_sources ws') = set (ws_sources ws) - {p}"
    "st' = st" "WaitSet_wf ws'" "all_succeed w'"
    "synced ws' st (interest (ws_handle ws') (os_trace w'))"
proof -
  have "(b \<longleftrightarrow> p \<in> set (ws_sources ws)) \<and> set (ws_sources ws') = set (ws_sources ws) - {p} \<and>
    st' = st \<and> WaitSet_wf ws' \<and> all_succeed w' \<and> synced ws' st (interest (ws_handle ws') (os_trace w'))"
  proof (cases "p \<in> set (ws_sources ws)")
    case False
    with assms show ?thesis by (auto simp: WaitSet_removeSource_def set_contains_def)
  next
    case True
    with assms(1) have upd: "update_source pf u (ws_handle ws) False p st w = Done st' w'" "b"
      and ws': "ws' = ws\<lparr>ws_sources := set_erase p (ws_sources ws)\<rparr>"
      by (auto simp: WaitSet_removeSource_def set_contains_def bind_out_Done_iff)
    from upd(1) assms(3,5) obtain s r where s: "sr_objects st p = Some s" "st' = st" "r_rc r = 0"
      "w' = answered (control (ws_handle ws) False (fst (so_handles s)) p) [r] w" "all_succeed w'"
      by (rule update_source_plain)
    have wf: "sorted (ws_sources ws) \<and> distinct (ws_sources ws)" using assms(2) by (simp add: WaitSet_wf_def)
    from addresses.ok_erase [OF this, of p] have "WaitSet_wf ws'" using ws' by (simp add: WaitSet_wf_def)
    moreover have "set (ws_sources ws') = set (ws_sources ws) - {p}"
      using addresses.elems_erase [OF wf, of p] ws' by simp
    ultimately show ?thesis
      using s upd(2) True ws' synced_remove [OF assms(4) s(1) _ assms(3)] wf
        interest_answered [OF s(3), of "ws_handle ws" False]
      by (simp add: set_erase_def)
  qed
  then show "b \<longleftrightarrow> p \<in> set (ws_sources ws)" "set (ws_sources ws') = set (ws_sources ws) - {p}"
    "st' = st" "WaitSet_wf ws'" "all_succeed w'"
    "synced ws' st (interest (ws_handle ws') (os_trace w'))"
    by blast+
qed

lemma run_simulates:
  assumes "ws_run pf u ops ws st w = Done (bs, ws', st') w'" "WaitSet_wf ws" "plain_store st"
    "synced ws st (interest (ws_handle ws) (os_trace w))" "all_succeed w"
  shows "(bs, set (ws_sources ws')) = set_run ops (set (ws_sources ws)) \<and> WaitSet_wf ws' \<and>
    synced ws' st' (interest (ws_handle ws') (os_trace w'))"
  using assms
proof (induction ops arbitrary: ws st w bs)
  case (Cons op ops)
  show ?case
  proof (cases op)
    case (AddSource p)
    with Cons.prems(1) obtain b ws1 st1 w1 bs1 where
      1: "WaitSet_addSource pf u p ws st w = Done (b, ws1, st1) w1" and
      2: "ws_run pf u ops ws1 st1 w1 = Done (bs1, ws', st') w'" and bs: "bs = b # bs1"
      by (auto simp: bind_out_Done_iff)
    note sim = addSource_simulates [OF 1 Cons.prems(2-5)]
    from 2 have "ws_run pf u ops ws1 st w1 = Done (bs1, ws', st') w'" unfolding sim(3) .
    note IH = Cons.IH [OF this sim(4) Cons.prems(3) sim(6) sim(5), unfolded sim(2)]
    then have "set_run (op # ops) (set (ws_sources ws)) = (bs, set (ws_sources ws'))"
      unfolding AddSource set_run.simps by (simp add: bs sim(1) flip: IH [THEN conjunct1])
    with IH show ?thesis by simp
  next
    case (RemoveSource p)
    with Cons.prems(1) obtain b ws1 st1 w1 bs1 where
      1: "WaitSet_removeSource pf u p ws st w = Done (b, ws1, st1) w1" and
      2: "ws_run pf u ops ws1 st1 w1 = Done (bs1, ws', st') w'" and bs: "bs = b # bs1"
      by (auto simp: bind_out_Done_iff)
    note sim = removeSource_simulates [OF 1 Cons.prems(2-5)]
    from 2 have "ws_run pf u ops ws1 st w1 = Done (bs1, ws', st') w'" unfolding sim(3) .
    note IH = Cons.IH [OF this sim(4) Cons.prems(3) sim(6) sim(5), unfolded sim(2)]
    then have "set_run (op # ops) (set (ws_sources ws)) = (bs, set (ws_sources ws'))"
      unfolding RemoveSource set_run.simps by (simp add: bs sim(1) flip: IH [THEN conjunct1])
    with IH show ?thesis by simp
  qed
qed simp

lemma deregister_all_simulates:
  assumes "deregister_all pf u (ws_handle ws) ps st w = Done st' w'" "distinct ps" "plain_store st"
    "synced (ws\<lparr>ws_sources := ps\<rparr>) st (interest (ws_handle ws) (os_trace w))" "all_succeed w"
  shows "st' = st \<and> all_succeed w' \<and> interest (ws_handle ws) (os_trace w') = (\<lambda>_. None) \<and>
    (\<exists>rs. length rs = length ps \<and> os_trace w' = os_trace w @
      map2 (\<lambda>p. Sys (control (ws_handle ws) False (fst (so_handles (the (sr_objects st p)))) p)) ps rs)"
  using assms
proof (induction ps arbitrary: w)
  case Nil
  then have "interest (ws_handle ws) (os_trace w) x = None" for x
    by (cases x, cases "interest (ws_handle ws) (os_trace w) x") (auto simp: synced_def)
  with Nil show ?case by auto
next
  case (Cons p ps)
  from Cons.prems(1) obtain st1 w1 where 1: "update_source pf u (ws_handle ws) False p st w = Done st1 w1"
      and 2: "deregister_all pf u (ws_handle ws) ps st1 w1 = Done st' w'"
    by (auto simp: bind_out_Done_iff)
  from 1 Cons.prems(3,5) obtain s r where s: "sr_objects st p = Some s" "st1 = st" "r_rc r = 0"
    "w1 = answered (control (ws_handle ws) False (fst (so_handles s)) p) [r] w" "all_succeed w1"
    by (rule update_source_plain)
  have "synced (ws\<lparr>ws_sources := ps\<rparr>) st (interest (ws_handle ws) (os_trace w1))"
    using synced_remove [OF Cons.prems(4) s(1) _ Cons.prems(3)] Cons.prems(2)
      interest_answered [OF s(3), of "ws_handle ws" False] s(4)
    by simp
  with Cons.IH [of w1] 2 s Cons.prems(2,3) obtain rs where IH: "st' = st" "all_succeed w'"
    "interest (ws_handle ws) (os_trace w') = (\<lambda>_. None)" "length rs = length ps"
    "os_trace w' = os_trace w1 @
      map2 (\<lambda>p. Sys (control (ws_handle ws) False (fst (so_handles (the (sr_objects st p)))) p)) ps rs"
    by auto
  then show ?case
    using s by (intro conjI exI [of _ "r # rs"]) simp_all
qed

lemma dtor_simulates:
  assumes "WaitSet_dtor pf u ws st w = Done st' w'" "WaitSet_wf ws" "plain_store st"
    "synced ws st (interest (ws_handle ws) (os_trace w))" "all_succeed w"
  shows "\<exists>rs r. length rs = length (ws_sources ws) \<and> r_rc r = 0 \<and>
    (let removals = map2 (\<lambda>p. Sys (control (ws_handle ws) False
           (fst (so_handles (the (sr_objects st p)))) p)) (ws_sources ws) rs in
     os_trace w' = os_trace w @ removals @ [Sys (Close (ws_handle ws)) r] \<and>
     interest (ws_handle ws) (os_trace w @ removals) = (\<lambda>_. None))"
proof -
  from assms(1) obtain w1 where
    1: "deregister_all pf u (ws_handle ws) (ws_sources ws) st w = Done st' w1" and
    2: "platformHandleDestory pf (ws_handle ws) w1 = Done () w'"
    by (auto simp: WaitSet_dtor_def bind_out_Done_iff)
  have "distinct (ws_sources ws)" using assms(2) by (simp add: WaitSet_wf_def)
  from deregister_all_simulates [OF 1 this assms(3) _ assms(5)] assms(4) obtain rs where
    rs: "all_succeed w1" "interest (ws_handle ws) (os_trace w1) = (\<lambda>_. None)"
    "length rs = length (ws_sources ws)"
    "os_trace w1 = os_trace w @
      map2 (\<lambda>p. Sys (control (ws_handle ws) False (fst (so_handles (the (sr_objects st p)))) p)) (ws_sources ws) rs"
    by auto
  obtain r where "os_script w1 = r # os_script w'" "r_rc r = 0" "w' = answered (Close (ws_handle ws)) [r] w1"
  proof (cases "os_script w1")
    case Nil
    then show ?thesis using 2 by (simp add: destroy_call CL_CHECK_def CL_CHECK_EXPECT_def sys_Nil)
  next
    case (Cons r xs)
    with rs(1) have "r_rc r = 0" by (simp add: all_succeed_def)
    with Cons 2 show ?thesis by (intro that [of r]) (auto simp: destroy_call CL_CHECK_success)
  qed
  with rs show ?thesis by (intro exI [of _ rs] exI [of _ r]) (simp add: Let_def)
qed

lemma wait_member:
  assumes "synced ws st (interest (ws_handle ws) (os_trace w))" "os_script w = is @ r # rest"
    "\<forall>i \<in> set is. interrupted i" "r_rc r = 1" "r_ptr r \<in> ran (interest (ws_handle ws) (os_trace w))"
  shows "WaitSet_wait pf ws w = Done (r_ptr r) (answered (waiting (ws_handle ws)) (is @ [r]) w)"
    "r_ptr r \<in> set (ws_sources ws)"
proof -
  have "\<not> interrupted r" using assms(4) by (simp add: interrupted_def)
  from retry_interrupted [OF assms(2,3) this] assms(4)
  show "WaitSet_wait pf ws w = Done (r_ptr r) (answered (waiting (ws_handle ws)) (is @ [r]) w)"
    by (simp add: WaitSet_wait_def wait_call CL_ASSERT_holds)
  from assms(5) obtain k where "interest (ws_handle ws) (os_trace w) k = Some (r_ptr r)"
    by (auto simp: ran_def)
  with assms(1) show "r_ptr r \<in> set (ws_sources ws)"
    by (cases k) (auto simp: synced_def)
qed

lemma add_refused:
  assumes "p \<notin> set (ws_sources ws)" "sr_objects st p = Some s" "plain_source s"
    "os_script w = r # rest" "r_rc r \<noteq> 0" "\<not> interrupted r"
  shows "\<exists>w'. WaitSet_addSource pf u p ws st w =
      Done (True, ws\<lparr>ws_sources := insort p (ws_sources ws)\<rparr>, st) w' \<and>
    interest (ws_handle ws) (os_trace w') = interest (ws_handle ws) (os_trace w)"
  using assms
  by (simp add: WaitSet_addSource_def set_contains_def set_insert_def update_source_def deref_def
      update_plain retry_step store_put_same interest_append control_interest)

end

section \<open>Properties\<close>

text \<open>
  C12: A wait set is a set, and the kernel agrees. On either platform, for plain sources with
  different descriptors and a kernel that grants every call, any sequence of \<^verbatim>\<open>addSource\<close> and
  \<^verbatim>\<open>removeSource\<close> returns what a mathematical set would, ends with the same members, and leaves
  exactly one registration per member in the kernel: its descriptor with its address.
\<close>

theorem WaitSet_refines_set:
  assumes "ws_run pf u ops ws st w = Done (bs, ws', st') w'" "WaitSet_wf ws" "plain_store st"
    "synced ws st (interest (ws_handle ws) (os_trace w))" "all_succeed w"
  shows "(bs, set (ws_sources ws')) = set_run ops (set (ws_sources ws)) \<and> WaitSet_wf ws' \<and>
    synced ws' st' (interest (ws_handle ws') (os_trace w'))"
  using epoll.run_simulates kqueue.run_simulates assms by (cases pf) blast+

text \<open>
  \<^verbatim>\<open>wait\<close> returns a member: if the kernel reports an event it was registered for, after any
  number of interruptions, the result is the address of a source of the set.
\<close>

theorem WaitSet_wait_returns_member:
  assumes "synced ws st (interest (ws_handle ws) (os_trace w))" "os_script w = is @ r # rest"
    "\<forall>i \<in> set is. interrupted i" "r_rc r = 1" "r_ptr r \<in> ran (interest (ws_handle ws) (os_trace w))"
  shows "\<exists>w'. WaitSet_wait pf ws w = Done (r_ptr r) w' \<and> r_ptr r \<in> set (ws_sources ws) \<and>
    os_script w' = rest"
  using epoll.wait_member [OF assms] kqueue.wait_member [OF assms] assms(2) by (cases pf) simp_all

text \<open>
  Destruction deregisters every source, in the order of addresses and once each, so that no
  registration is left when the queue is closed, once and last.
\<close>

theorem WaitSet_dtor_deregisters:
  assumes "WaitSet_dtor pf u ws st w = Done st' w'" "WaitSet_wf ws" "plain_store st"
    "synced ws st (interest (ws_handle ws) (os_trace w))" "all_succeed w"
  shows "\<exists>rs r. length rs = length (ws_sources ws) \<and> r_rc r = 0 \<and>
    (let removals = map2 (\<lambda>p. Sys ((case pf of Linux \<Rightarrow> epoll_control | Apple \<Rightarrow> kqueue_control)
           (ws_handle ws) False (fst (so_handles (the (sr_objects st p)))) p)) (ws_sources ws) rs in
     os_trace w' = os_trace w @ removals @ [Sys (Close (ws_handle ws)) r] \<and>
     interest (ws_handle ws) (os_trace w @ removals) = (\<lambda>_. None))"
proof (cases pf)
  case Linux
  with assms epoll.dtor_simulates [of u ws st w st' w'] show ?thesis by simp
next
  case Apple
  with assms kqueue.dtor_simulates [of u ws st w st' w'] show ?thesis by simp
qed

text \<open>
  A registration the kernel refuses is reported as a success: \<^verbatim>\<open>addSource\<close> ignores the result
  of the control call, so the source is a member, later additions return false, and the kernel
  will never report it.
\<close>

theorem WaitSet_add_ignores_refusal:
  assumes "p \<notin> set (ws_sources ws)" "sr_objects st p = Some s" "plain_source s"
    "os_script w = r # rest" "r_rc r \<noteq> 0" "\<not> interrupted r"
  shows "\<exists>ws' w'. WaitSet_addSource pf u p ws st w = Done (True, ws', st) w' \<and>
    p \<in> set (ws_sources ws') \<and>
    interest (ws_handle ws) (os_trace w') = interest (ws_handle ws) (os_trace w) \<and>
    (\<forall>v. WaitSet_addSource pf u p ws' st v = Done (False, ws', st) v)"
proof -
  obtain w' where "WaitSet_addSource pf u p ws st w =
      Done (True, ws\<lparr>ws_sources := insort p (ws_sources ws)\<rparr>, st) w'"
    "interest (ws_handle ws) (os_trace w') = interest (ws_handle ws) (os_trace w)"
    using epoll.add_refused [OF assms] kqueue.add_refused [OF assms] by (cases pf) metis+
  then show ?thesis
    by (intro exI [of _ "ws\<lparr>ws_sources := insort p (ws_sources ws)\<rparr>"] exI [of _ w'])
      (simp add: WaitSet_addSource_def set_contains_def set_insort_key)
qed

text \<open>
  C31: On Apple all timers of a wait set share one registration, since each is added under its
  read handle \<open>-1\<close>. Adding a second one replaces the first in the kernel, so that only the second
  ever fires; and removing either removes the registration of both, although the other one
  stays a member of the set.
\<close>

theorem Apple_timers_collide:
  assumes "p \<noteq> q" "r \<in> {p, q}" "sr_objects st p = Some (AsTimer_Apple d)" "sr_objects st q = Some (AsTimer_Apple e)"
    "ws_sources ws = []" "interest (ws_handle ws) (os_trace w) = (\<lambda>_. None)" "os_script w = [r1, r2, r3]" "all_succeed w"
  shows "\<exists>ws1 st1 w1 ws2 st2 w2 ws3 st3 w3.
    WaitSet_addSource Apple u p ws st w = Done (True, ws1, st1) w1 \<and>
    interest (ws_handle ws) (os_trace w1) = [(-1, EVFILT_TIMER) \<mapsto> p] \<and>
    WaitSet_addSource Apple u q ws1 st1 w1 = Done (True, ws2, st2) w2 \<and>
    set (ws_sources ws2) = {p, q} \<and> interest (ws_handle ws) (os_trace w2) = [(-1, EVFILT_TIMER) \<mapsto> q] \<and>
    WaitSet_removeSource Apple u r ws2 st2 w2 = Done (True, ws3, st3) w3 \<and>
    set (ws_sources ws3) = {p, q} - {r} \<and> interest (ws_handle ws) (os_trace w3) = (\<lambda>_. None)"
  using assms
  by (auto simp: WaitSet_addSource_def WaitSet_removeSource_def set_contains_def set_insert_def
      set_erase_def update_source_def deref_def updateInWaitSetHandle_def updateInWaitSetHandle_Apple_def
      LooperSource_readHandle_def LooperSource_handles_def AsTimer_Apple_def LooperSource_ctor_def
      LooperSource_setCustomWaitSetUpdateHandler_def kevent_timer_update_def LooperSource_UpdateKeventSource_def retry_step interrupted_def
      all_succeed_def store_put_def interest_append)

section \<open>Examples of the properties\<close>

text \<open>Two sources on the descriptors 7 and 8, in a store.\<close>

definition source_on :: "handle \<Rightarrow> looperSource" where
  "source_on h = (LooperSource_ctor (Some (FixedHandles h h)) None None None)
     \<lparr>so_handles := (h, h), so_handlesAllocated := True\<rparr>"

definition two_sources :: source_store where
  "two_sources = \<lparr>sr_next = 7, sr_objects = [5 \<mapsto> source_on 7, 6 \<mapsto> source_on 8]\<rparr>"

lemma source_on_simps [simp]:
  "plain_source (source_on h)" "so_handles (source_on h) = (h, h)"
  by (simp_all add: source_on_def plain_source_def LooperSource_ctor_def)

lemma two_sources_simps [simp]:
  "plain_store two_sources" "sr_objects two_sources 5 = Some (source_on 7)"
  "sr_objects two_sources 6 = Some (source_on 8)"
  by (auto simp: plain_store_def two_sources_def split: if_splits)

lemma synced_empty [simp]: "synced \<lparr>ws_handle = h, ws_sources = []\<rparr> st (\<lambda>_. None)"
  by (simp add: synced_def)

lemma interest_Nil [simp]: "interest q [] = (\<lambda>_. None)"
  by (simp add: interest_def)

text \<open>A set that holds the source at 5, with its registration in the trace.\<close>

definition one_member :: waitSet where
  "one_member = \<lparr>ws_handle = 4, ws_sources = [5]\<rparr>"

definition registered_os :: "sysres list \<Rightarrow> os" where
  "registered_os rs = (start_os False rs)\<lparr>os_trace := [Sys (EpollCtl 4 EPOLL_CTL_ADD 7 5) (reply 0 ENONE)]\<rparr>"

lemma registered_os_simps [simp]:
  "os_script (registered_os rs) = rs"
  "interest 4 (os_trace (registered_os rs)) = [(7, EVFILT_READ) \<mapsto> 5]"
  "synced one_member two_sources [(7, EVFILT_READ) \<mapsto> 5]"
  "ws_handle one_member = 4" "ws_sources one_member = [5]"
  by (auto simp: registered_os_def one_member_def interest_def synced_def two_sources_def)

theorem WaitSet_refines_set_witness:
  "\<exists>bs ws' st' w'. ws_run Linux no_user_code [AddSource 6, AddSource 5, AddSource 6, RemoveSource 6]
      \<lparr>ws_handle = 4, ws_sources = []\<rparr> two_sources (start_os False [reply 0 ENONE, reply 0 ENONE, reply 0 ENONE]) =
      Done (bs, ws', st') w' \<and>
    (bs, set (ws_sources ws')) = ([True, True, False, True], {5}) \<and> WaitSet_wf ws' \<and>
    synced ws' st' (interest (ws_handle ws') (os_trace w'))"
proof -
  have "\<exists>bs ws' st' w'. ws_run Linux no_user_code [AddSource 6, AddSource 5, AddSource 6, RemoveSource 6]
      \<lparr>ws_handle = 4, ws_sources = []\<rparr> two_sources (start_os False [reply 0 ENONE, reply 0 ENONE, reply 0 ENONE]) =
      Done (bs, ws', st') w'"
    by (simp add: WaitSet_addSource_def WaitSet_removeSource_def set_contains_def
        set_insert_def set_erase_def update_source_def deref_def epoll.update_plain retry_step
        interrupted_def store_put_same)
  then obtain bs ws' st' w' where r: "ws_run Linux no_user_code
      [AddSource 6, AddSource 5, AddSource 6, RemoveSource 6]
      \<lparr>ws_handle = 4, ws_sources = []\<rparr> two_sources (start_os False [reply 0 ENONE, reply 0 ENONE, reply 0 ENONE]) =
      Done (bs, ws', st') w'"
    by blast
  have "(bs, set (ws_sources ws')) = set_run [AddSource 6, AddSource 5, AddSource 6, RemoveSource 6]
        (set (ws_sources \<lparr>ws_handle = 4, ws_sources = []\<rparr>)) \<and>
      WaitSet_wf ws' \<and> synced ws' st' (interest (ws_handle ws') (os_trace w'))"
    by (rule WaitSet_refines_set [OF r]) (simp_all add: WaitSet_wf_def all_succeed_def)
  moreover have "set_run [AddSource 6, AddSource 5, AddSource 6, RemoveSource 6]
      (set (ws_sources \<lparr>ws_handle = 4, ws_sources = []\<rparr>)) = ([True, True, False, True], {5})"
    by auto
  ultimately show ?thesis using r by metis
qed

theorem WaitSet_wait_returns_member_witness:
  "\<exists>w'. WaitSet_wait Linux one_member
      (registered_os [reply (-1) EINTR, (reply 1 ENONE)\<lparr>r_ptr := 5\<rparr>]) = Done 5 w' \<and>
    5 \<in> set (ws_sources one_member) \<and> os_script w' = []"
  using WaitSet_wait_returns_member [of one_member two_sources
      "registered_os [reply (-1) EINTR, (reply 1 ENONE)\<lparr>r_ptr := 5\<rparr>]" "[reply (-1) EINTR]"
      "(reply 1 ENONE)\<lparr>r_ptr := 5\<rparr>" "[]" Linux]
  by (simp add: interrupted_def)

theorem WaitSet_dtor_deregisters_witness:
  "\<exists>st' w' rs r. WaitSet_dtor Linux no_user_code one_member two_sources
      (registered_os [reply 0 ENONE, reply 0 ENONE]) = Done st' w' \<and> r_rc r = 0 \<and> length rs = 1 \<and>
    os_trace w' = os_trace (registered_os []) @
      map2 (\<lambda>p. Sys (epoll_control 4 False (fst (so_handles (the (sr_objects two_sources p)))) p)) [5] rs @
      [Sys (Close 4) r]"
proof -
  have "\<exists>st' w'. WaitSet_dtor Linux no_user_code one_member two_sources
      (registered_os [reply 0 ENONE, reply 0 ENONE]) = Done st' w'"
    by (simp add: WaitSet_dtor_def update_source_def deref_def epoll.update_plain retry_step
        interrupted_def store_put_same epoll.destroy_call CL_CHECK_success)
  then obtain st' w' where r: "WaitSet_dtor Linux no_user_code one_member two_sources
      (registered_os [reply 0 ENONE, reply 0 ENONE]) = Done st' w'"
    by blast
  have "synced one_member two_sources
      (interest (ws_handle one_member) (os_trace (registered_os [reply 0 ENONE, reply 0 ENONE])))"
    by simp
  from WaitSet_dtor_deregisters [OF r _ _ this] r show ?thesis
    by (auto simp: WaitSet_wf_def all_succeed_def registered_os_def Let_def)
qed

theorem WaitSet_add_ignores_refusal_witness:
  "\<exists>ws' w'. WaitSet_addSource Linux no_user_code 5 \<lparr>ws_handle = 4, ws_sources = []\<rparr> two_sources
      (start_os False [reply (-1) EEXIST]) = Done (True, ws', two_sources) w' \<and>
    5 \<in> set (ws_sources ws') \<and>
    interest (ws_handle \<lparr>ws_handle = 4, ws_sources = []\<rparr>) (os_trace w') =
      interest (ws_handle \<lparr>ws_handle = 4, ws_sources = []\<rparr>) (os_trace (start_os False [reply (-1) EEXIST])) \<and>
    (\<forall>v. WaitSet_addSource Linux no_user_code 5 ws' two_sources v = Done (False, ws', two_sources) v)"
  by (rule WaitSet_add_ignores_refusal [where s = "source_on 7" and r = "reply (-1) EEXIST" and rest = "[]"])
    (simp_all add: interrupted_def)

theorem Apple_timers_collide_witness:
  "\<exists>ws1 st1 w1 ws2 st2 w2 ws3 st3 w3.
    WaitSet_addSource Apple no_user_code 2 \<lparr>ws_handle = 4, ws_sources = []\<rparr>
      \<lparr>sr_next = 4, sr_objects = [2 \<mapsto> AsTimer_Apple 10, 3 \<mapsto> AsTimer_Apple 20]\<rparr>
      (start_os False [reply 0 ENONE, reply 0 ENONE, reply 0 ENONE]) = Done (True, ws1, st1) w1 \<and>
    interest 4 (os_trace w1) = [(-1, EVFILT_TIMER) \<mapsto> 2] \<and>
    WaitSet_addSource Apple no_user_code 3 ws1 st1 w1 = Done (True, ws2, st2) w2 \<and>
    set (ws_sources ws2) = {2, 3} \<and> interest 4 (os_trace w2) = [(-1, EVFILT_TIMER) \<mapsto> 3] \<and>
    WaitSet_removeSource Apple no_user_code 2 ws2 st2 w2 = Done (True, ws3, st3) w3 \<and>
    set (ws_sources ws3) = {3} \<and> interest 4 (os_trace w3) = (\<lambda>_. None)"
  using Apple_timers_collide [of 2 3 2 "\<lparr>sr_next = 4, sr_objects = [2 \<mapsto> AsTimer_Apple 10, 3 \<mapsto> AsTimer_Apple 20]\<rparr>"
      10 20 "\<lparr>ws_handle = 4, ws_sources = []\<rparr>" "start_os False [reply 0 ENONE, reply 0 ENONE, reply 0 ENONE]"
      "reply 0 ENONE" "reply 0 ENONE" "reply 0 ENONE" no_user_code]
  by (simp add: all_succeed_def)

end
