(* ===== verification/CL_Looper.thy ===== *)
theory CL_Looper
  imports CL_WaitSet
begin

text \<open>
  \<^verbatim>\<open>Source/Looper.cpp\<close>: one looper per thread, its event loop and \<^verbatim>\<open>terminate\<close>. The readers and
  wake functions that belong to other components or to the client are an argument of the loop
  (\<open>handlers\<close>), which may change the whole state of the thread, the looper included. The loop
  has fuel; one unit more than there are answers of the kernel is enough. The last part is the
  concurrent view: other threads call \<^verbatim>\<open>terminate\<close> while the loop runs.
\<close>

section \<open>State\<close>

text \<open>The shared pointer \<^verbatim>\<open>_trivialSource\<close> is an address, 0 when null.\<close>

record looper =
  lp_waitSet :: waitSet
  lp_trivialSource :: nat
  lp_shouldTerminate :: bool

text \<open>What a thread with a looper works on: the looper, the sources, and the client's objects.\<close>

record 'c thread_state =
  ts_looper :: looper
  ts_sources :: source_store
  ts_client :: 'c

record 'c handlers =
  hd_reader :: "reader \<Rightarrow> handle \<Rightarrow> 'c thread_state \<Rightarrow> os \<Rightarrow> 'c thread_state outcome"
  hd_wake :: "nat \<Rightarrow> 'c thread_state \<Rightarrow> os \<Rightarrow> 'c thread_state outcome"

definition Looper_ctor :: "platform \<Rightarrow> os \<Rightarrow> looper outcome" where
  "Looper_ctor pf = bindM (WaitSet_ctor pf) (\<lambda>ws.
     returnM \<lparr>lp_waitSet = ws, lp_trivialSource = 0, lp_shouldTerminate = False\<rparr>)"

text \<open>Thread-specific data: the looper of each thread that has one.\<close>

definition Looper_Current ::
  "platform \<Rightarrow> nat \<Rightarrow> (nat \<Rightarrow> looper option) \<Rightarrow> os \<Rightarrow> (looper \<times> (nat \<Rightarrow> looper option)) outcome" where
  "Looper_Current pf thread tls =
     (case tls thread of
        Some l \<Rightarrow> returnM (l, tls)
      | None \<Rightarrow> bindM (Looper_ctor pf) (\<lambda>l. returnM (l, tls(thread \<mapsto> l))))"

section \<open>Operations\<close>

definition Looper_addSource ::
  "platform \<Rightarrow> user_code \<Rightarrow> nat \<Rightarrow> 'c thread_state \<Rightarrow> os \<Rightarrow> (bool \<times> 'c thread_state) outcome" where
  "Looper_addSource pf u p ts =
     bindM (WaitSet_addSource pf u p (lp_waitSet (ts_looper ts)) (ts_sources ts)) (\<lambda>(b, ws, st).
       returnM (b, ts\<lparr>ts_looper := (ts_looper ts)\<lparr>lp_waitSet := ws\<rparr>, ts_sources := st\<rparr>))"

definition Looper_removeSource ::
  "platform \<Rightarrow> user_code \<Rightarrow> nat \<Rightarrow> 'c thread_state \<Rightarrow> os \<Rightarrow> (bool \<times> 'c thread_state) outcome" where
  "Looper_removeSource pf u p ts =
     bindM (WaitSet_removeSource pf u p (lp_waitSet (ts_looper ts)) (ts_sources ts)) (\<lambda>(b, ws, st).
       returnM (b, ts\<lparr>ts_looper := (ts_looper ts)\<lparr>lp_waitSet := ws\<rparr>, ts_sources := st\<rparr>))"

text \<open>The start of \<^verbatim>\<open>loop\<close>: the source that \<^verbatim>\<open>terminate\<close> signals is made and added once.\<close>

definition Looper_prepare ::
  "platform \<Rightarrow> user_code \<Rightarrow> 'c thread_state \<Rightarrow> os \<Rightarrow> 'c thread_state outcome" where
  "Looper_prepare pf u ts =
     (if lp_trivialSource (ts_looper ts) = 0
      then
        (let (p, st) = store_new LooperSource_AsTrivial (ts_sources ts);
             ts' = ts\<lparr>ts_looper := (ts_looper ts)\<lparr>lp_trivialSource := p\<rparr>, ts_sources := st\<rparr> in
         bindM (Looper_addSource pf u p ts') (\<lambda>(_, ts''). returnM ts''))
      else returnM ts)"

fun run_reader ::
  "'c handlers \<Rightarrow> reader \<Rightarrow> handle \<Rightarrow> 'c thread_state \<Rightarrow> os \<Rightarrow> 'c thread_state outcome" where
  "run_reader hs WakeReader h ts = seqM (wake_read h) (returnM ts)"
| "run_reader hs TimerReader h ts = seqM (timer_read h) (returnM ts)"
| "run_reader hs r h ts = hd_reader hs r h ts"

definition onAwoken :: "'c handlers \<Rightarrow> nat \<Rightarrow> 'c thread_state \<Rightarrow> os \<Rightarrow> 'c thread_state outcome" where
  "onAwoken hs p ts =
     bindM (deref (ts_sources ts) p) (\<lambda>s.
       case so_wakeFunction s of None \<Rightarrow> returnM ts | Some f \<Rightarrow> hd_wake hs f ts)"

text \<open>The rest of an iteration, for the address that \<^verbatim>\<open>wait\<close> returned.\<close>

definition Looper_dispatch ::
  "user_code \<Rightarrow> 'c handlers \<Rightarrow> nat \<Rightarrow> 'c thread_state \<Rightarrow> os \<Rightarrow> 'c thread_state outcome" where
  "Looper_dispatch u hs p ts =
     (if p = 0 then returnM ts
      else
        bindM (deref (ts_sources ts) p) (\<lambda>s.
        bindM
          (case so_readHandler s of
             None \<Rightarrow> returnM ts
           | Some r \<Rightarrow>
               bindM (LooperSource_readHandle u s) (\<lambda>(h, s').
                 run_reader hs r h (ts\<lparr>ts_sources := store_put p s' (ts_sources ts)\<rparr>)))
          (onAwoken hs p)))"

definition Looper_request :: "looper \<Rightarrow> looper" where
  "Looper_request l = l\<lparr>lp_shouldTerminate := True\<rparr>"

definition Looper_reset :: "looper \<Rightarrow> looper" where
  "Looper_reset l = l\<lparr>lp_shouldTerminate := False\<rparr>"

fun Looper_while ::
  "platform \<Rightarrow> user_code \<Rightarrow> 'c handlers \<Rightarrow> nat \<Rightarrow> 'c thread_state \<Rightarrow> os \<Rightarrow> 'c thread_state outcome" where
  "Looper_while pf u hs 0 ts = failM OutOfFuel"
| "Looper_while pf u hs (Suc n) ts =
     (if lp_shouldTerminate (ts_looper ts)
      then returnM (ts\<lparr>ts_looper := Looper_reset (ts_looper ts)\<rparr>)
      else
        bindM (WaitSet_wait pf (lp_waitSet (ts_looper ts))) (\<lambda>p.
        bindM (Looper_dispatch u hs p ts) (Looper_while pf u hs n)))"

definition Looper_loop ::
  "platform \<Rightarrow> user_code \<Rightarrow> 'c handlers \<Rightarrow> nat \<Rightarrow> 'c thread_state \<Rightarrow> os \<Rightarrow> 'c thread_state outcome" where
  "Looper_loop pf u hs n ts = bindM (Looper_prepare pf u ts) (Looper_while pf u hs n)"

text \<open>\<^verbatim>\<open>terminate\<close>: set the flag, then signal the trivial source (a null pointer before any loop).\<close>

definition Looper_wake :: "user_code \<Rightarrow> 'c thread_state \<Rightarrow> os \<Rightarrow> 'c thread_state outcome" where
  "Looper_wake u ts =
     bindM (deref (ts_sources ts) (lp_trivialSource (ts_looper ts))) (\<lambda>s.
     case so_writeHandler s of
       None \<Rightarrow> failM MemoryFault
     | Some wr \<Rightarrow>
         bindM (LooperSource_writeHandle u s) (\<lambda>(h, s').
         seqM (run_writer u wr h)
           (returnM (ts\<lparr>ts_sources := store_put (lp_trivialSource (ts_looper ts)) s' (ts_sources ts)\<rparr>))))"

definition Looper_terminate :: "user_code \<Rightarrow> 'c thread_state \<Rightarrow> os \<Rightarrow> 'c thread_state outcome" where
  "Looper_terminate u ts = Looper_wake u (ts\<lparr>ts_looper := Looper_request (ts_looper ts)\<rparr>)"

text \<open>The trivial source is the looper's own, so it dies with the wait set that shares it.\<close>

definition Looper_dtor :: "platform \<Rightarrow> user_code \<Rightarrow> 'c thread_state \<Rightarrow> os \<Rightarrow> unit outcome" where
  "Looper_dtor pf u ts =
     bindM (WaitSet_dtor pf u (lp_waitSet (ts_looper ts)) (ts_sources ts)) (\<lambda>st.
       if lp_trivialSource (ts_looper ts) = 0 then returnM ()
       else bindM (deref st (lp_trivialSource (ts_looper ts))) (LooperSource_dtor u))"

section \<open>Enough fuel\<close>

text \<open>An operation that only moves the world forward and does not run out of fuel itself.\<close>

definition tame :: "(os \<Rightarrow> 'a outcome) \<Rightarrow> bool" where
  "tame m \<longleftrightarrow> forward (\<lambda>_. True) m \<and> (\<forall>w w'. m w \<noteq> Fail OutOfFuel w')"

named_theorems tame_intros "operations that cannot run out of fuel"

lemma tame_forward: "tame m \<Longrightarrow> forward (\<lambda>_. True) m"
  by (simp add: tame_def)

lemma tame_bindM [tame_intros]:
  assumes "tame m" "\<And>a. tame (f a)"
  shows "tame (bindM m f)"
proof -
  have "bindM m f w \<noteq> Fail OutOfFuel w'" for w w'
    using assms by (cases "m w") (auto simp: tame_def)
  with assms show ?thesis by (simp add: tame_def forward_bindM)
qed

lemma tame_seqM [tame_intros]: "tame m \<Longrightarrow> tame n \<Longrightarrow> tame (seqM m n)"
  unfolding seqM_def by (rule tame_bindM)

lemma tame_basic [tame_intros]:
  "tame (returnM a)" "e \<noteq> OutOfFuel \<Longrightarrow> tame (failM e)" "tame (CL_ASSERT b)" "tame (sys c)"
  "tame CL_LOG_ERRNO"
  by (auto simp: tame_def forward_intros)
    (auto simp: CL_ASSERT_def sys_def CL_LOG_ERRNO_def emit_def split: if_splits list.splits)

lemma tame_retry [tame_intros]: "tame (CL_TEMP_FAILURE_RETRY c)"
  using retry_FailE by (fastforce simp: tame_def intro: forward_intros)

lemma tame_if [tame_intros]: "(b \<Longrightarrow> tame m) \<Longrightarrow> (\<not> b \<Longrightarrow> tame n) \<Longrightarrow> tame (if b then m else n)"
  by simp

lemma tame_prod [tame_intros]: "(\<And>x y. tame (f x y)) \<Longrightarrow> tame (case p of (x, y) \<Rightarrow> f x y)"
  by (cases p) simp

lemma tame_option [tame_intros]:
  "tame m \<Longrightarrow> (\<And>x. tame (f x)) \<Longrightarrow> tame (case p of None \<Rightarrow> m | Some x \<Rightarrow> f x)"
  by (cases p) simp_all

lemma tame_check [tame_intros]: "tame (CL_CHECK c)"
  unfolding CL_CHECK_def CL_CHECK_EXPECT_def by (intro tame_intros)

lemma tame_deref [tame_intros]: "tame (deref st p)"
  unfolding deref_def by (intro tame_intros) simp

lemma tame_wait [tame_intros]: "tame (WaitSet_wait pf ws)"
  unfolding WaitSet_wait_def platformHandleWait_def platformHandleWait_Linux_def
    platformHandleWait_Apple_def
  by (cases pf) (simp_all, (intro tame_intros)+)

text \<open>Client code that behaves so: its allocators, its updaters and its handlers.\<close>

definition tame_client :: "user_code \<Rightarrow> 'c handlers \<Rightarrow> bool" where
  "tame_client u hs \<longleftrightarrow>
     (\<forall>n. tame (uc_allocator u n)) \<and> (\<forall>n p q h b. tame (uc_updater u n p q h b)) \<and> (\<forall>r h ts. tame (hd_reader hs r h ts)) \<and>
     (\<forall>f ts. tame (hd_wake hs f ts))"

lemma tame_allocator: "tame_client u hs \<Longrightarrow> tame (run_allocator u a)"
  by (cases a) (auto simp: tame_client_def pipe_allocate_def timer_allocate_def Let_def
      intro!: tame_intros)

lemma tame_readHandle: "tame_client u hs \<Longrightarrow> tame (LooperSource_readHandle u s)"
  unfolding LooperSource_readHandle_def LooperSource_handles_def
  by (intro tame_intros tame_allocator)

lemma tame_run_reader: "tame_client u hs \<Longrightarrow> tame (run_reader hs r h ts)"
  by (cases r) (auto simp: tame_client_def wake_read_def timer_read_def intro!: tame_intros)

lemma tame_dispatch: "tame_client u hs \<Longrightarrow> tame (Looper_dispatch u hs p ts)"
  unfolding Looper_dispatch_def onAwoken_def
  by (intro tame_intros tame_readHandle tame_run_reader) (auto simp: tame_client_def)

lemma wait_consumes:
  assumes "WaitSet_wait pf ws w = Done p w'"
  shows "length (os_script w') < length (os_script w)"
proof -
  from assms obtain c r w1 where r: "CL_TEMP_FAILURE_RETRY c w = Done r w1" "w' = w1"
    unfolding WaitSet_wait_def platformHandleWait_def platformHandleWait_Linux_def
      platformHandleWait_Apple_def
    by (cases pf) (auto simp: bind_out_Done_iff CL_ASSERT_Done)
  from retry_script_less [OF r(1)] r(2) show ?thesis by simp
qed

lemma while_fuel:
  assumes "tame_client u hs" "length (os_script w) < n"
  shows "Looper_while pf u hs n ts w \<noteq> Fail OutOfFuel w'"
  using assms(2)
proof (induction n arbitrary: ts w)
  case (Suc n)
  show ?case
  proof (cases "lp_shouldTerminate (ts_looper ts)")
    case False
    show ?thesis
    proof (cases "WaitSet_wait pf (lp_waitSet (ts_looper ts)) w")
      case w1: (Done p w1)
      show ?thesis
      proof (cases "Looper_dispatch u hs p ts w1")
        case w2: (Done ts' w2)
        have "length (os_script w2) \<le> length (os_script w1)"
          using os_le_script_length [OF forward_Done [OF tame_forward [OF tame_dispatch [OF assms(1)]] w2]] .
        with wait_consumes [OF w1] Suc.prems have "length (os_script w2) < n" by simp
        from Suc.IH [OF this] False w1 w2 show ?thesis by simp
      next
        case (Fail e v)
        with tame_dispatch [OF assms(1), of p ts] have "e \<noteq> OutOfFuel" by (auto simp: tame_def)
        with False w1 Fail show ?thesis by simp
      qed
    next
      case (Fail e v)
      with tame_wait [of pf "lp_waitSet (ts_looper ts)"] have "e \<noteq> OutOfFuel" by (auto simp: tame_def)
      with False Fail show ?thesis by simp
    qed
  qed simp
qed simp

lemma tame_updater: "tame_client u hs \<Longrightarrow> tame (run_updater u f p q h b)"
  by (cases f) (auto simp: tame_client_def kevent_timer_update_def LooperSource_UpdateKeventSource_def
      intro!: tame_intros)

lemma tame_prepare:
  assumes "tame_client u hs"
  shows "tame (Looper_prepare pf u ts)"
proof -
  have "tame (updateInWaitSetHandle pf u p q b s)" for p q b s
    unfolding updateInWaitSetHandle_def updateInWaitSetHandle_Linux_def updateInWaitSetHandle_Apple_def
      LooperSource_UpdateEpollSource_def LooperSource_UpdateKeventSource_def
    by (cases pf; simp only: platform.case;
        intro tame_intros tame_readHandle [OF assms] tame_updater [OF assms])
  then show ?thesis
    unfolding Looper_prepare_def Looper_addSource_def WaitSet_addSource_def update_source_def
      store_new_def Let_def prod.case
    by (intro tame_intros)
qed

lemma while_more_fuel:
  assumes "\<And>w'. Looper_while pf u hs n ts w \<noteq> Fail OutOfFuel w'"
  shows "Looper_while pf u hs (n + k) ts w = Looper_while pf u hs n ts w"
  using assms
proof (induction n arbitrary: ts w)
  case 0
  from 0 [of w] show ?case by simp
next
  case (Suc n)
  show ?case
  proof (cases "lp_shouldTerminate (ts_looper ts)")
    case False
    have "Looper_while pf u hs (n + k) ts' w2 = Looper_while pf u hs n ts' w2"
      if "WaitSet_wait pf (lp_waitSet (ts_looper ts)) w = Done p w1" "Looper_dispatch u hs p ts w1 = Done ts' w2"
      for p w1 ts' w2
      using Suc.IH [of ts' w2] Suc.prems False that by simp
    with False show ?thesis
      by (auto intro!: bind_out_cong)
  qed simp
qed

text \<open>
  The fuel of the loop is no restriction: with client code that does not run out of it
  itself, one unit more than there are answers of the kernel is enough, and any more gives the
  same result.
\<close>

lemma Looper_loop_fuel:
  assumes "tame_client u hs" "length (os_script w) < n"
  shows "(\<forall>w'. Looper_loop pf u hs n ts w \<noteq> Fail OutOfFuel w') \<and>
    Looper_loop pf u hs (n + k) ts w = Looper_loop pf u hs n ts w"
proof (cases "Looper_prepare pf u ts w")
  case (Done ts1 w1)
  from os_le_script_length [OF forward_Done [OF tame_forward [OF tame_prepare [OF assms(1)]] Done]]
  have "length (os_script w1) < n" using assms(2) by simp
  note enough = while_fuel [OF assms(1) this]
  from Done enough while_more_fuel [OF enough] show ?thesis
    by (simp add: Looper_loop_def)
next
  case (Fail e v)
  with tame_prepare [OF assms(1)] show ?thesis by (auto simp: Looper_loop_def tame_def)
qed

section \<open>Serving what the kernel reports\<close>

definition wait_call_of :: "platform \<Rightarrow> 'c thread_state \<Rightarrow> syscall" where
  "wait_call_of pf ts =
     (case pf of Linux \<Rightarrow> EpollWait | Apple \<Rightarrow> KeventWait) (ws_handle (lp_waitSet (ts_looper ts)))"

text \<open>
  A turn of the loop, as the kernel answers it: the interruptions of \<^verbatim>\<open>wait\<close>, the report, and what
  the calls of the reported source's reader and wake function get.
\<close>

type_synonym turn = "sysres list \<times> sysres \<times> sysres list"

definition turn_answers :: "turn list \<Rightarrow> sysres list" where
  "turn_answers bs = concat (map (\<lambda>(is, r, as). is @ r # as) bs)"

definition turn_sources :: "turn list \<Rightarrow> (nat \<times> sysres list) list" where
  "turn_sources bs = map (\<lambda>(is, r, as). (r_ptr r, as)) bs"

text \<open>What an observer sees while the sources of the turns \<open>bs\<close> are served one after the other.\<close>

fun served :: "platform \<Rightarrow> (nat \<times> sysres list \<Rightarrow> 'c thread_state \<Rightarrow> 'c thread_state) \<Rightarrow>
    (nat \<times> sysres list \<Rightarrow> 'c thread_state \<Rightarrow> event list) \<Rightarrow> turn list \<Rightarrow> 'c thread_state \<Rightarrow> event list"
  where
  "served pf serve log [] ts = []"
| "served pf serve log ((is, r, as) # bs) ts =
     map (Sys (wait_call_of pf ts)) (is @ [r]) @ log (r_ptr r, as) ts @
     served pf serve log bs (serve (r_ptr r, as) ts)"

lemma WaitSet_wait_report:
  assumes "os_script w = is @ r # rest" "\<forall>i \<in> set is. interrupted i" "r_rc r = 1"
  shows "WaitSet_wait pf (lp_waitSet (ts_looper ts)) w =
    Done (r_ptr r) (answered (wait_call_of pf ts) (is @ [r]) w)"
proof -
  have "\<not> interrupted r" using assms(3) by (simp add: interrupted_def)
  from retry_interrupted [OF assms(1,2) this] assms(3) show ?thesis
    by (cases pf)
      (simp_all add: WaitSet_wait_def epoll.wait_call kqueue.wait_call wait_call_of_def CL_ASSERT_holds)
qed

lemma while_serves:
  assumes "\<And>p as ts w rest. (p, as) \<in> set (turn_sources bs) \<Longrightarrow> ok ts \<Longrightarrow> os_script w = as @ rest \<Longrightarrow>
      os_malloc w = al \<Longrightarrow> ok (serve (p, as) ts) \<and>
      (\<exists>w'. Looper_dispatch u hs p ts w = Done (serve (p, as) ts) w' \<and> os_script w' = rest \<and>
        os_malloc w' = al \<and> os_trace w' = os_trace w @ log (p, as) ts)"
    "os_script w = turn_answers bs @ rest" "os_malloc w = al"
    "\<forall>(is, r, as) \<in> set bs. (\<forall>i \<in> set is. interrupted i) \<and> r_rc r = 1"
    "\<forall>k < length bs. \<not> lp_shouldTerminate (ts_looper (fold serve (take k (turn_sources bs)) ts))"
    "lp_shouldTerminate (ts_looper (fold serve (turn_sources bs) ts))" "length bs < n" "ok ts"
  shows "\<exists>w'. Looper_while pf u hs n ts w =
      Done (let ts' = fold serve (turn_sources bs) ts in ts'\<lparr>ts_looper := Looper_reset (ts_looper ts')\<rparr>) w' \<and>
    os_script w' = rest \<and> os_trace w' = os_trace w @ served pf serve log bs ts"
  using assms
proof (induction bs arbitrary: n ts w)
  case Nil
  then show ?case by (cases n) (auto simp: turn_sources_def turn_answers_def)
next
  case (Cons b bs)
  obtain "is" r as where b: "b = (is, r, as)" by (cases b)
  from Cons.prems(7) obtain k where n: "n = Suc k" "length bs < k" by (cases n) auto
  let ?w1 = "answered (wait_call_of pf ts) (is @ [r]) w" and ?ts = "serve (r_ptr r, as) ts"
  have script: "os_script w = is @ r # as @ turn_answers bs @ rest"
    using Cons.prems(2) b by (simp add: turn_answers_def)
  with Cons.prems(4) b have wait: "WaitSet_wait pf (lp_waitSet (ts_looper ts)) w = Done (r_ptr r) ?w1"
    by (intro WaitSet_wait_report) auto
  have srcs: "turn_sources (b # bs) = (r_ptr r, as) # turn_sources bs" by (simp add: turn_sources_def b)
  obtain w2 where w2: "Looper_dispatch u hs (r_ptr r) ts ?w1 = Done ?ts w2" "ok ?ts"
    "os_script w2 = turn_answers bs @ rest" "os_malloc w2 = al" "os_trace w2 = os_trace ?w1 @ log (r_ptr r, as) ts"
    using Cons.prems(1) [of "r_ptr r" as ts ?w1 "turn_answers bs @ rest"] Cons.prems(3,8) script srcs by auto
  have flags: "\<forall>j < length bs. \<not> lp_shouldTerminate (ts_looper (fold serve (take j (turn_sources bs)) ?ts))"
  proof (intro allI impI)
    fix j assume "j < length bs"
    then show "\<not> lp_shouldTerminate (ts_looper (fold serve (take j (turn_sources bs)) ?ts))"
      using Cons.prems(5) [rule_format, of "Suc j"] srcs by simp
  qed
  have "\<exists>w'. Looper_while pf u hs k ?ts w2 =
      Done (let ts' = fold serve (turn_sources bs) ?ts in ts'\<lparr>ts_looper := Looper_reset (ts_looper ts')\<rparr>) w' \<and>
      os_script w' = rest \<and> os_trace w' = os_trace w2 @ served pf serve log bs ?ts"
    by (rule Cons.IH [OF Cons.prems(1)]) (use Cons.prems(4,6) b flags n w2 srcs in simp_all)
  moreover have "\<not> lp_shouldTerminate (ts_looper ts)"
    using Cons.prems(5) [rule_format, of 0] by simp
  ultimately show ?case
    using wait w2 b n srcs by auto
qed

text \<open>\<^verbatim>\<open>terminate\<close> on a thread whose loop has made its trivial source.\<close>

lemma Looper_terminate_evaluated:
  assumes "sr_objects (ts_sources ts) (lp_trivialSource (ts_looper ts)) = Some s" "so_handlesAllocated s"
    "so_writeHandler s = Some WakeWriter" "os_script w = is @ r # rest" "\<forall>i \<in> set is. interrupted i" "r_rc r = 2"
  shows "Looper_terminate u ts w = Done (ts\<lparr>ts_looper := Looper_request (ts_looper ts)\<rparr>)
    (answered (Write (snd (so_handles s)) LooperWakeMessage) (is @ [r]) w)"
proof -
  have "\<not> interrupted r" using assms(6) by (simp add: interrupted_def)
  from retry_interrupted [OF assms(4,5) this] assms show ?thesis
    by (simp add: Looper_terminate_def Looper_wake_def Looper_request_def deref_def writeHandle_allocated
        wake_write_def LooperWakeMessage_def int_to_size_def CL_ASSERT_holds store_put_same)
qed

section \<open>Termination from other threads\<close>

text \<open>
  The loop of one thread as a program counter, and any number of other threads inside
  \<^verbatim>\<open>terminate\<close>, between setting the flag and writing the wake message. \<open>lm_bytes\<close> counts the
  messages in the pipe. Accesses to the flag are taken as atomic.
\<close>

datatype loop_pc = Outside | Testing | Waiting | Reading | Handling | Leaving

record loop_machine =
  lm_looper :: looper
  lm_bytes :: nat
  lm_pending :: nat
  lm_pc :: loop_pc

datatype loop_label =
  Enter | TestRun | TestStop | ReportTrivial | ReportOther | ReadWake | Handled | Leave | TermFlag | TermWrite

inductive loop_step :: "loop_machine \<Rightarrow> loop_label \<Rightarrow> loop_machine \<Rightarrow> bool" where
  "lm_pc m = Outside \<Longrightarrow> loop_step m Enter (m\<lparr>lm_pc := Testing\<rparr>)"
| "lm_pc m = Testing \<Longrightarrow> \<not> lp_shouldTerminate (lm_looper m) \<Longrightarrow> loop_step m TestRun (m\<lparr>lm_pc := Waiting\<rparr>)"
| "lm_pc m = Testing \<Longrightarrow> lp_shouldTerminate (lm_looper m) \<Longrightarrow> loop_step m TestStop (m\<lparr>lm_pc := Leaving\<rparr>)"
| "lm_pc m = Waiting \<Longrightarrow> 0 < lm_bytes m \<Longrightarrow> loop_step m ReportTrivial (m\<lparr>lm_pc := Reading\<rparr>)"
| "lm_pc m = Waiting \<Longrightarrow> loop_step m ReportOther (m\<lparr>lm_pc := Handling\<rparr>)"
| "lm_pc m = Reading \<Longrightarrow> lm_bytes m = Suc n \<Longrightarrow>
     loop_step m ReadWake (m\<lparr>lm_bytes := n, lm_pc := Handling\<rparr>)"
| "lm_pc m = Handling \<Longrightarrow> loop_step m Handled (m\<lparr>lm_pc := Testing\<rparr>)"
| "lm_pc m = Leaving \<Longrightarrow>
     loop_step m Leave (m\<lparr>lm_looper := Looper_reset (lm_looper m), lm_pc := Outside\<rparr>)"
| "loop_step m TermFlag (m\<lparr>lm_looper := Looper_request (lm_looper m), lm_pending := Suc (lm_pending m)\<rparr>)"
| "lm_pending m = Suc n \<Longrightarrow> loop_step m TermWrite (m\<lparr>lm_bytes := Suc (lm_bytes m), lm_pending := n\<rparr>)"

inductive_cases loop_stepE: "loop_step m l m'"

inductive loop_reach :: "loop_machine \<Rightarrow> loop_machine \<Rightarrow> bool" for m0 where
  start: "loop_reach m0 m0"
| step: "loop_reach m0 m \<Longrightarrow> loop_step m l m' \<Longrightarrow> loop_reach m0 m'"

definition loop_start :: "looper \<Rightarrow> loop_machine" where
  "loop_start l = \<lparr>lm_looper = Looper_reset l, lm_bytes = 0, lm_pending = 0, lm_pc = Outside\<rparr>"

text \<open>The invariant: a waiting loop that should stop has a message in the pipe or on its way.\<close>

definition loop_inv :: "loop_machine \<Rightarrow> bool" where
  "loop_inv m \<longleftrightarrow>
     (lm_pc m = Waiting \<longrightarrow> lp_shouldTerminate (lm_looper m) \<longrightarrow> 0 < lm_bytes m + lm_pending m) \<and>
     (lm_pc m = Reading \<longrightarrow> 0 < lm_bytes m)"

lemma Looper_flag_simps [simp]:
  "lp_shouldTerminate (Looper_request l)" "\<not> lp_shouldTerminate (Looper_reset l)"
  by (simp_all add: Looper_request_def Looper_reset_def)

lemma loop_inv_step: "loop_inv m \<Longrightarrow> loop_step m l m' \<Longrightarrow> loop_inv m'"
  by (erule loop_stepE) (auto simp: loop_inv_def)

lemma loop_inv_reach: "loop_reach (loop_start l) m \<Longrightarrow> loop_inv m"
  by (induction rule: loop_reach.induct)
    (simp add: loop_inv_def loop_start_def, blast intro: loop_inv_step)

text \<open>A run that needs no new event, only the calls of \<^verbatim>\<open>terminate\<close> already made.\<close>

inductive quiet_run :: "loop_machine \<Rightarrow> loop_machine \<Rightarrow> bool" where
  "quiet_run m m"
| "loop_step m l m' \<Longrightarrow> l \<noteq> ReportOther \<Longrightarrow> l \<noteq> TermFlag \<Longrightarrow> l \<noteq> Enter \<Longrightarrow> quiet_run m' m'' \<Longrightarrow> quiet_run m m''"

lemma quiet_leave: "lm_pc m = Leaving \<Longrightarrow> \<exists>m'. quiet_run m m' \<and> lm_pc m' = Outside"
  by (rule exI [of _ "m\<lparr>lm_looper := Looper_reset (lm_looper m), lm_pc := Outside\<rparr>"])
    (auto intro: quiet_run.intros loop_step.intros)

lemma quiet_extend:
  "loop_step m l m' \<Longrightarrow> l \<noteq> ReportOther \<Longrightarrow> l \<noteq> TermFlag \<Longrightarrow> l \<noteq> Enter \<Longrightarrow>
   \<exists>m''. quiet_run m' m'' \<and> P m'' \<Longrightarrow> \<exists>m''. quiet_run m m'' \<and> P m''"
  by (blast intro: quiet_run.intros)

lemma quiet_test:
  assumes "lm_pc m = Testing" "lp_shouldTerminate (lm_looper m)"
  shows "\<exists>m'. quiet_run m m' \<and> lm_pc m' = Outside"
  by (rule quiet_extend [OF loop_step.intros(3) [OF assms]]) (simp_all add: quiet_leave)

lemma quiet_handling:
  assumes "lm_pc m = Handling" "lp_shouldTerminate (lm_looper m)"
  shows "\<exists>m'. quiet_run m m' \<and> lm_pc m' = Outside"
  by (rule quiet_extend [OF loop_step.intros(7) [OF assms(1)]]) (simp_all add: quiet_test assms(2))

lemma quiet_reading:
  assumes "lm_pc m = Reading" "lp_shouldTerminate (lm_looper m)" "lm_bytes m = Suc n"
  shows "\<exists>m'. quiet_run m m' \<and> lm_pc m' = Outside"
  by (rule quiet_extend [OF loop_step.intros(6) [OF assms(1,3)]]) (simp_all add: quiet_handling assms(2))

lemma quiet_waiting_bytes:
  assumes "lm_pc m = Waiting" "lp_shouldTerminate (lm_looper m)" "lm_bytes m = Suc n"
  shows "\<exists>m'. quiet_run m m' \<and> lm_pc m' = Outside"
proof (rule quiet_extend)
  show "loop_step m ReportTrivial (m\<lparr>lm_pc := Reading\<rparr>)"
    using assms by (intro loop_step.intros) simp_all
  show "\<exists>m'. quiet_run (m\<lparr>lm_pc := Reading\<rparr>) m' \<and> lm_pc m' = Outside"
    by (rule quiet_reading [of _ n]) (simp_all add: assms)
qed simp_all

lemma quiet_waiting:
  assumes "lm_pc m = Waiting" "lp_shouldTerminate (lm_looper m)" "0 < lm_bytes m + lm_pending m"
  shows "\<exists>m'. quiet_run m m' \<and> lm_pc m' = Outside"
proof (cases "lm_bytes m")
  case (Suc n)
  then show ?thesis using quiet_waiting_bytes assms by blast
next
  case 0
  with assms(3) obtain k where k: "lm_pending m = Suc k" by (cases "lm_pending m") auto
  show ?thesis
    by (rule quiet_extend [OF loop_step.intros(10) [OF k]])
      (simp_all add: quiet_waiting_bytes assms)
qed

section \<open>Properties\<close>

text \<open>
  C13: No termination request is lost. However \<^verbatim>\<open>terminate\<close> calls of other threads interleave with
  the loop, whenever the flag is set inside the loop, the loop can leave without any other
  event: a waiting loop always has its wake message in the pipe or about to be written.
\<close>

theorem Looper_no_lost_wakeup:
  assumes "loop_reach (loop_start l) m" "lp_shouldTerminate (lm_looper m)" "lm_pc m \<noteq> Outside"
  shows "(\<exists>m'. quiet_run m m' \<and> lm_pc m' = Outside) \<and>
    (lm_pc m = Waiting \<longrightarrow> 0 < lm_bytes m + lm_pending m)"
proof
  have inv: "loop_inv m" by (rule loop_inv_reach [OF assms(1)])
  then show "lm_pc m = Waiting \<longrightarrow> 0 < lm_bytes m + lm_pending m"
    using assms(2) by (simp add: loop_inv_def)
  show "\<exists>m'. quiet_run m m' \<and> lm_pc m' = Outside"
  proof (cases "lm_pc m")
    case Waiting
    with inv assms(2) show ?thesis by (intro quiet_waiting) (simp_all add: loop_inv_def)
  next
    case Reading
    with inv obtain n where "lm_bytes m = Suc n" by (cases "lm_bytes m") (simp_all add: loop_inv_def)
    with Reading assms(2) show ?thesis by (intro quiet_reading)
  qed (use assms in \<open>auto intro: quiet_test quiet_handling quiet_leave\<close>)
qed

text \<open>
  C19: The loop serves the sources the kernel reports one at a time and in the order of the
  reports, and stops at the first one after which termination was requested: between two waits it
  makes exactly the calls of the reported source (of its reader and its wake function, which may
  read descriptors, write and call \<^verbatim>\<open>terminate\<close>); it consumes exactly those reports and their
  answers, waits no more, and resets the request.
\<close>

theorem Looper_serves_in_order:
  assumes "\<And>p as ts w rest. (p, as) \<in> set (turn_sources bs) \<Longrightarrow> ok ts \<Longrightarrow> os_script w = as @ rest \<Longrightarrow>
      os_malloc w = al \<Longrightarrow> ok (serve (p, as) ts) \<and>
      (\<exists>w'. Looper_dispatch u hs p ts w = Done (serve (p, as) ts) w' \<and> os_script w' = rest \<and>
        os_malloc w' = al \<and> os_trace w' = os_trace w @ log (p, as) ts)"
    "os_script w = turn_answers bs @ rest" "os_malloc w = al"
    "\<forall>(is, r, as) \<in> set bs. (\<forall>i \<in> set is. interrupted i) \<and> r_rc r = 1"
    "\<forall>k < length bs. \<not> lp_shouldTerminate (ts_looper (fold serve (take k (turn_sources bs)) ts))"
    "lp_shouldTerminate (ts_looper (fold serve (turn_sources bs) ts))" "length bs < n"
    "ok ts" "lp_trivialSource (ts_looper ts) \<noteq> 0"
  shows "\<exists>w'. Looper_loop pf u hs n ts w =
      Done (let ts' = fold serve (turn_sources bs) ts in ts'\<lparr>ts_looper := Looper_reset (ts_looper ts')\<rparr>) w' \<and>
    os_script w' = rest \<and> os_trace w' = os_trace w @ served pf serve log bs ts"
  using while_serves [OF assms(1-8)] assms(9) by (simp add: Looper_loop_def Looper_prepare_def)

text \<open>
  \<^verbatim>\<open>terminate\<close>. Once a loop has made the trivial source, a call sets the flag and writes one
  wake message to its write end, and the next loop on the thread returns at once, without
  waiting, with the flag reset. Before any loop the call dereferences a null pointer.
\<close>

theorem Looper_terminate_effect:
  assumes "sr_objects (ts_sources ts) 0 = None" "0 < n"
  shows "(\<forall>s is r rest. lp_trivialSource (ts_looper ts) \<noteq> 0 \<longrightarrow>
      sr_objects (ts_sources ts) (lp_trivialSource (ts_looper ts)) = Some s \<longrightarrow>
      so_writeHandler s = Some WakeWriter \<longrightarrow> so_handlesAllocated s \<longrightarrow>
      os_script w = is @ r # rest \<longrightarrow> (\<forall>i \<in> set is. interrupted i) \<longrightarrow> r_rc r = 2 \<longrightarrow>
      (\<exists>ts' w'. Looper_terminate u ts w = Done ts' w' \<and> lp_shouldTerminate (ts_looper ts') \<and>
        os_trace w' = os_trace w @ map (Sys (Write (snd (so_handles s)) LooperWakeMessage)) (is @ [r]) \<and>
        Looper_loop pf u hs n ts' w' =
          Done (ts'\<lparr>ts_looper := Looper_reset (ts_looper ts')\<rparr>) w')) \<and>
    (lp_trivialSource (ts_looper ts) = 0 \<longrightarrow> Looper_terminate u ts w = Fail MemoryFault w)"
proof (intro conjI allI impI)
  show "Looper_terminate u ts w = Fail MemoryFault w" if "lp_trivialSource (ts_looper ts) = 0"
    using that assms(1) by (simp add: Looper_terminate_def Looper_wake_def Looper_request_def deref_def)
next
  fix s "is" r rest
  let ?t = "lp_trivialSource (ts_looper ts)" and ?ts = "ts\<lparr>ts_looper := Looper_request (ts_looper ts)\<rparr>"
  assume a: "?t \<noteq> 0" "sr_objects (ts_sources ts) ?t = Some s" "so_writeHandler s = Some WakeWriter"
    "so_handlesAllocated s" "os_script w = is @ r # rest" "\<forall>i \<in> set is. interrupted i" "r_rc r = 2"
  have t: "lp_trivialSource (Looper_request (ts_looper ts)) = ?t" by (simp add: Looper_request_def)
  note run = Looper_terminate_evaluated [OF a(2,4,3,5,6,7), of u]
  obtain k where "n = Suc k" using assms(2) by (cases n) auto
  with run a(1) t show "\<exists>ts' w'. Looper_terminate u ts w = Done ts' w' \<and> lp_shouldTerminate (ts_looper ts') \<and>
        os_trace w' = os_trace w @ map (Sys (Write (snd (so_handles s)) LooperWakeMessage)) (is @ [r]) \<and>
        Looper_loop pf u hs n ts' w' =
          Done (ts'\<lparr>ts_looper := Looper_reset (ts_looper ts')\<rparr>) w'"
    by (intro exI [of _ ?ts] exI [of _ "answered (Write (snd (so_handles s)) LooperWakeMessage) (is @ [r]) w"])
      (simp add: Looper_loop_def Looper_prepare_def)
qed

text \<open>
  One looper per thread: after \<^verbatim>\<open>Current\<close> has returned a looper to a thread, every further
  call on that thread returns the same one and makes no system call, and the loopers of other
  threads are not touched.
\<close>

theorem Looper_Current_once:
  assumes "Looper_Current pf t tls w = Done (l, tls') w'"
  shows "(\<forall>v. Looper_Current pf t tls' v = Done (l, tls') v) \<and> (\<forall>t'. t' \<noteq> t \<longrightarrow> tls' t' = tls t')"
  using assms by (cases "tls t") (auto simp: Looper_Current_def bind_out_Done_iff)

section \<open>Examples of the properties\<close>

text \<open>
  A looper with a trivial source at 4 and two timers of Linux, over the descriptors 7 and 8; the wake
  function of the second calls \<^verbatim>\<open>terminate\<close>.
\<close>

definition demo_handlers :: "unit handlers" where
  "demo_handlers =
     \<lparr>hd_reader = (\<lambda>r h ts. returnM ts), hd_wake = (\<lambda>f ts. Looper_terminate no_user_code ts)\<rparr>"

definition demo_sources :: source_store where
  "demo_sources = \<lparr>sr_next = 7, sr_objects =
     [4 \<mapsto> LooperSource_AsTrivial\<lparr>so_handles := (10, 11), so_handlesAllocated := True\<rparr>,
      5 \<mapsto> (source_on 7)\<lparr>so_readHandler := Some TimerReader\<rparr>,
      6 \<mapsto> (source_on 8)\<lparr>so_readHandler := Some TimerReader, so_wakeFunction := Some 2\<rparr>]\<rparr>"

definition demo_thread :: "unit thread_state" where
  "demo_thread =
     \<lparr>ts_looper = \<lparr>lp_waitSet = \<lparr>ws_handle = 3, ws_sources = [4, 5, 6]\<rparr>, lp_trivialSource = 4,
                   lp_shouldTerminate = False\<rparr>,
      ts_sources = demo_sources, ts_client = ()\<rparr>"

definition report :: "nat \<Rightarrow> sysres" where
  "report p = (reply 1 ENONE)\<lparr>r_ptr := p\<rparr>"

definition demo_turns :: "turn list" where
  "demo_turns = [([], report 5, [reply (-1) EINTR, reply 8 ENONE]),
     ([reply (-1) EINTR], report 6, [reply 8 ENONE, reply 2 ENONE])]"

definition demo_serve :: "nat \<times> sysres list \<Rightarrow> unit thread_state \<Rightarrow> unit thread_state" where
  "demo_serve b ts = (if fst b = 6 then ts\<lparr>ts_looper := Looper_request (ts_looper ts)\<rparr> else ts)"

definition demo_log :: "nat \<times> sysres list \<Rightarrow> unit thread_state \<Rightarrow> event list" where
  "demo_log b ts =
     (if fst b = 5 then map (Sys (Read 7 8)) [reply (-1) EINTR, reply 8 ENONE]
      else [Sys (Read 8 8) (reply 8 ENONE), Sys (Write 11 LooperWakeMessage) (reply 2 ENONE)])"

lemma demo_turn_sources:
  "turn_sources demo_turns = [(5, [reply (-1) EINTR, reply 8 ENONE]), (6, [reply 8 ENONE, reply 2 ENONE])]"
  by (simp add: turn_sources_def demo_turns_def report_def)

lemma demo_source_fields:
  "sr_objects demo_sources 4 = Some (LooperSource_AsTrivial\<lparr>so_handles := (10, 11), so_handlesAllocated := True\<rparr>)"
  "sr_objects demo_sources 5 = Some ((source_on 7)\<lparr>so_readHandler := Some TimerReader\<rparr>)"
  "sr_objects demo_sources 6 = Some ((source_on 8)\<lparr>so_readHandler := Some TimerReader, so_wakeFunction := Some 2\<rparr>)"
  by (simp_all add: demo_sources_def)

lemma demo_dispatch:
  assumes "(p, as) \<in> set (turn_sources demo_turns)" "ts_sources ts = demo_sources"
    "lp_trivialSource (ts_looper ts) = 4" "os_script w = as @ rest"
  shows "\<exists>w'. Looper_dispatch no_user_code demo_handlers p ts w = Done (demo_serve (p, as) ts) w' \<and>
    os_script w' = rest \<and> os_malloc w' = os_malloc w \<and> os_trace w' = os_trace w @ demo_log (p, as) ts"
proof -
  have same: "ts\<lparr>ts_sources := demo_sources\<rparr> = ts" using assms(2) by (cases ts) simp
  have timer: "timer_read h v = Done () (answered (Read h 8) (is @ [reply 8 ENONE]) v)"
    if "os_script v = is @ reply 8 ENONE # rest'" "\<forall>i \<in> set is. interrupted i" for h v "is" rest'
    using retry_interrupted [OF that] by (simp add: timer_read_def interrupted_def CL_ASSERT_holds int_to_size_def)
  have plain: "so_handlesAllocated (source_on h)" "so_handles (source_on h) = (h, h)" "so_wakeFunction (source_on h) = None" for h
    by (simp_all add: source_on_def LooperSource_ctor_def)
  consider "p = 5" "as = [reply (-1) EINTR, reply 8 ENONE]" | "p = 6" "as = [reply 8 ENONE, reply 2 ENONE]"
    using assms(1) unfolding demo_turn_sources by auto
  then show ?thesis
  proof cases
    case 1
    then have "timer_read 7 w = Done () (answered (Read 7 8) ([reply (-1) EINTR] @ [reply 8 ENONE]) w)"
      using assms(4) by (intro timer) (simp_all add: interrupted_def)
    with 1 assms(2,4) same plain show ?thesis
      by (simp add: Looper_dispatch_def deref_def demo_source_fields readHandle_allocated store_put_same
          onAwoken_def demo_serve_def demo_log_def)
  next
    case 2
    let ?v = "answered (Read 8 8) [reply 8 ENONE] w"
    have "timer_read 8 w = Done () ?v" using 2 assms(4) timer [of w "[]"] by simp
    moreover have "Looper_terminate no_user_code ts ?v = Done (ts\<lparr>ts_looper := Looper_request (ts_looper ts)\<rparr>)
        (answered (Write 11 LooperWakeMessage) ([] @ [reply 2 ENONE]) ?v)"
      using 2 assms Looper_terminate_evaluated [of ts _ ?v "[]" "reply 2 ENONE" rest no_user_code]
      by (simp add: demo_source_fields LooperSource_AsTrivial_def LooperSource_ctor_def)
    ultimately show ?thesis
      using 2 assms(2,4) plain
      by (simp add: Looper_dispatch_def deref_def demo_source_fields readHandle_allocated store_put_same
          onAwoken_def demo_serve_def demo_log_def demo_handlers_def same)
  qed
qed

theorem Looper_no_lost_wakeup_witness:
  "\<exists>m'. quiet_run \<lparr>lm_looper = Looper_request (Looper_reset (ts_looper demo_thread)), lm_bytes = 0,
      lm_pending = Suc 0, lm_pc = Waiting\<rparr> m' \<and> lm_pc m' = Outside"
proof -
  let ?l = "ts_looper demo_thread"
  have "loop_reach (loop_start ?l) ((loop_start ?l)\<lparr>lm_pc := Testing\<rparr>)"
    by (rule loop_reach.step [OF loop_reach.start loop_step.intros(1)]) (simp add: loop_start_def)
  then have "loop_reach (loop_start ?l) ((loop_start ?l)\<lparr>lm_pc := Testing\<rparr>\<lparr>lm_pc := Waiting\<rparr>)"
    by (rule loop_reach.step [OF _ loop_step.intros(2)]) (simp_all add: loop_start_def)
  from loop_reach.step [OF this loop_step.intros(9)]
  have "loop_reach (loop_start ?l) \<lparr>lm_looper = Looper_request (Looper_reset ?l), lm_bytes = 0,
      lm_pending = Suc 0, lm_pc = Waiting\<rparr>"
    by (simp add: loop_start_def)
  from Looper_no_lost_wakeup [OF this] show ?thesis by simp
qed

theorem Looper_serves_in_order_witness:
  "\<exists>w'. Looper_loop Linux no_user_code demo_handlers 3 demo_thread
      (start_os False (turn_answers demo_turns @ [report 5])) =
      Done (let ts' = fold demo_serve (turn_sources demo_turns) demo_thread
        in ts'\<lparr>ts_looper := Looper_reset (ts_looper ts')\<rparr>) w' \<and>
    os_script w' = [report 5] \<and>
    os_trace w' = [Sys (EpollWait 3) (report 5), Sys (Read 7 8) (reply (-1) EINTR), Sys (Read 7 8) (reply 8 ENONE),
      Sys (EpollWait 3) (reply (-1) EINTR), Sys (EpollWait 3) (report 6), Sys (Read 8 8) (reply 8 ENONE),
      Sys (Write 11 LooperWakeMessage) (reply 2 ENONE)]"
proof -
  let ?w = "start_os False (turn_answers demo_turns @ [report 5])"
  have "\<exists>w'. Looper_loop Linux no_user_code demo_handlers 3 demo_thread ?w =
      Done (let ts' = fold demo_serve (turn_sources demo_turns) demo_thread
        in ts'\<lparr>ts_looper := Looper_reset (ts_looper ts')\<rparr>) w' \<and> os_script w' = [report 5] \<and>
      os_trace w' = os_trace ?w @ served Linux demo_serve demo_log demo_turns demo_thread"
  proof (rule Looper_serves_in_order [where al = "os_malloc ?w" and
        ok = "\<lambda>ts. ts_sources ts = demo_sources \<and> lp_trivialSource (ts_looper ts) = 4"], goal_cases)
    case (1 p as ts w rest)
    from demo_dispatch [OF 1(1) _ _ 1(3)] 1(2,4) show ?case
      by (auto simp: demo_serve_def Looper_request_def)
  next
    case 5
    then show ?case
      unfolding demo_turn_sources
      by (auto simp: less_Suc_eq demo_serve_def demo_thread_def numeral_2_eq_2 demo_turns_def)
  next
    case 6
    then show ?case unfolding demo_turn_sources by (simp add: demo_serve_def Looper_request_def)
  qed (simp_all add: report_def interrupted_def demo_thread_def demo_turns_def)
  then show ?thesis
    by (simp add: wait_call_of_def demo_thread_def demo_turns_def demo_serve_def demo_log_def report_def)
qed

theorem Looper_terminate_effect_witness:
  "\<exists>ts' w'. Looper_terminate no_user_code demo_thread (start_os False [reply 2 ENONE]) = Done ts' w' \<and>
    lp_shouldTerminate (ts_looper ts') \<and>
    os_trace w' = [Sys (Write 11 LooperWakeMessage) (reply 2 ENONE)] \<and>
    Looper_loop Linux no_user_code demo_handlers 1 ts' w' =
      Done (ts'\<lparr>ts_looper := Looper_reset (ts_looper ts')\<rparr>) w'"
proof -
  have "sr_objects (ts_sources demo_thread) 0 = None"
    by (simp add: demo_thread_def demo_sources_def)
  from Looper_terminate_effect [OF this, of 1 "start_os False [reply 2 ENONE]" no_user_code Linux demo_handlers,
      THEN conjunct1, rule_format, of "LooperSource_AsTrivial\<lparr>so_handles := (10, 11), so_handlesAllocated := True\<rparr>"
      "[]" "reply 2 ENONE" "[]"]
  show ?thesis
    by (simp add: demo_thread_def demo_sources_def LooperSource_AsTrivial_def LooperSource_ctor_def)
qed

theorem Looper_Current_once_witness:
  "\<exists>l tls' w'. Looper_Current Linux 1 (\<lambda>_. None) (start_os False [reply 4 ENONE]) = Done (l, tls') w' \<and>
    (\<forall>v. Looper_Current Linux 1 tls' v = Done (l, tls') v) \<and> tls' 2 = None"
proof -
  have "\<exists>l tls' w'. Looper_Current Linux 1 (\<lambda>_. None) (start_os False [reply 4 ENONE]) = Done (l, tls') w'"
    by (simp add: Looper_Current_def Looper_ctor_def WaitSet_ctor_def platformHandleCreate_def
        platformHandleCreate_Linux_def retry_step interrupted_def CL_ASSERT_holds)
  then obtain l tls' w' where r: "Looper_Current Linux 1 (\<lambda>_. None) (start_os False [reply 4 ENONE]) =
      Done (l, tls') w'"
    by blast
  from Looper_Current_once [OF r] r show ?thesis by simp
qed

end
