(* ===== verification/CL_Channel.thy ===== *)
theory CL_Channel
  imports CL_Looper
begin

text \<open>
  \<^verbatim>\<open>Source/Channel.cpp\<close> and \<^verbatim>\<open>Headers/Channel.h\<close>: a message channel over a socket, which can be
  scheduled in a looper. The callbacks are tags that the parameter \<open>cb\<close> interprets: code of the
  client, which may change the channel and any other state \<open>'x\<close>. Every invocation is recorded
  in the trace.
\<close>

section \<open>State\<close>

record channel =
  ch_source :: nat
  ch_messageReceivedCallback :: "nat option"
  ch_terminationCallback :: "nat option"
  ch_socket :: socket
  ch_ready :: bool
  ch_connected :: bool
  ch_name :: string

record 'x callbacks =
  cb_message :: "nat \<Rightarrow> message \<Rightarrow> channel \<times> 'x \<Rightarrow> os \<Rightarrow> (channel \<times> 'x) outcome"
  cb_terminate :: "nat \<Rightarrow> channel \<times> 'x \<Rightarrow> os \<Rightarrow> (channel \<times> 'x) outcome"

section \<open>Construction\<close>

definition Channel_of_name :: "string \<Rightarrow> os \<Rightarrow> channel outcome" where
  "Channel_of_name name =
     bindM (Socket_Create 0) (\<lambda>s.
       returnM \<lparr>ch_source = 0, ch_messageReceivedCallback = None, ch_terminationCallback = None,
                ch_socket = s, ch_ready = True, ch_connected = False, ch_name = name\<rparr>)"

definition Channel_of_socket :: "socket \<Rightarrow> channel" where
  "Channel_of_socket s =
     \<lparr>ch_source = 0, ch_messageReceivedCallback = None, ch_terminationCallback = None,
      ch_socket = s, ch_ready = True, ch_connected = True, ch_name = []\<rparr>"

definition Channel_of_handle :: "handle \<Rightarrow> os \<Rightarrow> channel outcome" where
  "Channel_of_handle h = bindM (Socket_Create h) (\<lambda>s. returnM (Channel_of_socket s))"

type_synonym connected_channels = "channel \<times> channel"

definition Channel_CreateConnectedChannels :: "os \<Rightarrow> connected_channels outcome" where
  "Channel_CreateConnectedChannels =
     bindM Socket_CreatePair (\<lambda>(s1, s2). returnM (Channel_of_socket s1, Channel_of_socket s2))"

definition Channel_setMessageReceivedCallback :: "nat option \<Rightarrow> channel \<Rightarrow> channel" where
  "Channel_setMessageReceivedCallback f c = c\<lparr>ch_messageReceivedCallback := f\<rparr>"

definition Channel_setTerminationCallback :: "nat option \<Rightarrow> channel \<Rightarrow> channel" where
  "Channel_setTerminationCallback f c = c\<lparr>ch_terminationCallback := f\<rparr>"

definition Channel_messageReceivedCallback :: "channel \<Rightarrow> nat option" where
  "Channel_messageReceivedCallback c = ch_messageReceivedCallback c"

definition Channel_terminationCallback :: "channel \<Rightarrow> nat option" where
  "Channel_terminationCallback c = ch_terminationCallback c"

definition Channel_isConnected :: "channel \<Rightarrow> bool" where
  "Channel_isConnected c = ch_connected c"

definition Channel_isReady :: "channel \<Rightarrow> bool" where
  "Channel_isReady c = ch_ready c"

section \<open>Operations\<close>

definition Channel_terminate :: "'x callbacks \<Rightarrow> channel \<times> 'x \<Rightarrow> os \<Rightarrow> (channel \<times> 'x) outcome" where
  "Channel_terminate cb cx =
     (let (c, x) = cx in
      bindM (Socket_close (ch_socket c)) (\<lambda>(closed, s).
        let c' = c\<lparr>ch_socket := s, ch_connected := False, ch_ready := False\<rparr> in
        (case ch_terminationCallback c' of
           None \<Rightarrow> returnM (c', x)
         | Some f \<Rightarrow>
             if closed then seqM (emit (Terminated f)) (cb_terminate cb f (c', x))
             else returnM (c', x))))"

definition Channel_dtor :: "'x callbacks \<Rightarrow> channel \<times> 'x \<Rightarrow> os \<Rightarrow> 'x outcome" where
  "Channel_dtor cb cx =
     bindM (Channel_terminate cb cx) (\<lambda>(c, x).
     bindM (Socket_dtor (ch_socket c)) (\<lambda>_. returnM x))"

definition Channel_tryConnect :: "channel \<Rightarrow> os \<Rightarrow> (bool \<times> channel) outcome" where
  "Channel_tryConnect c =
     (if ch_connected c then returnM (True, c)
      else
        bindM (Socket_connect (ch_name c) (ch_socket c)) (\<lambda>b.
          returnM (b, c\<lparr>ch_connected := b\<rparr>)))"

text \<open>The source of a channel, made at the first call; \<open>cid\<close> is the identity of the channel.\<close>

definition Channel_source ::
  "nat \<Rightarrow> channel \<Rightarrow> source_store \<Rightarrow> os \<Rightarrow> (nat \<times> channel \<times> source_store) outcome" where
  "Channel_source cid c st =
     (if ch_source c \<noteq> 0 then returnM (ch_source c, c, st)
      else
        seqM (CL_ASSERT (ch_connected c)) (
          let h = sk_handle (ch_socket c);
              (p, st') = store_new (LooperSource_ctor (Some (FixedHandles h h)) None
                           (Some (ChannelReader cid)) None) st in
          returnM (p, c\<lparr>ch_source := p\<rparr>, st')))"

definition Channel_sendMessage ::
  "'x callbacks \<Rightarrow> message \<Rightarrow> channel \<times> 'x \<Rightarrow> os \<Rightarrow> (bool \<times> channel \<times> 'x) outcome" where
  "Channel_sendMessage cb m cx =
     (let (c, x) = cx in
      seqM (CL_ASSERT (Message_size m \<le> 1024)) (
      bindM (Socket_WriteMessage m (ch_socket c)) (\<lambda>(writeStatus, s).
        let c' = c\<lparr>ch_socket := s\<rparr> in
        if writeStatus = PermanentFailure
        then bindM (Channel_terminate cb (c', x)) (\<lambda>cx'. returnM (False, cx'))
        else returnM (writeStatus = Success, c', x))))"

text \<open>
  The callback slot is read again for each message; calling an empty \<open>std::function\<close> throws, and
  nothing catches.
\<close>

fun dispatch_messages ::
  "'x callbacks \<Rightarrow> message list \<Rightarrow> channel \<times> 'x \<Rightarrow> os \<Rightarrow> (channel \<times> 'x) outcome" where
  "dispatch_messages cb [] cx = returnM cx"
| "dispatch_messages cb (m # ms) cx =
     (case ch_messageReceivedCallback (fst cx) of
        None \<Rightarrow> failM MemoryFault
      | Some f \<Rightarrow>
          seqM (emit (MessageReceived f (Message_data m) (map att_handle (m_attachments m)))) (
          bindM (cb_message cb f m cx) (dispatch_messages cb ms)))"

definition Channel_readMessageOnHandle ::
  "'x callbacks \<Rightarrow> handle \<Rightarrow> channel \<times> 'x \<Rightarrow> os \<Rightarrow> (channel \<times> 'x) outcome" where
  "Channel_readMessageOnHandle cb h cx =
     (let (c, x) = cx in
      bindM (Socket_ReadMessages (ch_socket c)) (\<lambda>((status, messages), s).
      let c' = c\<lparr>ch_socket := s\<rparr> in
      bindM
        (if ch_messageReceivedCallback c' \<noteq> None then dispatch_messages cb messages (c', x)
         else returnM (c', x))
        (\<lambda>cx'. if status = PermanentFailure then Channel_terminate cb cx' else returnM cx')))"

text \<open>The looper is a pointer, which may be null.\<close>

definition Channel_scheduleInLooper ::
  "platform \<Rightarrow> user_code \<Rightarrow> nat \<Rightarrow> channel \<Rightarrow> 'c thread_state option \<Rightarrow> os \<Rightarrow>
   (channel \<times> 'c thread_state option) outcome" where
  "Channel_scheduleInLooper pf u cid c looper =
     (case looper of
        None \<Rightarrow> returnM (c, None)
      | Some ts \<Rightarrow>
          if \<not> ch_connected c then returnM (c, Some ts)
          else
            bindM (Channel_source cid c (ts_sources ts)) (\<lambda>(p, c', st).
            bindM (Looper_addSource pf u p (ts\<lparr>ts_sources := st\<rparr>)) (\<lambda>(_, ts').
            returnM (c', Some ts'))))"

definition Channel_unscheduleFromLooper ::
  "platform \<Rightarrow> user_code \<Rightarrow> channel \<Rightarrow> 'c thread_state option \<Rightarrow> os \<Rightarrow> 'c thread_state option outcome" where
  "Channel_unscheduleFromLooper pf u c looper =
     (case looper of
        None \<Rightarrow> returnM None
      | Some ts \<Rightarrow>
          bindM (Looper_removeSource pf u (ch_source c) ts) (\<lambda>(_, ts'). returnM (Some ts')))"

section \<open>The end of a channel\<close>

definition terminations :: "nat \<Rightarrow> os \<Rightarrow> nat" where
  "terminations f w = length (filter (\<lambda>e. e = Terminated f) (os_trace w))"

text \<open>Client code that leaves the channel it is called on to the library.\<close>

definition respectful :: "handle \<Rightarrow> nat \<Rightarrow> 'x callbacks \<Rightarrow> bool" where
  "respectful h f cb \<longleftrightarrow>
     (\<forall>g m cx w cx' w'. cb_message cb g m cx w = Done cx' w' \<longrightarrow>
        fst cx' = fst cx \<and> closes h w' = closes h w \<and> terminations f w' = terminations f w) \<and>
     (\<forall>g cx w cx' w'. cb_terminate cb g cx w = Done cx' w' \<longrightarrow>
        fst cx' = fst cx \<and> closes h w' = closes h w \<and> terminations f w' = terminations f w)"

lemma respectful_message:
  assumes "respectful h f cb" "cb_message cb g m cx w = Done cx' w'"
  shows "fst cx' = fst cx" "closes h w' = closes h w" "terminations f w' = terminations f w"
  using assms unfolding respectful_def by blast+

lemma respectful_terminate:
  assumes "respectful h f cb" "cb_terminate cb g cx w = Done cx' w'"
  shows "fst cx' = fst cx" "closes h w' = closes h w" "terminations f w' = terminations f w"
  using assms unfolding respectful_def by blast+

lemma emit_counts [simp]:
  "closes h (w\<lparr>os_trace := os_trace w @ [Terminated g]\<rparr>) = closes h w"
  "terminations f (w\<lparr>os_trace := os_trace w @ [Terminated g]\<rparr>) =
     terminations f w + (if g = f then 1 else 0)"
  "closes h (w\<lparr>os_trace := os_trace w @ [MessageReceived g b hs]\<rparr>) = closes h w"
  "terminations f (w\<lparr>os_trace := os_trace w @ [MessageReceived g b hs]\<rparr>) = terminations f w"
  by (simp_all add: closes_def terminations_def)

lemma terminations_same:
  assumes "forward P m" "m w = Done a w'" "\<And>e. P e \<Longrightarrow> e \<noteq> Terminated f"
  shows "terminations f w' = terminations f w"
  using forward_Done [OF assms(1,2)] assms(3)
  by (auto simp: terminations_def os_le_def filter_empty_conv)

text \<open>
  The invariant of a channel that started with the descriptor \<open>h\<close> and the callback \<open>f\<close>: either
  nothing has ended, or both the descriptor and the client have been told, once each.
\<close>

definition channel_inv :: "handle \<Rightarrow> nat \<Rightarrow> nat \<Rightarrow> nat \<Rightarrow> channel \<Rightarrow> os \<Rightarrow> bool" where
  "channel_inv h f n k c w \<longleftrightarrow>
     ch_terminationCallback c = Some f \<and>
     (sk_handle (ch_socket c) = h \<and> closes h w = n \<and> terminations f w = k \<or>
      sk_handle (ch_socket c) = -1 \<and> closes h w = Suc n \<and> terminations f w = Suc k)"

definition channel_over :: "handle \<Rightarrow> nat \<Rightarrow> nat \<Rightarrow> nat \<Rightarrow> channel \<Rightarrow> os \<Rightarrow> bool" where
  "channel_over h f n k c w \<longleftrightarrow>
     ch_terminationCallback c = Some f \<and> sk_handle (ch_socket c) = -1 \<and>
     closes h w = Suc n \<and> terminations f w = Suc k"

lemma Socket_close_forward [forward_intros]:
  "(\<And>h r. P (Sys (Close h) r)) \<Longrightarrow> (\<And>e. P (LogErrno e)) \<Longrightarrow> forward P (Socket_close s)"
  unfolding Socket_close_def by (intro forward_intros)

lemma Socket_close_terminations:
  assumes "Socket_close s w = Done r w'"
  shows "terminations f w' = terminations f w"
proof -
  have "forward (\<lambda>e. e \<noteq> Terminated f) (Socket_close s)" by (intro forward_intros) simp_all
  from terminations_same [OF this assms] show ?thesis by simp
qed

lemma channel_inv_terminate:
  assumes "channel_inv h f n k c w" "h \<noteq> -1" "respectful h f cb"
    "Channel_terminate cb (c, x) w = Done (c', x') w'"
  shows "channel_over h f n k c' w'"
proof -
  obtain closed s w1 where cl: "Socket_close (ch_socket c) w = Done (closed, s) w1"
    using assms(4) by (auto simp: Channel_terminate_def bind_out_Done_iff)
  note close = sock.close_result [OF cl] sock.close_closes [OF cl]
    Socket_close_terminations [OF cl, of f]
  let ?c = "c\<lparr>ch_socket := s, ch_connected := False, ch_ready := False\<rparr>"
  have cb: "ch_terminationCallback c = Some f" using assms(1) by (simp add: channel_inv_def)
  show ?thesis
  proof (cases "sk_handle (ch_socket c) = -1")
    case True
    with sock.close_closed [OF True, of w] cl have "closed = False" "s = ch_socket c" "w1 = w" by auto
    with assms(4) cl cb have "c' = ?c" "w' = w" by (auto simp: Channel_terminate_def)
    with True assms(1,2) \<open>s = ch_socket c\<close> show ?thesis
      by (auto simp: channel_inv_def channel_over_def)
  next
    case False
    with assms(4) cl cb close(2) have t: "cb_terminate cb f (?c, x)
        (w1\<lparr>os_trace := os_trace w1 @ [Terminated f]\<rparr>) = Done (c', x') w'"
      by (auto simp: Channel_terminate_def emit_def bind_out_Done_iff)
    from respectful_terminate [OF assms(3) t] False assms(1) close cb show ?thesis
      by (auto simp: channel_inv_def channel_over_def)
  qed
qed

lemma channel_over_inv: "channel_over h f n k c w \<Longrightarrow> channel_inv h f n k c w"
  by (simp add: channel_inv_def channel_over_def)

lemma channel_inv_same:
  assumes "channel_inv h f n k c w" "sk_handle (ch_socket c') = sk_handle (ch_socket c)"
    "ch_terminationCallback c' = ch_terminationCallback c"
    "closes h w' = closes h w" "terminations f w' = terminations f w"
  shows "channel_inv h f n k c' w'"
  using assms by (simp add: channel_inv_def)

lemma only_on_not_terminated: "only_on h e \<Longrightarrow> e \<noteq> Terminated f"
  by (auto simp: only_on_def)

lemma dispatch_messages_keeps:
  assumes "dispatch_messages cb ms cx w = Done cx' w'" "respectful h f cb"
  shows "fst cx' = fst cx \<and> closes h w' = closes h w \<and> terminations f w' = terminations f w"
  using assms(1)
proof (induction ms arbitrary: cx w)
  case (Cons m ms)
  then obtain g cx1 w1 where g: "cb_message cb g m cx (w\<lparr>os_trace := os_trace w @
      [MessageReceived g (Message_data m) (map att_handle (m_attachments m))]\<rparr>) = Done cx1 w1"
    "dispatch_messages cb ms cx1 w1 = Done cx' w'"
    by (auto simp: emit_def bind_out_Done_iff split: option.splits)
  from respectful_message [OF assms(2) g(1)] Cons.IH [OF g(2)] show ?case by simp
qed simp

datatype channel_op = ChConnect | ChSend message | ChRead handle | ChTerminate

fun channel_run :: "'x callbacks \<Rightarrow> channel_op list \<Rightarrow> channel \<times> 'x \<Rightarrow> os \<Rightarrow> (channel \<times> 'x) outcome" where
  "channel_run cb [] cx = returnM cx"
| "channel_run cb (ChConnect # ops) cx =
     bindM (Channel_tryConnect (fst cx)) (\<lambda>(_, c). channel_run cb ops (c, snd cx))"
| "channel_run cb (ChSend m # ops) cx =
     bindM (Channel_sendMessage cb m cx) (\<lambda>(_, cx'). channel_run cb ops cx')"
| "channel_run cb (ChRead h # ops) cx =
     bindM (Channel_readMessageOnHandle cb h cx) (channel_run cb ops)"
| "channel_run cb (ChTerminate # ops) cx = bindM (Channel_terminate cb cx) (channel_run cb ops)"

lemma channel_inv_connect:
  assumes "channel_inv h f n k c w" "Channel_tryConnect c w = Done (b, c') w'"
  shows "channel_inv h f n k c' w'"
proof (cases "ch_connected c")
  case True
  with assms show ?thesis by (simp add: Channel_tryConnect_def)
next
  case False
  with assms(2) have "Socket_connect (ch_name c) (ch_socket c) w = Done b w'" "c' = c\<lparr>ch_connected := b\<rparr>"
    by (auto simp: Channel_tryConnect_def bind_out_Done_iff)
  moreover have "forward (\<lambda>e. \<exists>h p r. e = Sys (Connect h p) r) (Socket_connect (ch_name c) (ch_socket c))"
    by (intro forward_intros) auto
  ultimately show ?thesis
    using closes_same [where h = h] terminations_same [where f = f]
    by (intro channel_inv_same [OF assms(1)]) (simp_all, (fastforce+))
qed

lemma sendMessage_DoneE:
  assumes "Channel_sendMessage cb m (c, x) w = Done (b, cx') w'"
  obtains st s w1 where "Socket_WriteMessage m (ch_socket c) w = Done (st, s) w1"
    "b \<longleftrightarrow> st = Success"
    "if st = PermanentFailure then Channel_terminate cb (c\<lparr>ch_socket := s\<rparr>, x) w1 = Done cx' w'
     else cx' = (c\<lparr>ch_socket := s\<rparr>, x) \<and> w' = w1"
proof -
  from assms obtain st s w1 where s: "Socket_WriteMessage m (ch_socket c) w = Done (st, s) w1" and
    r: "(if st = PermanentFailure
       then bindM (Channel_terminate cb (c\<lparr>ch_socket := s\<rparr>, x)) (\<lambda>cx'. returnM (False, cx'))
       else returnM (st = Success, c\<lparr>ch_socket := s\<rparr>, x)) w1 = Done (b, cx') w'"
    by (auto simp: Channel_sendMessage_def Let_def bind_out_Done_iff CL_ASSERT_Done)
  show ?thesis
  proof (cases "st = PermanentFailure")
    case True
    with r have "\<not> b \<and> Channel_terminate cb (c\<lparr>ch_socket := s\<rparr>, x) w1 = Done cx' w'"
      by (auto simp: bind_out_Done_iff)
    with s True show ?thesis by (intro that [of st s w1]) simp_all
  next
    case False
    with r s show ?thesis by (intro that [of st s w1]) auto
  qed
qed

lemma readMessage_DoneE:
  assumes "Channel_readMessageOnHandle cb fd (c, x) w = Done cx' w'"
  obtains st ms s w1 cx2 w2 where "Socket_ReadMessages (ch_socket c) w = Done ((st, ms), s) w1"
    "if ch_messageReceivedCallback c \<noteq> None
     then dispatch_messages cb ms (c\<lparr>ch_socket := s\<rparr>, x) w1 = Done cx2 w2
     else cx2 = (c\<lparr>ch_socket := s\<rparr>, x) \<and> w2 = w1"
    "if st = PermanentFailure then Channel_terminate cb cx2 w2 = Done cx' w' else cx' = cx2 \<and> w' = w2"
proof -
  obtain res w1 where res: "Socket_ReadMessages (ch_socket c) w = Done res w1"
    using assms by (cases "Socket_ReadMessages (ch_socket c) w") (simp_all add: Channel_readMessageOnHandle_def)
  obtain st ms s where [simp]: "res = ((st, ms), s)" by (metis surj_pair)
  have s: "Socket_ReadMessages (ch_socket c) w = Done ((st, ms), s) w1" using res by simp
  have "bind_out ((if ch_messageReceivedCallback (c\<lparr>ch_socket := s\<rparr>) \<noteq> None
        then dispatch_messages cb ms (c\<lparr>ch_socket := s\<rparr>, x) else returnM (c\<lparr>ch_socket := s\<rparr>, x)) w1)
      (\<lambda>cx'. if st = PermanentFailure then Channel_terminate cb cx' else returnM cx') = Done cx' w'"
    using assms by (simp add: Channel_readMessageOnHandle_def s Let_def split del: if_split)
  then obtain cx2 w2 where
    1: "(if ch_messageReceivedCallback (c\<lparr>ch_socket := s\<rparr>) \<noteq> None
       then dispatch_messages cb ms (c\<lparr>ch_socket := s\<rparr>, x) else returnM (c\<lparr>ch_socket := s\<rparr>, x)) w1 = Done cx2 w2" and
    2: "(if st = PermanentFailure then Channel_terminate cb cx2 else returnM cx2) w2 = Done cx' w'"
    by (rule bind_out_DoneE)
  have "if ch_messageReceivedCallback c \<noteq> None
     then dispatch_messages cb ms (c\<lparr>ch_socket := s\<rparr>, x) w1 = Done cx2 w2
     else cx2 = (c\<lparr>ch_socket := s\<rparr>, x) \<and> w2 = w1"
    using 1 by (cases "ch_messageReceivedCallback c = None") auto
  moreover have "if st = PermanentFailure then Channel_terminate cb cx2 w2 = Done cx' w' else cx' = cx2 \<and> w' = w2"
    using 2 by (cases "st = PermanentFailure") auto
  ultimately show ?thesis using s that by blast
qed

lemma channel_inv_send:
  assumes "channel_inv h f n k (fst cx) w" "h \<noteq> -1" "respectful h f cb"
    "Channel_sendMessage cb m cx w = Done (b, cx') w'"
  shows "channel_inv h f n k (fst cx') w'"
proof -
  obtain c x where cx: "cx = (c, x)" by (cases cx)
  from assms(4) [unfolded cx] obtain st s w1 where
    s: "Socket_WriteMessage m (ch_socket c) w = Done (st, s) w1" and
    rest: "if st = PermanentFailure
      then Channel_terminate cb (c\<lparr>ch_socket := s\<rparr>, x) w1 = Done cx' w'
      else cx' = (c\<lparr>ch_socket := s\<rparr>, x) \<and> w' = w1"
    by (rule sendMessage_DoneE)
  have inv: "channel_inv h f n k (c\<lparr>ch_socket := s\<rparr>) w1"
  proof (rule channel_inv_same)
    show "channel_inv h f n k c w" using assms(1) by (simp add: cx)
    show "closes h w1 = closes h w"
      by (rule closes_same [OF WriteMessage_forward s only_on_not_close])
    show "terminations f w1 = terminations f w"
      by (rule terminations_same [OF WriteMessage_forward s only_on_not_terminated])
  qed (simp_all add: WriteMessage_frame(1) [OF s])
  show ?thesis
  proof (cases "st = PermanentFailure")
    case True
    with rest have t: "Channel_terminate cb (c\<lparr>ch_socket := s\<rparr>, x) w1 = Done (fst cx', snd cx') w'" by simp
    from channel_over_inv [OF channel_inv_terminate [OF inv assms(2,3) t]] show ?thesis .
  next
    case False
    with rest inv show ?thesis by simp
  qed
qed

lemma channel_inv_read:
  assumes "channel_inv h f n k (fst cx) w" "h \<noteq> -1" "respectful h f cb"
    "Channel_readMessageOnHandle cb fd cx w = Done cx' w'"
  shows "channel_inv h f n k (fst cx') w'"
proof -
  obtain c x where cx: "cx = (c, x)" by (cases cx)
  from assms(4) [unfolded cx] obtain st ms s w1 cx2 w2 where
    s: "Socket_ReadMessages (ch_socket c) w = Done ((st, ms), s) w1" and
    d: "if ch_messageReceivedCallback c \<noteq> None
     then dispatch_messages cb ms (c\<lparr>ch_socket := s\<rparr>, x) w1 = Done cx2 w2
     else cx2 = (c\<lparr>ch_socket := s\<rparr>, x) \<and> w2 = w1" and
    rest: "if st = PermanentFailure then Channel_terminate cb cx2 w2 = Done cx' w' else cx' = cx2 \<and> w' = w2"
    by (rule readMessage_DoneE)
  have inv1: "channel_inv h f n k (c\<lparr>ch_socket := s\<rparr>) w1"
  proof (rule channel_inv_same)
    show "channel_inv h f n k c w" using assms(1) by (simp add: cx)
    show "closes h w1 = closes h w"
      by (rule closes_same [OF ReadMessages_forward s only_on_not_close])
    show "terminations f w1 = terminations f w"
      by (rule terminations_same [OF ReadMessages_forward s only_on_not_terminated])
  qed (simp_all add: ReadMessages_frame(1) [OF s])
  have "fst cx2 = c\<lparr>ch_socket := s\<rparr> \<and> closes h w2 = closes h w1 \<and> terminations f w2 = terminations f w1"
  proof (cases "ch_messageReceivedCallback c = None")
    case True
    with d show ?thesis by simp
  next
    case False
    with d have "dispatch_messages cb ms (c\<lparr>ch_socket := s\<rparr>, x) w1 = Done cx2 w2" by simp
    from dispatch_messages_keeps [OF this assms(3)] show ?thesis by simp
  qed
  then have inv2: "channel_inv h f n k (fst cx2) w2"
    by (intro channel_inv_same [OF inv1]) simp_all
  show ?thesis
  proof (cases "st = PermanentFailure")
    case True
    with rest have t: "Channel_terminate cb (fst cx2, snd cx2) w2 = Done (fst cx', snd cx') w'" by simp
    from channel_over_inv [OF channel_inv_terminate [OF inv2 assms(2,3) t]] show ?thesis .
  next
    case False
    with rest inv2 show ?thesis by simp
  qed
qed

lemma channel_inv_run:
  assumes "channel_run cb ops cx w = Done cx' w'" "channel_inv h f n k (fst cx) w" "h \<noteq> -1"
    "respectful h f cb"
  shows "channel_inv h f n k (fst cx') w'"
  using assms(1,2)
proof (induction ops arbitrary: cx w)
  case (Cons op ops)
  show ?case
  proof (cases op)
    case ChConnect
    with Cons.prems(1) obtain b c w1 where r: "Channel_tryConnect (fst cx) w = Done (b, c) w1"
        "channel_run cb ops (c, snd cx) w1 = Done cx' w'"
      by (auto simp: bind_out_Done_iff)
    from Cons.IH [OF r(2)] channel_inv_connect [OF Cons.prems(2) r(1)] show ?thesis by simp
  next
    case (ChSend m)
    with Cons.prems(1) obtain b cx1 w1 where r: "Channel_sendMessage cb m cx w = Done (b, cx1) w1"
        "channel_run cb ops cx1 w1 = Done cx' w'"
      by (auto simp: bind_out_Done_iff)
    from Cons.IH [OF r(2)] channel_inv_send [OF Cons.prems(2) assms(3,4) r(1)] show ?thesis by simp
  next
    case (ChRead fd)
    with Cons.prems(1) obtain cx1 w1 where r: "Channel_readMessageOnHandle cb fd cx w = Done cx1 w1"
        "channel_run cb ops cx1 w1 = Done cx' w'"
      by (auto simp: bind_out_Done_iff)
    from Cons.IH [OF r(2)] channel_inv_read [OF Cons.prems(2) assms(3,4) r(1)] show ?thesis by simp
  next
    case ChTerminate
    with Cons.prems(1) obtain c1 x1 w1 where r: "Channel_terminate cb (fst cx, snd cx) w = Done (c1, x1) w1"
        "channel_run cb ops (c1, x1) w1 = Done cx' w'"
      by (auto simp: bind_out_Done_iff)
    from Cons.IH [OF r(2)] channel_over_inv [OF channel_inv_terminate [OF Cons.prems(2) assms(3,4) r(1)]]
    show ?thesis by simp
  qed
qed simp

lemma addSource_member:
  assumes "WaitSet_addSource pf u p ws st w = Done (b, ws', st') w'"
  shows "p \<in> set (ws_sources ws')"
proof (cases "p \<in> set (ws_sources ws)")
  case True
  with assms show ?thesis by (auto simp: WaitSet_addSource_def set_contains_def)
next
  case False
  with assms have "ws' = ws\<lparr>ws_sources := insort p (ws_sources ws)\<rparr>"
    by (auto simp: WaitSet_addSource_def set_contains_def set_insert_def bind_out_Done_iff)
  then show ?thesis by (simp add: set_insort_key)
qed

section \<open>Deliveries\<close>

fun is_delivery :: "event \<Rightarrow> bool" where
  "is_delivery (MessageReceived f b hs) \<longleftrightarrow> True"
| "is_delivery e \<longleftrightarrow> False"

definition deliveries :: "os \<Rightarrow> event list" where
  "deliveries w = filter is_delivery (os_trace w)"

definition delivery :: "nat \<Rightarrow> message \<Rightarrow> event" where
  "delivery f m = MessageReceived f (Message_data m) (map att_handle (m_attachments m))"

text \<open>Client code that leaves the channel alone, and whose own events are not deliveries.\<close>

definition discreet :: "'x callbacks \<Rightarrow> bool" where
  "discreet cb \<longleftrightarrow>
     (\<forall>g m cx w cx' w'. cb_message cb g m cx w = Done cx' w' \<longrightarrow>
        fst cx' = fst cx \<and> os_le (\<lambda>e. \<not> is_delivery e) w w') \<and>
     (\<forall>g cx w cx' w'. cb_terminate cb g cx w = Done cx' w' \<longrightarrow>
        fst cx' = fst cx \<and> os_le (\<lambda>e. \<not> is_delivery e) w w')"

lemma undelivering_events:
  assumes "os_le (\<lambda>e. \<not> is_delivery e) w w'"
  obtains es where "os_trace w' = os_trace w @ es" "filter is_delivery es = []"
  using assms by (auto simp: os_le_def filter_empty_conv)

lemma dispatch_messages_delivers:
  assumes "dispatch_messages cb ms cx w = Done cx' w'" "discreet cb"
    "ch_messageReceivedCallback (fst cx) = Some g"
  shows "fst cx' = fst cx \<and>
    (\<exists>es. os_trace w' = os_trace w @ es \<and> filter is_delivery es = map (delivery g) ms)"
  using assms(1,3)
proof (induction ms arbitrary: cx w)
  case (Cons m ms)
  let ?w = "w\<lparr>os_trace := os_trace w @ [delivery g m]\<rparr>"
  from Cons.prems obtain cx1 w1 where g: "cb_message cb g m cx ?w = Done cx1 w1"
    "dispatch_messages cb ms cx1 w1 = Done cx' w'"
    by (auto simp: emit_def bind_out_Done_iff delivery_def)
  with assms(2) have 1: "fst cx1 = fst cx" "os_le (\<lambda>e. \<not> is_delivery e) ?w w1" unfolding discreet_def by blast+
  from undelivering_events [OF 1(2)] obtain es where
    es: "os_trace w1 = os_trace ?w @ es" "filter is_delivery es = []" .
  from Cons.IH [OF g(2)] Cons.prems(2) 1(1) obtain es' where
    es': "os_trace w' = os_trace w1 @ es'" "filter is_delivery es' = map (delivery g) ms" and "fst cx' = fst cx" by auto
  with es show ?case by (intro conjI exI [of _ "delivery g m # es @ es'"]) (simp_all add: delivery_def)
qed simp

lemma CL_CHECK_events:
  assumes "CL_CHECK c w = Done r w'"
  obtains es where "os_trace w' = os_trace w @ Sys c r # es" "filter is_delivery es = []"
  using assms
  by (auto simp: CL_CHECK_def CL_CHECK_EXPECT_def bind_out_Done_iff sys_def CL_LOG_ERRNO_def emit_def CL_ASSERT_Done
      split: list.splits if_splits)

lemma Channel_terminate_discreet:
  assumes "Channel_terminate cb (c, x) w = Done (c', x') w'" "discreet cb" "sk_handle (ch_socket c) \<noteq> -1"
  shows "sk_handle (ch_socket c') = -1 \<and> \<not> ch_connected c' \<and> \<not> ch_ready c' \<and>
    (\<exists>k es. os_trace w' = os_trace w @ Sys (Close (sk_handle (ch_socket c))) k # es \<and> filter is_delivery es = [])"
proof -
  let ?s = "(ch_socket c)\<lparr>sk_handle := -1\<rparr>"
  let ?c = "c\<lparr>ch_socket := ?s, ch_connected := False, ch_ready := False\<rparr>"
  obtain k w1 where cl: "CL_CHECK (Close (sk_handle (ch_socket c))) w = Done k w1"
    "Socket_close (ch_socket c) w = Done (True, ?s) w1"
    using assms(1,3) by (auto simp: Channel_terminate_def Socket_close_def bind_out_Done_iff)
  obtain es where es: "os_trace w1 = os_trace w @ Sys (Close (sk_handle (ch_socket c))) k # es" "filter is_delivery es = []"
    by (rule CL_CHECK_events [OF cl(1)])
  have "c' = ?c \<and> (\<exists>es'. os_trace w' = os_trace w1 @ es' \<and> filter is_delivery es' = [])"
  proof (cases "ch_terminationCallback c")
    case None
    with assms(1) cl(2) show ?thesis by (auto simp: Channel_terminate_def)
  next
    case (Some f)
    let ?w = "w1\<lparr>os_trace := os_trace w1 @ [Terminated f]\<rparr>"
    from Some assms(1) cl(2) have "cb_terminate cb f (?c, x) ?w = Done (c', x') w'"
      by (simp add: Channel_terminate_def emit_def)
    with assms(2) have t: "c' = ?c" "os_le (\<lambda>e. \<not> is_delivery e) ?w w'" unfolding discreet_def by fastforce+
    from undelivering_events [OF t(2)] obtain es' where "os_trace w' = os_trace ?w @ es'" "filter is_delivery es' = []" .
    with t(1) show ?thesis by (intro conjI exI [of _ "Terminated f # es'"]) simp_all
  qed
  with es show ?thesis by auto
qed

section \<open>Termination from within a callback\<close>

text \<open>A client that terminates the channel when it receives a message that satisfies \<open>stop\<close>.\<close>

definition stops_on :: "(message \<Rightarrow> bool) \<Rightarrow> nat \<Rightarrow> nat \<Rightarrow> 'x callbacks \<Rightarrow> bool" where
  "stops_on stop g f cb \<longleftrightarrow>
     (\<forall>m cx w. cb_message cb g m cx w = (if stop m then Channel_terminate cb cx w else Done cx w)) \<and>
     (\<forall>cx w. cb_terminate cb f cx w = Done cx w)"

lemma terminate_again:
  assumes "sk_handle (ch_socket c) = -1" "\<not> ch_connected c" "\<not> ch_ready c"
  shows "Channel_terminate cb (c, x) w = Done (c, x) w"
  using assms by (cases c) (auto simp: Channel_terminate_def sock.close_closed Let_def split: option.split)

lemma terminate_evaluated:
  assumes "sk_handle (ch_socket c) \<noteq> -1" "ch_terminationCallback c = Some f" "stops_on stop g f cb"
    "os_script w = k # rest" "r_rc k = 0"
  shows "Channel_terminate cb (c, x) w =
    Done (c\<lparr>ch_socket := (ch_socket c)\<lparr>sk_handle := -1\<rparr>, ch_connected := False, ch_ready := False\<rparr>, x)
      (answered (Close (sk_handle (ch_socket c))) [k] w
        \<lparr>os_trace := os_trace w @ [Sys (Close (sk_handle (ch_socket c))) k, Terminated f]\<rparr>)"
  using assms by (simp add: Channel_terminate_def Socket_close_def CL_CHECK_success emit_def stops_on_def)

text \<open>Messages on which nothing happens: before the stop none satisfies it, after it the channel has ended.\<close>

lemma dispatch_messages_quiet:
  assumes "ch_messageReceivedCallback c = Some g" "stops_on stop g f cb"
    "(\<forall>m \<in> set ms. \<not> stop m) \<or> sk_handle (ch_socket c) = -1 \<and> \<not> ch_connected c \<and> \<not> ch_ready c"
  shows "dispatch_messages cb ms (c, x) w =
    Done (c, x) (w\<lparr>os_trace := os_trace w @ map (delivery g) ms\<rparr>)"
  using assms(3)
proof (induction ms arbitrary: w)
  case (Cons m ms)
  let ?w = "w\<lparr>os_trace := os_trace w @ [delivery g m]\<rparr>"
  have "cb_message cb g m (c, x) ?w = Done (c, x) ?w"
    using assms(2) Cons.prems terminate_again [of c cb x] by (auto simp: stops_on_def)
  with Cons assms(1) show ?case by (auto simp: emit_def delivery_def)
qed simp

lemma dispatch_messages_append:
  "dispatch_messages cb (ms @ ms') cx = bindM (dispatch_messages cb ms cx) (dispatch_messages cb ms')"
proof (induction ms arbitrary: cx)
  case Nil
  show ?case by (rule ext) simp
next
  case (Cons m ms)
  have "dispatch_messages cb (ms @ ms') = (\<lambda>cx. bindM (dispatch_messages cb ms cx) (dispatch_messages cb ms'))"
    by (rule ext) (rule Cons)
  then show ?case
    by (intro ext) (simp add: bind_out_assoc seqM_eta bindM_eta split: option.split)
qed

section \<open>Sending, evaluated\<close>

lemma sendMessage_evaluated:
  assumes "os_script w = busy_answers bs @ is @ r # rest" "\<forall>b \<in> set bs. busy_ok b"
    "\<forall>i \<in> set is. interrupted i" "\<not> interrupted r" "\<not> would_block r"
    "Message_size m \<le> 1024" "\<not> lk_locked (sk_lock (ch_socket c))"
  shows "\<exists>w'. os_script w' = rest \<and>
    (let sent = (int_to_size (to_int (r_rc r)) = Message_size m) in
     Channel_sendMessage cb m (c, x) w =
       (if \<not> sent \<and> r_errno r = EPIPE
        then bind_out (Channel_terminate cb (c, x) w') (\<lambda>cx'. Done (False, cx'))
        else Done (sent, c, x) w'))"
proof -
  have "unat (Message_size m) \<le> MaxBufferSize"
    using assms(6) by (simp add: word_le_nat_alt MaxBufferSize_def)
  from Socket_WriteMessage_result [OF assms(1-5) this assms(7)] obtain w' where
    "Socket_WriteMessage m (ch_socket c) w =
      Done ((if int_to_size (to_int (r_rc r)) = Message_size m then Success
             else if r_errno r = EPIPE then PermanentFailure else TemporaryFailure), ch_socket c) w'"
    "os_script w' = rest"
    by blast
  then show ?thesis
    using assms(6)
    by (intro exI [of _ w']) (simp add: Channel_sendMessage_def CL_ASSERT_holds Let_def returnM_eta)
qed

lemma Channel_sendMessage_sent:
  assumes "os_script w = busy_answers bs @ is @ r # rest" "\<forall>b \<in> set bs. busy_ok b"
    "\<forall>i \<in> set is. interrupted i" "\<not> interrupted r" "\<not> would_block r"
    "Message_size m \<le> 1024" "\<not> lk_locked (sk_lock (ch_socket c))"
    "int_to_size (to_int (r_rc r)) = Message_size m"
  shows "\<exists>w'. Channel_sendMessage cb m (c, x) w = Done (True, c, x) w' \<and> os_script w' = rest"
  using sendMessage_evaluated [OF assms(1-7), of cb x] assms(8) by (auto simp: Let_def)

lemma sendMessage_taken:
  assumes "Message_wf m" "Message_size m \<le> 1024"
    "os_script v = busy_answers bs @ is @ k # rest" "\<forall>b \<in> set bs. busy_ok b" "\<forall>i \<in> set is. interrupted i"
    "r_rc k = int (unat (Message_size m))" "\<not> lk_locked (sk_lock (ch_socket c))"
  obtains v' es where "Channel_sendMessage cb m (c, x) v = Done (True, c, x) v'" "os_script v' = rest"
    "os_trace v' = es @ [Sys (Sendmsg (sk_handle (ch_socket c)) (Message_data m) (attachment_control (m_attachments m))) k]"
proof -
  have "unat (Message_size m) \<le> MaxBufferSize"
    using assms(2) by (simp add: word_le_nat_alt MaxBufferSize_def)
  from WriteMessage_taken [OF assms(1) this assms(3-7)] obtain v' es where
    "Socket_WriteMessage m (ch_socket c) v = Done (Success, ch_socket c) v'" "os_script v' = rest"
    "os_trace v' = es @ [Sys (Sendmsg (sk_handle (ch_socket c)) (Message_data m) (attachment_control (m_attachments m))) k]"
    by metis
  with assms(2) that show ?thesis by (simp add: Channel_sendMessage_def)
qed

section \<open>Properties\<close>

text \<open>
  C4: A channel ends once. Whatever is done with a channel that owns the descriptor \<open>h\<close> and has a
  termination callback (connecting, sending, reading, terminating, in any order and with any
  answers of the kernel), when its destructor has run the descriptor was closed exactly once
  and the callback was invoked exactly once.
\<close>

theorem Channel_terminated_once:
  assumes "channel_run cb ops (c, x) w = Done cx1 w1" "Channel_dtor cb cx1 w1 = Done x2 w2"
    "ch_terminationCallback c = Some f" "sk_handle (ch_socket c) = h" "h \<noteq> -1" "respectful h f cb"
  shows "closes h w2 = Suc (closes h w) \<and> terminations f w2 = Suc (terminations f w)"
proof -
  have inv: "channel_inv h f (closes h w) (terminations f w) (fst (c, x)) w"
    using assms(3,4) by (simp add: channel_inv_def)
  note inv1 = channel_inv_run [OF assms(1) inv assms(5,6)]
  from assms(2) obtain c3 x3 w3 r w4 where t: "Channel_terminate cb (fst cx1, snd cx1) w1 = Done (c3, x3) w3"
    and d: "Socket_dtor (ch_socket c3) w3 = Done r w4" and w2: "w2 = w4"
    by (auto simp: Channel_dtor_def bind_out_Done_iff)
  from channel_inv_terminate [OF inv1 assms(5,6) t]
  have over: "channel_over h f (closes h w) (terminations f w) c3 w3" .
  then have "sk_handle (ch_socket c3) = -1" by (simp add: channel_over_def)
  from sock.close_closed [OF this] d have "w4 = w3" by (simp add: Socket_dtor_def)
  with over w2 show ?thesis by (simp add: channel_over_def)
qed

text \<open>
  C21: Reading. When the kernel has any number of well-formed packets for the channel and then an
  answer that ends the reading, the socket is drained first; then the callback is invoked with the data
  and descriptors of every packet, in order; and only then, and only if the answer that ended the
  reading was an orderly shutdown (no bytes), the descriptor is closed, after which nothing is
  delivered any more. Otherwise, after a connection reset for instance, the channel stays as it was.
\<close>

theorem Channel_read_dispatches:
  assumes "os_script w = rounds bs @ is @ r # rest" "good_rounds bs"
    "\<forall>i \<in> set is. interrupted i" "read_end r = Some st" "socket_ready (ch_socket c)" "\<forall>k. os_malloc w k"
    "\<not> lk_locked (sk_lock (ch_socket c))" "ch_messageReceivedCallback c = Some g" "discreet cb"
    "sk_handle (ch_socket c) \<noteq> -1" "Channel_readMessageOnHandle cb h (c, x) w = Done (c', x') w'"
  shows "\<exists>dispatched after.
    os_trace w' = os_trace w @ map (Sys (recv_call (ch_socket c))) (rounds bs @ is @ [r]) @ dispatched @ after \<and>
    filter is_delivery dispatched = map (\<lambda>(_, p). delivery g (packet_message p)) bs \<and>
    (if r_rc r = 0
     then sk_handle (ch_socket c') = -1 \<and> \<not> ch_connected c' \<and> \<not> ch_ready c' \<and>
       (\<exists>k es. after = Sys (Close (sk_handle (ch_socket c))) k # es \<and> filter is_delivery es = [])
     else sk_handle (ch_socket c') = sk_handle (ch_socket c) \<and> ch_connected c' = ch_connected c \<and>
       ch_ready c' = ch_ready c \<and> after = [])"
proof -
  let ?ms = "map (\<lambda>(_, p). packet_message p) bs"
  have gone: "st = PermanentFailure \<longleftrightarrow> r_rc r = 0" using assms(4) by (auto simp: read_end_def split: if_splits)
  obtain s1 w1 where rd: "Socket_ReadMessages (ch_socket c) w = Done ((st, ?ms), s1) w1"
    "sk_handle s1 = sk_handle (ch_socket c)"
    "os_trace w1 = os_trace w @ map (Sys (recv_call (ch_socket c))) (rounds bs @ is @ [r])"
    using ReadMessages_drains [OF assms(1-7)] by metis
  from assms(11) obtain st' ms' s' v cx2 w2 where
    1: "Socket_ReadMessages (ch_socket c) w = Done ((st', ms'), s') v" and
    2: "if ch_messageReceivedCallback c \<noteq> None
     then dispatch_messages cb ms' (c\<lparr>ch_socket := s'\<rparr>, x) v = Done cx2 w2
     else cx2 = (c\<lparr>ch_socket := s'\<rparr>, x) \<and> w2 = v" and
    3: "if st' = PermanentFailure then Channel_terminate cb cx2 w2 = Done (c', x') w' else (c', x') = cx2 \<and> w' = w2"
    by (rule readMessage_DoneE)
  from 1 rd(1) have eq: "st' = st" "ms' = ?ms" "s' = s1" "v = w1" by simp_all
  have "dispatch_messages cb ?ms (c\<lparr>ch_socket := s1\<rparr>, x) w1 = Done cx2 w2"
    using 2 assms(8) eq by simp
  from dispatch_messages_delivers [OF this assms(9), of g] assms(8) obtain es where
    d: "fst cx2 = c\<lparr>ch_socket := s1\<rparr>" "os_trace w2 = os_trace w1 @ es" "filter is_delivery es = map (delivery g) ?ms"
    by auto
  have ms: "map (delivery g) ?ms = map (\<lambda>(_, p). delivery g (packet_message p)) bs" by auto
  show ?thesis
  proof (cases "st = PermanentFailure")
    case True
    with 3 eq have "Channel_terminate cb (fst cx2, snd cx2) w2 = Done (c', x') w'" by simp
    from Channel_terminate_discreet [OF this assms(9)] d(1) rd(2) assms(10) obtain k es' where
      "sk_handle (ch_socket c') = -1" "\<not> ch_connected c'" "\<not> ch_ready c'" "filter is_delivery es' = []"
      "os_trace w' = os_trace w2 @ Sys (Close (sk_handle (ch_socket c))) k # es'" by auto
    with True gone d rd(3) ms show ?thesis
      by (intro exI [of _ es] exI [of _ "Sys (Close (sk_handle (ch_socket c))) k # es'"]) simp
  next
    case False
    with 3 eq gone d rd(2,3) ms show ?thesis by (intro exI [of _ es] exI [of _ "[]"]) auto
  qed
qed

text \<open>
  Sending. For a message of at most 1024 bytes on a free lock, after any number of full-queue
  rounds and interruptions, the call returns true iff the kernel took the whole message; it
  terminates the channel iff the peer is gone (\<open>EPIPE\<close>), and otherwise leaves it as it was.
\<close>

theorem Channel_sendMessage_result:
  assumes "os_script w = busy_answers bs @ is @ r # rest" "\<forall>b \<in> set bs. busy_ok b"
    "\<forall>i \<in> set is. interrupted i" "\<not> interrupted r" "\<not> would_block r"
    "Message_size m \<le> 1024" "\<not> lk_locked (sk_lock (ch_socket c))"
  shows "\<exists>w'. os_script w' = rest \<and>
    (let sent = (int_to_size (to_int (r_rc r)) = Message_size m) in
     Channel_sendMessage cb m (c, x) w =
       (if \<not> sent \<and> r_errno r = EPIPE
        then bind_out (Channel_terminate cb (c, x) w') (\<lambda>cx'. Done (False, cx'))
        else Done (sent, c, x) w'))"
  by (rule sendMessage_evaluated [OF assms])

text \<open>
  Scheduling is idempotent: a channel that has been scheduled in a looper keeps its one source
  and scheduling it there again changes nothing and makes no call. A channel that is not
  connected is not scheduled, and unscheduling one that never was does nothing.
\<close>

theorem Channel_schedule_idempotent:
  assumes "Channel_scheduleInLooper pf u cid c (Some ts) w = Done (c1, Some ts1) w1" "0 < sr_next (ts_sources ts)"
  shows "(\<forall>v. Channel_scheduleInLooper pf u cid c1 (Some ts1) v = Done (c1, Some ts1) v) \<and>
    (if ch_connected c then ch_source c1 \<in> set (ws_sources (lp_waitSet (ts_looper ts1)))
     else c1 = c \<and> ts1 = ts \<and> w1 = w) \<and>
    (ch_source c \<notin> set (ws_sources (lp_waitSet (ts_looper ts))) \<longrightarrow>
       (\<forall>v. Channel_unscheduleFromLooper pf u c (Some ts) v = Done (Some ts) v))"
proof -
  have un: "ch_source c \<notin> set (ws_sources (lp_waitSet (ts_looper ts))) \<longrightarrow>
       (\<forall>v. Channel_unscheduleFromLooper pf u c (Some ts) v = Done (Some ts) v)"
    by (simp add: Channel_unscheduleFromLooper_def Looper_removeSource_def WaitSet_removeSource_def
        set_contains_def)
  show ?thesis
  proof (cases "ch_connected c")
    case False
    with assms(1) have "c1 = c \<and> ts1 = ts \<and> w1 = w" by (auto simp: Channel_scheduleInLooper_def)
    with False un show ?thesis by (simp add: Channel_scheduleInLooper_def)
  next
    case True
    with assms(1) obtain p st w2 b where
      p: "Channel_source cid c (ts_sources ts) w = Done (p, c1, st) w2" and
      a: "Looper_addSource pf u p (ts\<lparr>ts_sources := st\<rparr>) w2 = Done (b, ts1) w1"
      by (auto simp: Channel_scheduleInLooper_def bind_out_Done_iff)
    have c1: "ch_source c1 = p" "p \<noteq> 0" "ch_connected c1"
      using p assms(2) True
      by (auto simp: Channel_source_def store_new_def Let_def bind_out_Done_iff split: if_splits)
    obtain ws st' where "WaitSet_addSource pf u p (lp_waitSet (ts_looper ts)) st w2 = Done (b, ws, st') w1"
      "lp_waitSet (ts_looper ts1) = ws"
      using a by (auto simp: Looper_addSource_def bind_out_Done_iff)
    with addSource_member have mem: "p \<in> set (ws_sources (lp_waitSet (ts_looper ts1)))" by blast
    with c1 True un show ?thesis
      by (simp add: Channel_scheduleInLooper_def Channel_source_def Looper_addSource_def
          WaitSet_addSource_def set_contains_def)
  qed
qed

text \<open>
  Handle 0 is not a handle: a channel constructed from descriptor 0, a valid one, silently
  gets a new socket instead. The channel reports that it is connected, although no \<^verbatim>\<open>connect\<close>
  was made, and \<^verbatim>\<open>tryConnect\<close> will never make one.
\<close>

theorem Channel_of_handle_zero:
  assumes "Channel_of_handle 0 w = Done c w'" "\<not> os_ndebug w"
  shows "ch_connected c \<and> sk_handle (ch_socket c) \<noteq> 0 \<and>
    (\<exists>r evs. os_trace w' = os_trace w @ Sys SocketCreate r # evs \<and> r_rc r = sk_handle (ch_socket c) \<and>
      (\<forall>h p r'. Sys (Connect h p) r' \<notin> set evs)) \<and>
    (\<forall>v. Channel_tryConnect c v = Done (True, c) v)"
proof -
  from assms(1) obtain s where s: "Socket_ctor 0 w = Done s w'" "c = Channel_of_socket s"
    by (auto simp: Channel_of_handle_def Socket_Create_def bind_out_Done_iff)
  note configured = Socket_ctor_configured [OF s(1) assms(2)]
  have pos: "0 < sk_handle s" by (rule configured [THEN conjunct1])
  from configured [THEN conjunct2, THEN conjunct2, THEN conjunct2, THEN conjunct2]
  obtain r evs where "r_rc r = sk_handle s" "os_trace w' = os_trace w @ Sys SocketCreate r # evs"
    "\<forall>h p r'. Sys (Connect h p) r' \<notin> set evs"
    by auto
  then show ?thesis
    using s(2) pos by (auto simp: Channel_of_socket_def Channel_tryConnect_def)
qed

text \<open>
  C24: A client may terminate a channel from within its message callback. The descriptor is closed
  and the termination callback invoked at once, but the messages of the same read that were not
  yet dispatched are still delivered, after the termination; the channel is not closed again, not
  even when the read ended with the loss of the peer.
\<close>

theorem Channel_terminate_in_callback:
  assumes "os_script w = rounds (bs @ (js, p) # bs') @ is @ r # k # rest" "good_rounds (bs @ (js, p) # bs')"
    "\<forall>i \<in> set is. interrupted i" "read_end r = Some st" "socket_ready (ch_socket c)" "\<forall>k. os_malloc w k"
    "\<not> lk_locked (sk_lock (ch_socket c))" "sk_handle (ch_socket c) \<noteq> -1"
    "ch_messageReceivedCallback c = Some g" "ch_terminationCallback c = Some f" "stops_on stop g f cb"
    "\<forall>(_, q) \<in> set bs. \<not> stop (packet_message q)" "stop (packet_message p)" "r_rc k = 0"
  shows "\<exists>c' w'. Channel_readMessageOnHandle cb h (c, x) w = Done (c', x) w' \<and>
    \<not> Channel_isConnected c' \<and> \<not> Channel_isReady c' \<and> os_script w' = rest \<and>
    os_trace w' = os_trace w @ map (Sys (recv_call (ch_socket c))) (rounds (bs @ (js, p) # bs') @ is @ [r]) @
      map (delivery g) (map (\<lambda>(_, q). packet_message q) bs @ [packet_message p]) @
      [Sys (Close (sk_handle (ch_socket c))) k, Terminated f] @
      map (delivery g) (map (\<lambda>(_, q). packet_message q) bs')"
proof -
  let ?ms = "map (\<lambda>(_, q). packet_message q) bs" and ?ms' = "map (\<lambda>(_, q). packet_message q) bs'"
  obtain s1 w1 where rd: "Socket_ReadMessages (ch_socket c) w =
      Done ((st, ?ms @ packet_message p # ?ms'), s1) w1"
    "sk_handle s1 = sk_handle (ch_socket c)" "os_script w1 = k # rest"
    "os_trace w1 = os_trace w @ map (Sys (recv_call (ch_socket c))) (rounds (bs @ (js, p) # bs') @ is @ [r])"
    by (rule ReadMessages_drains [OF assms(1-7)]) simp
  let ?c = "c\<lparr>ch_socket := s1\<rparr>"
  let ?w2 = "w1\<lparr>os_trace := os_trace w1 @ map (delivery g) ?ms\<rparr>"
  let ?w3 = "?w2\<lparr>os_trace := os_trace ?w2 @ [delivery g (packet_message p)]\<rparr>"
  let ?h = "sk_handle (ch_socket c)"
  let ?c' = "?c\<lparr>ch_socket := s1\<lparr>sk_handle := -1\<rparr>, ch_connected := False, ch_ready := False\<rparr>"
  let ?w4 = "answered (Close ?h) [k] ?w3\<lparr>os_trace := os_trace ?w3 @ [Sys (Close ?h) k, Terminated f]\<rparr>"
  have before: "dispatch_messages cb ?ms (?c, x) w1 = Done (?c, x) ?w2"
    by (rule dispatch_messages_quiet [OF _ assms(11)]) (use assms(9,12) in auto)
  have "Channel_terminate cb (?c, x) ?w3 = Done (?c', x) ?w4"
    using terminate_evaluated [of ?c f stop g cb ?w3 k rest x] rd(2,3) assms(8,10,11,14) by simp
  then have stop: "cb_message cb g (packet_message p) (?c, x) ?w3 = Done (?c', x) ?w4"
    using assms(11,13) by (simp add: stops_on_def)
  have after: "dispatch_messages cb ?ms' (?c', x) v = Done (?c', x) (v\<lparr>os_trace := os_trace v @ map (delivery g) ?ms'\<rparr>)"
    for v
    by (rule dispatch_messages_quiet [OF _ assms(11)]) (use assms(9) in auto)
  have run: "dispatch_messages cb (?ms @ packet_message p # ?ms') (?c, x) w1 =
      Done (?c', x) (?w4\<lparr>os_trace := os_trace ?w4 @ map (delivery g) ?ms'\<rparr>)"
    using assms(9) before stop after
    by (simp add: dispatch_messages_append emit_def delivery_def)
  have "Channel_terminate cb (?c', x) v = Done (?c', x) v" for v
    by (rule terminate_again) simp_all
  with rd run assms(9) have "Channel_readMessageOnHandle cb h (c, x) w =
      Done (?c', x) (?w4\<lparr>os_trace := os_trace ?w4 @ map (delivery g) ?ms'\<rparr>)"
    by (simp add: Channel_readMessageOnHandle_def)
  with rd(3,4) show ?thesis
    by (intro exI [of _ ?c'] exI [of _ "?w4\<lparr>os_trace := os_trace ?w4 @ map (delivery g) ?ms'\<rparr>"])
      (simp add: Channel_isConnected_def Channel_isReady_def)
qed

text \<open>
  A channel without a message callback loses what it receives. A read takes the packets from
  the kernel, delivers nothing, and forgets the descriptors that came with them without closing
  any, since destroying an \<^verbatim>\<open>Attachment\<close> does nothing.
\<close>

theorem Channel_unheard_descriptors:
  assumes "os_script w = rounds bs @ is @ r # rest" "good_rounds bs"
    "\<forall>i \<in> set is. interrupted i" "read_end r = Some st" "st \<noteq> PermanentFailure"
    "socket_ready (ch_socket c)" "\<forall>k. os_malloc w k"
    "\<not> lk_locked (sk_lock (ch_socket c))" "ch_messageReceivedCallback c = None"
  shows "\<exists>s w'. Channel_readMessageOnHandle cb h (c, x) w = Done (c\<lparr>ch_socket := s\<rparr>, x) w' \<and>
    (\<exists>s' v'. Socket_ReadMessages (ch_socket c) w = Done ((st, map (\<lambda>(_, p). packet_message p) bs), s') v') \<and>
    os_trace w' = os_trace w @ map (Sys (recv_call (ch_socket c))) (rounds bs @ is @ [r]) \<and>
    deliveries w' = deliveries w \<and> (\<forall>k. closes k w' = closes k w)"
proof -
  obtain s1 w1 where rd: "Socket_ReadMessages (ch_socket c) w =
      Done ((st, map (\<lambda>(_, p). packet_message p) bs), s1) w1"
    "os_trace w1 = os_trace w @ map (Sys (recv_call (ch_socket c))) (rounds bs @ is @ [r])"
    by (rule ReadMessages_drains [OF assms(1-4,6-8)]) simp
  have "Channel_readMessageOnHandle cb h (c, x) w = Done (c\<lparr>ch_socket := s1\<rparr>, x) w1"
    using rd(1) assms(5,9) by (simp add: Channel_readMessageOnHandle_def)
  moreover have "filter is_delivery (map (Sys c) rs) = []" for c rs
    by (simp add: filter_empty_conv)
  moreover have "filter (is_close k) (map (Sys (recv_call s)) rs) = []" for k s rs
    by (simp add: filter_empty_conv recv_call_def)
  ultimately show ?thesis
    using rd by (intro exI [of _ s1] exI [of _ w1]) (auto simp: deliveries_def closes_def simp del: map_append)
qed

section \<open>Examples of the properties\<close>

definition quiet_callbacks :: "unit callbacks" where
  "quiet_callbacks = \<lparr>cb_message = (\<lambda>_ _ cx. returnM cx), cb_terminate = (\<lambda>_ cx. returnM cx)\<rparr>"

definition open_channel :: "handle \<Rightarrow> channel" where
  "open_channel h = Channel_setTerminationCallback (Some 2)
     (Channel_setMessageReceivedCallback (Some 1) (Channel_of_socket (open_socket h)))"

lemma quiet_callbacks_simps [simp]:
  "respectful h f quiet_callbacks" "discreet quiet_callbacks"
  "cb_message quiet_callbacks g m cx = returnM cx" "cb_terminate quiet_callbacks g cx = returnM cx"
  by (auto simp: respectful_def discreet_def quiet_callbacks_def)

lemma open_channel_simps [simp]:
  "ch_socket (open_channel h) = open_socket h" "ch_connected (open_channel h)"
  "ch_messageReceivedCallback (open_channel h) = Some 1" "ch_terminationCallback (open_channel h) = Some 2"
  "ch_source (open_channel h) = 0"
  by (simp_all add: open_channel_def Channel_setTerminationCallback_def
      Channel_setMessageReceivedCallback_def Channel_of_socket_def)

theorem Channel_terminated_once_witness:
  "\<exists>cx1 w1 x2 w2. channel_run quiet_callbacks [ChTerminate, ChTerminate] (open_channel 5, ())
      (start_os False [reply 0 ENONE]) = Done cx1 w1 \<and> Channel_dtor quiet_callbacks cx1 w1 = Done x2 w2 \<and>
    closes 5 w2 = Suc (closes 5 (start_os False [reply 0 ENONE])) \<and>
    terminations 2 w2 = Suc (terminations 2 (start_os False [reply 0 ENONE]))"
proof -
  have "\<exists>cx1 w1 x2 w2. channel_run quiet_callbacks [ChTerminate, ChTerminate] (open_channel 5, ())
      (start_os False [reply 0 ENONE]) = Done cx1 w1 \<and> Channel_dtor quiet_callbacks cx1 w1 = Done x2 w2"
    by (simp add: Channel_terminate_def Channel_dtor_def Socket_close_def CL_CHECK_success emit_def
        Socket_dtor_def Let_def)
  then obtain cx1 w1 x2 w2 where r: "channel_run quiet_callbacks [ChTerminate, ChTerminate]
      (open_channel 5, ()) (start_os False [reply 0 ENONE]) = Done cx1 w1"
    "Channel_dtor quiet_callbacks cx1 w1 = Done x2 w2"
    by blast
  from Channel_terminated_once [OF r, of 2 5] r show ?thesis by auto
qed

theorem Channel_read_dispatches_witness:
  "\<exists>c' x' w'. Channel_readMessageOnHandle quiet_callbacks 5 (open_channel 5, ())
      (start_os False (rounds [([], packet [1] []), ([], packet [2, 3] [])] @ [] @ reply 0 ENONE # [reply 0 ENONE]))
      = Done (c', x') w' \<and>
    sk_handle (ch_socket c') = -1 \<and> \<not> ch_connected c' \<and>
    (\<exists>dispatched k es. os_trace w' = map (Sys (recv_call (open_socket 5))) [packet [1] [], packet [2, 3] [], reply 0 ENONE] @
        dispatched @ Sys (Close 5) k # es \<and>
      filter is_delivery dispatched =
        [delivery 1 (packet_message (packet [1] [])), delivery 1 (packet_message (packet [2, 3] []))] \<and>
      filter is_delivery es = [])"
proof -
  let ?bs = "[([], packet [1] []), ([], packet [2, 3] [])]"
  let ?w = "start_os False (rounds ?bs @ [] @ reply 0 ENONE # [reply 0 ENONE])"
  have good: "good_rounds ?bs" by (simp add: good_packet_def packet_def MaxBufferSize_def)
  have script: "os_script ?w = rounds ?bs @ [] @ reply 0 ENONE # [reply 0 ENONE]" by simp
  obtain s1 w1 where rd: "Socket_ReadMessages (open_socket 5) ?w =
      Done ((PermanentFailure, map (\<lambda>(_, p). packet_message p) ?bs), s1) w1"
    "sk_handle s1 = sk_handle (open_socket 5)" "os_script w1 = [reply 0 ENONE]"
    by (rule ReadMessages_drains [of ?w ?bs "[]" "reply 0 ENONE" "[reply 0 ENONE]" PermanentFailure
          "open_socket 5"]) (use good in \<open>simp_all add: read_end_def del: rounds_simps good_rounds_simps\<close>)
  then have "\<exists>c' x' w'. Channel_readMessageOnHandle quiet_callbacks 5 (open_channel 5, ()) ?w = Done (c', x') w'"
    by (simp add: Channel_readMessageOnHandle_def Let_def emit_def Channel_terminate_def Socket_close_def
        CL_CHECK_success del: rounds_simps)
  then obtain c' x' w' where r: "Channel_readMessageOnHandle quiet_callbacks 5 (open_channel 5, ()) ?w =
      Done (c', x') w'"
    by blast
  have "read_end (reply 0 ENONE) = Some PermanentFailure" by (simp add: read_end_def)
  from Channel_read_dispatches [OF script good _ this _ _ _ _ _ _ r, of 1] r show ?thesis
    by auto
qed

theorem Channel_sendMessage_result_witness:
  "\<exists>w'. os_script w' = [reply 0 ENONE] \<and>
    (let sent = (int_to_size (to_int (r_rc (reply (-1) EPIPE))) = Message_size Message_empty) in
     Channel_sendMessage quiet_callbacks Message_empty (open_channel 5, ())
       (start_os False (busy_answers [] @ [] @ reply (-1) EPIPE # [reply 0 ENONE])) =
       (if \<not> sent \<and> r_errno (reply (-1) EPIPE) = EPIPE
        then bind_out (Channel_terminate quiet_callbacks (open_channel 5, ()) w') (\<lambda>cx'. Done (False, cx'))
        else Done (sent, open_channel 5, ()) w'))"
  by (rule Channel_sendMessage_result [of _ "[]" "[]"])
    (simp_all add: interrupted_def would_block_def Message_size_def)

theorem Channel_schedule_idempotent_witness:
  "\<exists>c1 ts1 w1. Channel_scheduleInLooper Linux no_user_code 1 (open_channel 12) (Some demo_thread)
      (start_os False [reply 0 ENONE]) = Done (c1, Some ts1) w1 \<and>
    ch_source c1 \<in> set (ws_sources (lp_waitSet (ts_looper ts1))) \<and>
    (\<forall>v. Channel_scheduleInLooper Linux no_user_code 1 c1 (Some ts1) v = Done (c1, Some ts1) v)"
proof -
  have "\<exists>c1 ts1 w1. Channel_scheduleInLooper Linux no_user_code 1 (open_channel 12) (Some demo_thread)
      (start_os False [reply 0 ENONE]) = Done (c1, Some ts1) w1"
    by (simp add: Channel_scheduleInLooper_def Channel_source_def CL_ASSERT_holds store_new_def Let_def
        Looper_addSource_def WaitSet_addSource_def update_source_def deref_def demo_thread_def
        demo_sources_def updateInWaitSetHandle_def updateInWaitSetHandle_Linux_def set_contains_def
        LooperSource_readHandle_def LooperSource_handles_def LooperSource_ctor_def
        LooperSource_UpdateEpollSource_def retry_step interrupted_def)
  then obtain c1 ts1 w1 where r: "Channel_scheduleInLooper Linux no_user_code 1 (open_channel 12)
      (Some demo_thread) (start_os False [reply 0 ENONE]) = Done (c1, Some ts1) w1"
    by blast
  have "0 < sr_next (ts_sources demo_thread)" by (simp add: demo_thread_def demo_sources_def)
  from Channel_schedule_idempotent [OF r this] r show ?thesis by auto
qed

theorem Channel_of_handle_zero_witness:
  "\<exists>c w'. Channel_of_handle 0 (start_os False (reply 9 ENONE # four_ok)) = Done c w' \<and>
    ch_connected c \<and> sk_handle (ch_socket c) \<noteq> 0 \<and> (\<forall>v. Channel_tryConnect c v = Done (True, c) v)"
proof -
  have "\<exists>c w'. Channel_of_handle 0 (start_os False (reply 9 ENONE # four_ok)) = Done c w'"
    by (simp add: Channel_of_handle_def Socket_Create_def Socket_ctor_def four_ok_def numeral_eq_Suc
        sys_Cons CL_CHECK_success malloc_def CL_ASSERT_holds)
  then obtain c w' where r: "Channel_of_handle 0 (start_os False (reply 9 ENONE # four_ok)) = Done c w'"
    by blast
  have "\<not> os_ndebug (start_os False (reply 9 ENONE # four_ok))" by simp
  from Channel_of_handle_zero [OF r this] r show ?thesis by blast
qed

text \<open>A client that terminates the channel when it receives the single byte 2.\<close>

definition stopping_callbacks :: "unit callbacks" where
  "stopping_callbacks = \<lparr>cb_message = (\<lambda>_ m cx.
     if Message_data m = [Some 2] then Channel_terminate quiet_callbacks cx else returnM cx),
     cb_terminate = (\<lambda>_ cx. returnM cx)\<rparr>"

lemma stopping_callbacks_stop: "stops_on (\<lambda>m. Message_data m = [Some 2]) g f stopping_callbacks"
proof -
  have "cb_terminate stopping_callbacks = cb_terminate quiet_callbacks"
    by (simp add: stopping_callbacks_def quiet_callbacks_def)
  then have "Channel_terminate stopping_callbacks = Channel_terminate quiet_callbacks"
    by (intro ext) (simp only: Channel_terminate_def)
  then show ?thesis by (simp add: stops_on_def stopping_callbacks_def)
qed

theorem Channel_terminate_in_callback_witness:
  "\<exists>c' w'. Channel_readMessageOnHandle stopping_callbacks 5 (open_channel 5, ())
      (start_os False [packet [1] [], packet [2] [], packet [3] [], reply (-1) EAGAIN, reply 0 ENONE]) = Done (c', ()) w' \<and>
    \<not> Channel_isConnected c' \<and> \<not> Channel_isReady c' \<and> os_script w' = [] \<and>
    os_trace w' = map (Sys (recv_call (open_socket 5)))
        [packet [1] [], packet [2] [], packet [3] [], reply (-1) EAGAIN] @
      map (delivery 1) [packet_message (packet [1] []), packet_message (packet [2] [])] @
      [Sys (Close 5) (reply 0 ENONE), Terminated 2] @ map (delivery 1) [packet_message (packet [3] [])]"
proof -
  have good: "good_packet (packet [b] [])" "Message_data (packet_message (packet [b] [])) = [Some b]" for b
    by (simp_all add: good_packet_def packet_def MaxBufferSize_def packet_message_def Message_data_def)
  show ?thesis
    using Channel_terminate_in_callback [of
        "start_os False [packet [1] [], packet [2] [], packet [3] [], reply (-1) EAGAIN, reply 0 ENONE]"
        "[([], packet [1] [])]" "[]" "packet [2] []" "[([], packet [3] [])]" "[]" "reply (-1) EAGAIN" "reply 0 ENONE"
        "[]" Success "open_channel 5" 1 2 "\<lambda>m. Message_data m = [Some 2]" stopping_callbacks 5 "()"]
    by (simp add: good stopping_callbacks_stop read_end_def)
qed

theorem Channel_unheard_descriptors_witness:
  "\<exists>s w'. Channel_readMessageOnHandle quiet_callbacks 5 ((open_channel 5)\<lparr>ch_messageReceivedCallback := None\<rparr>, ())
      (start_os False (rounds [([], tiny_reply [4])] @ [] @ reply (-1) EAGAIN # [])) =
      Done ((open_channel 5)\<lparr>ch_messageReceivedCallback := None, ch_socket := s\<rparr>, ()) w' \<and>
    (\<exists>m s' v'. Socket_ReadMessages (open_socket 5)
        (start_os False (rounds [([], tiny_reply [4])] @ [] @ reply (-1) EAGAIN # [])) = Done ((Success, [m]), s') v' \<and>
      m_attachments m = [Attachment_ctor 9]) \<and>
    (\<forall>k. closes k w' = 0)"
proof -
  let ?w = "start_os False (rounds [([], tiny_reply [4])] @ [] @ reply (-1) EAGAIN # [])"
  have good: "good_packet (tiny_reply [4])"
    "m_attachments (packet_message (tiny_reply [4])) = [Attachment_ctor 9]"
    using delivers_good_packet [OF _ tiny_delivered [of "[4]"]]
    by (simp_all add: MaxBufferSize_def valid_handle_def)
  then have rs: "good_rounds [([], tiny_reply [4])]" by simp
  have script: "os_script ?w = rounds [([], tiny_reply [4])] @ [] @ reply (-1) EAGAIN # []" by simp
  have "closes k ?w = 0" for k by (simp add: closes_def)
  with Channel_unheard_descriptors [OF script rs, of Success "(open_channel 5)\<lparr>ch_messageReceivedCallback := None\<rparr>"
      quiet_callbacks 5 "()"] good(2)
  show ?thesis by (force simp: read_end_def)
qed

end
