(* ===== verification/CL_Server.thy ===== *)
theory CL_Server
  imports CL_Channel
begin

text \<open>
  \<^verbatim>\<open>Source/Server.cpp\<close> and \<^verbatim>\<open>Headers/Server.h\<close>: a named listening socket, and the handler that
  accepts a connection and hands a channel over it to the client (the parameter \<open>av\<close>). The
  loop around \<^verbatim>\<open>bind\<close> is a recursion on the answers of the kernel.
\<close>

section \<open>State and construction\<close>

record server =
  sv_name :: string
  sv_socketHandle :: handle
  sv_listening :: bool
  sv_clientConnectionsSource :: nat
  sv_channelAvailabilityCallback :: "nat option"

definition Server_idle :: "string \<Rightarrow> server" where
  "Server_idle name =
     \<lparr>sv_name = name, sv_socketHandle = -1, sv_listening = False, sv_clientConnectionsSource = 0,
      sv_channelAvailabilityCallback = None\<rparr>"

lemma CL_CHECK_script_le:
  assumes "CL_CHECK c w = Done r w'"
  shows "length (os_script w') \<le> length (os_script w)"
proof -
  have "forward (\<lambda>_. True) (CL_CHECK c)" by (intro forward_intros) simp_all
  from os_le_script_length [OF forward_Done [OF this assms]] show ?thesis .
qed

text \<open>
  The result of \<^verbatim>\<open>bind\<close> is a variable of the loop body, so the loop has one way out: a result
  of 0. A stale entry of the file system is removed; any other error is tried again.
\<close>

function bind_loop :: "handle \<Rightarrow> string \<Rightarrow> string \<Rightarrow> os \<Rightarrow> unit outcome" where
  "bind_loop h path name w =
     bind_out (sys (Bind h path) w) (\<lambda>r w'.
       if r_rc r = 0 then Done () w'
       else if r_rc r = -1 \<and> os_errno w' = EADDRINUSE
       then bind_out (CL_CHECK (Unlink (c_str name)) w') (\<lambda>_ w''. bind_loop h path name w'')
       else bind_loop h path name w')"
  by pat_completeness auto
termination
proof (relation "measure (\<lambda>(_, _, _, w). length (os_script w))", simp, goal_cases)
  case (1 h path name w r w' u w'')
  from 1(1) have "os_script w = r # os_script w'" by (rule sys_DoneE)
  with CL_CHECK_script_le [OF 1(4)] show ?case by simp
next
  case (2 h path name w r w')
  from 2(1) have "os_script w = r # os_script w'" by (rule sys_DoneE)
  then show ?case by simp
qed

declare bind_loop.simps [simp del]

definition Server_ctor :: "string \<Rightarrow> os \<Rightarrow> server outcome" where
  "Server_ctor name =
     bindM (sys SocketCreate) (\<lambda>r.
       let socketHandle = r_rc r; failed = seqM CL_LOG_ERRNO (seqM (CL_ASSERT False) (returnM (Server_idle name))) in
       if socketHandle = -1 then failed
       else
         seqM (CL_ASSERT (length name \<le> 96)) (
         bindM (strcpy_sun_path name) (\<lambda>path.
         seqM (bind_loop socketHandle path name) (
         bindM (sys (Listen socketHandle 1)) (\<lambda>l.
           if r_rc l = -1 then failed
           else returnM ((Server_idle name)\<lparr>sv_listening := True, sv_socketHandle := socketHandle\<rparr>))))))"

definition Server_setChannelAvailabilityCallback :: "nat option \<Rightarrow> server \<Rightarrow> server" where
  "Server_setChannelAvailabilityCallback f s = s\<lparr>sv_channelAvailabilityCallback := f\<rparr>"

definition Server_isListening :: "server \<Rightarrow> bool" where
  "Server_isListening sv = sv_listening sv"

definition Server_channelAvailabilityCallback :: "server \<Rightarrow> nat option" where
  "Server_channelAvailabilityCallback sv = sv_channelAvailabilityCallback sv"

section \<open>Operations\<close>

definition Server_dtor :: "server \<Rightarrow> os \<Rightarrow> unit outcome" where
  "Server_dtor s =
     (if sv_socketHandle s \<noteq> -1
      then
        seqM (CL_CHECK (Unlink (c_str (sv_name s)))) (
        seqM (CL_CHECK (Close (sv_socketHandle s))) (returnM ()))
      else returnM ())"

type_synonym 'x availability = "nat \<Rightarrow> channel \<Rightarrow> server \<times> 'x \<Rightarrow> os \<Rightarrow> (server \<times> 'x) outcome"

definition Server_onConnectionAvailableForAccept ::
  "'x availability \<Rightarrow> handle \<Rightarrow> server \<times> 'x \<Rightarrow> os \<Rightarrow> (server \<times> 'x) outcome" where
  "Server_onConnectionAvailableForAccept av h sx =
     (let s = fst sx in
      seqM (CL_ASSERT (h = sv_socketHandle s)) (
      bindM (sys (Accept (sv_socketHandle s))) (\<lambda>r.
        if r_rc r = -1 then seqM CL_LOG_ERRNO (seqM (CL_ASSERT False) (returnM sx))
        else
          (case sv_channelAvailabilityCallback s of
             None \<Rightarrow> seqM (CL_CHECK (Close (r_rc r))) (returnM sx)
           | Some f \<Rightarrow>
               bindM (Channel_of_handle (r_rc r)) (\<lambda>c.
               seqM (emit (ChannelAvailable f (sk_handle (ch_socket c)))) (av f c sx))))))"

text \<open>
  The allocator of the source reads the handle of the server when it runs; it has not changed
  since construction.
\<close>

definition Server_clientConnectionsSource ::
  "nat \<Rightarrow> server \<Rightarrow> source_store \<Rightarrow> os \<Rightarrow> (nat \<times> server \<times> source_store) outcome" where
  "Server_clientConnectionsSource sid s st =
     (if sv_clientConnectionsSource s \<noteq> 0 then returnM (sv_clientConnectionsSource s, s, st)
      else
        seqM (CL_ASSERT (sv_socketHandle s \<noteq> -1)) (
          let (p, st') = store_new (LooperSource_ctor (Some (FixedHandles (sv_socketHandle s) (-1))) None
                           (Some (ServerReader sid)) None) st in
          returnM (p, s\<lparr>sv_clientConnectionsSource := p\<rparr>, st')))"

section \<open>The loop around \<^verbatim>\<open>bind\<close>\<close>

text \<open>A round with a stale entry: the failed \<^verbatim>\<open>bind\<close> and the \<^verbatim>\<open>unlink\<close> that succeeded.\<close>

definition stale :: "sysres \<times> sysres \<Rightarrow> bool" where
  "stale p \<longleftrightarrow> r_rc (fst p) = -1 \<and> r_errno (fst p) = EADDRINUSE \<and> r_rc (snd p) = 0"

definition bind_refused :: "sysres \<Rightarrow> bool" where
  "bind_refused r \<longleftrightarrow> r_rc r \<noteq> 0 \<and> r_errno r \<noteq> EADDRINUSE"

definition stale_answers :: "(sysres \<times> sysres) list \<Rightarrow> sysres list" where
  "stale_answers ps = concat (map (\<lambda>p. [fst p, snd p]) ps)"

definition stale_events :: "handle \<Rightarrow> string \<Rightarrow> string \<Rightarrow> (sysres \<times> sysres) list \<Rightarrow> event list" where
  "stale_events h path name ps =
     concat (map (\<lambda>p. [Sys (Bind h path) (fst p), Sys (Unlink (c_str name)) (snd p)]) ps)"

lemma stale_simps [simp]:
  "stale_answers [] = []" "stale_answers (p # ps) = fst p # snd p # stale_answers ps"
  "stale_events h path name [] = []"
  "stale_events h path name (p # ps) =
     Sys (Bind h path) (fst p) # Sys (Unlink (c_str name)) (snd p) # stale_events h path name ps"
  by (simp_all add: stale_answers_def stale_events_def)

lemma bind_loop_succeeds:
  assumes "os_script w = stale_answers ps @ b # rest" "\<forall>p \<in> set ps. stale p" "r_rc b = 0"
  shows "\<exists>w'. bind_loop h path name w = Done () w' \<and> os_script w' = rest \<and> os_ndebug w' = os_ndebug w \<and>
    os_trace w' = os_trace w @ stale_events h path name ps @ [Sys (Bind h path) b]"
  using assms
proof (induction ps arbitrary: w)
  case Nil
  then show ?case by (subst bind_loop.simps) (simp add: sys_Cons)
next
  case (Cons p ps)
  let ?w1 = "answered (Bind h path) [fst p] w"
  let ?w2 = "answered (Unlink (c_str name)) [snd p] ?w1"
  have script: "os_script w = fst p # snd p # stale_answers ps @ b # rest" "stale p"
    using Cons.prems by simp_all
  then have "bind_loop h path name w = bind_loop h path name ?w2"
    by (subst bind_loop.simps) (simp add: sys_Cons stale_def CL_CHECK_success)
  moreover from Cons.IH [of ?w2] Cons.prems script obtain w' where
    "bind_loop h path name ?w2 = Done () w'" "os_script w' = rest" "os_ndebug w' = os_ndebug ?w2"
    "os_trace w' = os_trace ?w2 @ stale_events h path name ps @ [Sys (Bind h path) b]"
    by auto
  ultimately show ?case by simp
qed

lemma bind_loop_diverges:
  assumes "\<forall>r \<in> set (os_script w). bind_refused r"
  shows "\<exists>w'. bind_loop h path name w = Fail OutOfScript w' \<and> os_script w' = [] \<and>
    os_trace w' = os_trace w @ map (Sys (Bind h path)) (os_script w)"
  using assms
proof (induction "os_script w" arbitrary: w)
  case Nil
  from Nil(1) [symmetric] show ?case
    by (subst bind_loop.simps) (simp add: sys_Nil)
next
  case (Cons r rs)
  note s = Cons.hyps(2) [symmetric]
  let ?w1 = "answered (Bind h path) [r] w"
  have "bind_loop h path name w = bind_loop h path name ?w1"
    using Cons.prems s by (subst bind_loop.simps) (simp add: sys_Cons bind_refused_def)
  with Cons.hyps(1) [of ?w1] Cons.prems s show ?case by simp
qed

section \<open>Properties\<close>

text \<open>
  C34: A server that can be bound listens. Whatever number of stale entries has to be removed
  first, construction with a name of at most 96 characters ends with a server that listens on
  its socket, having made exactly the calls socket, (bind, unlink) per stale entry, bind and
  listen; its destructor then removes the entry and closes the socket.
\<close>

theorem Server_ctor_listens:
  assumes "os_script w = s # stale_answers ps @ b # l # u # c # rest" "r_rc s \<noteq> -1" "\<forall>p \<in> set ps. stale p"
    "r_rc b = 0" "r_rc l = 0" "r_rc u = 0" "r_rc c = 0" "length name \<le> 96"
  shows "\<exists>sv w1 w2. Server_ctor name w = Done sv w1 \<and> sv_listening sv \<and> sv_socketHandle sv = r_rc s \<and>
    os_trace w1 = os_trace w @ Sys SocketCreate s # stale_events (r_rc s) (c_str name) name ps @
      [Sys (Bind (r_rc s) (c_str name)) b, Sys (Listen (r_rc s) 1) l] \<and>
    Server_dtor sv w1 = Done () w2 \<and>
    os_trace w2 = os_trace w1 @ [Sys (Unlink (c_str name)) u, Sys (Close (r_rc s)) c]"
proof -
  have "length (c_str name) \<le> length name" by (simp add: c_str_def length_takeWhile_le)
  with assms(8) have short: "length (c_str name) < 108" by simp
  let ?w = "answered SocketCreate [s] w"
  have "os_script ?w = stale_answers ps @ b # l # u # c # rest" using assms(1) by simp
  from bind_loop_succeeds [OF this assms(3,4), of "r_rc s" "c_str name" name] obtain w0 where
    w0: "bind_loop (r_rc s) (c_str name) name ?w = Done () w0" "os_script w0 = l # u # c # rest"
    "os_trace w0 = os_trace ?w @ stale_events (r_rc s) (c_str name) name ps @ [Sys (Bind (r_rc s) (c_str name)) b]"
    by blast
  let ?sv = "(Server_idle name)\<lparr>sv_listening := True, sv_socketHandle := r_rc s\<rparr>"
  let ?w1 = "answered (Listen (r_rc s) 1) [l] w0"
  have "Server_ctor name w = Done ?sv ?w1"
    using assms w0 short
    by (simp add: Server_ctor_def sys_Cons Let_def CL_ASSERT_holds strcpy_sun_path_def)
  moreover have "Server_dtor ?sv ?w1 =
      Done () (answered (Close (r_rc s)) [c] (answered (Unlink (c_str name)) [u] ?w1))"
    using w0(2) assms by (simp add: Server_dtor_def Server_idle_def CL_CHECK_success)
  ultimately show ?thesis
    using w0 by (intro exI [of _ ?sv] exI [of _ ?w1]
        exI [of _ "answered (Close (r_rc s)) [c] (answered (Unlink (c_str name)) [u] ?w1)"]) simp
qed

text \<open>
  C40: A server that cannot be bound never returns. If the kernel refuses every \<^verbatim>\<open>bind\<close> with an
  error other than \<open>EADDRINUSE\<close> (no permission, no such directory), construction calls \<^verbatim>\<open>bind\<close>
  again for every answer there is, and the error handling after the loop is not reached.
\<close>

theorem Server_bind_spins:
  assumes "os_script w = s # rs" "r_rc s \<noteq> -1" "\<forall>r \<in> set rs. bind_refused r" "length name \<le> 96"
  shows "\<exists>w'. Server_ctor name w = Fail OutOfScript w' \<and> os_script w' = [] \<and>
    os_trace w' = os_trace w @ Sys SocketCreate s # map (Sys (Bind (r_rc s) (c_str name))) rs"
proof -
  have "length (c_str name) \<le> length name" by (simp add: c_str_def length_takeWhile_le)
  with assms(4) have short: "length (c_str name) < 108" by simp
  let ?w = "answered SocketCreate [s] w"
  have script: "os_script ?w = rs" using assms(1) by simp
  with assms(3) have "\<forall>r \<in> set (os_script ?w). bind_refused r" by simp
  from bind_loop_diverges [OF this, of "r_rc s" "c_str name" name] obtain w' where
    "bind_loop (r_rc s) (c_str name) name ?w = Fail OutOfScript w'" "os_script w' = []"
    "os_trace w' = os_trace ?w @ map (Sys (Bind (r_rc s) (c_str name))) rs"
    unfolding script by blast
  then show ?thesis
    using assms short
    by (simp add: Server_ctor_def sys_Cons Let_def CL_ASSERT_holds strcpy_sun_path_def)
qed

text \<open>
  C35: Every accepted connection is accounted for. Without an availability callback its
  descriptor is closed at once; with one, a checked build that returns has configured the
  descriptor and handed a connected channel over exactly it to the callback, once.
\<close>

theorem Server_accept_accounts:
  assumes "os_script w = a # rest" "0 < r_rc a" "sv_socketHandle sv = h"
    "\<not> os_ndebug w"
  shows "(case sv_channelAvailabilityCallback sv of
      None \<Rightarrow> (\<forall>sx' w'. Server_onConnectionAvailableForAccept av h (sv, x) w = Done sx' w' \<longrightarrow>
        sx' = (sv, x) \<and> (\<exists>c. r_rc c = 0 \<and>
          os_trace w' = os_trace w @ [Sys (Accept h) a, Sys (Close (r_rc a)) c]))
    | Some f \<Rightarrow> (\<forall>sx' w'. Server_onConnectionAvailableForAccept av h (sv, x) w = Done sx' w' \<longrightarrow>
        (\<exists>c w1 w2. Channel_of_handle (r_rc a) w1 = Done c w2 \<and> os_trace w1 = os_trace w @ [Sys (Accept h) a] \<and>
          ch_connected c \<and> sk_handle (ch_socket c) = r_rc a \<and>
          av f c (sv, x) (w2\<lparr>os_trace := os_trace w2 @ [ChannelAvailable f (r_rc a)]\<rparr>) = Done sx' w')))"
proof (cases "sv_channelAvailabilityCallback sv")
  case None
  show ?thesis unfolding None option.case
  proof (intro allI impI)
    fix sx' w'
    assume "Server_onConnectionAvailableForAccept av h (sv, x) w = Done sx' w'"
    with None assms obtain c where c: "CL_CHECK (Close (r_rc a)) (answered (Accept h) [a] w) = Done c w'"
        "sx' = (sv, x)"
      by (auto simp: Server_onConnectionAvailableForAccept_def sys_Cons CL_ASSERT_holds bind_out_Done_iff)
    have "\<not> os_ndebug (answered (Accept h) [a] w)" using assms(4) by simp
    from CL_CHECK_debug_DoneE [OF c(1) this]
    have "r_rc c = 0" "w' = answered (Close (r_rc a)) [c] (answered (Accept h) [a] w)" by blast+
    with c(2) show "sx' = (sv, x) \<and> (\<exists>c. r_rc c = 0 \<and>
        os_trace w' = os_trace w @ [Sys (Accept h) a, Sys (Close (r_rc a)) c])"
      by auto
  qed
next
  case (Some f)
  show ?thesis unfolding Some option.case
  proof (intro allI impI)
    fix sx' w'
    let ?w1 = "answered (Accept h) [a] w"
    assume "Server_onConnectionAvailableForAccept av h (sv, x) w = Done sx' w'"
    with Some assms obtain c w2 where c: "Channel_of_handle (r_rc a) ?w1 = Done c w2"
      "av f c (sv, x) (w2\<lparr>os_trace := os_trace w2 @ [ChannelAvailable f (sk_handle (ch_socket c))]\<rparr>) = Done sx' w'"
      by (auto simp: Server_onConnectionAvailableForAccept_def sys_Cons CL_ASSERT_holds bind_out_Done_iff emit_def)
    from c(1) obtain s where s: "Socket_ctor (r_rc a) ?w1 = Done s w2" "c = Channel_of_socket s"
      by (auto simp: Channel_of_handle_def Socket_Create_def bind_out_Done_iff)
    have "\<not> os_ndebug ?w1" using assms(4) by simp
    from Socket_ctor_configured [OF s(1) this] assms(2) have "sk_handle s = r_rc a" by auto
    with c s(2) show "\<exists>c w1 w2. Channel_of_handle (r_rc a) w1 = Done c w2 \<and>
        os_trace w1 = os_trace w @ [Sys (Accept h) a] \<and> ch_connected c \<and> sk_handle (ch_socket c) = r_rc a \<and>
        av f c (sv, x) (w2\<lparr>os_trace := os_trace w2 @ [ChannelAvailable f (r_rc a)]\<rparr>) = Done sx' w'"
      by (intro exI [of _ c] exI [of _ ?w1] exI [of _ w2]) (simp add: Channel_of_socket_def)
  qed
qed

text \<open>
  A server whose \<^verbatim>\<open>listen\<close> fails leaks. In a build without assertions the object is returned
  without a handle, so that its destructor makes no call: the bound socket is never closed and
  its entry of the file system never removed.
\<close>

theorem Server_listen_failure_leaks:
  assumes "os_script w = s # b # l # rest" "0 \<le> r_rc s" "r_rc b = 0" "r_rc l = -1" "length name \<le> 96"
    "os_ndebug w"
  shows "\<exists>sv w1. Server_ctor name w = Done sv w1 \<and> \<not> sv_listening sv \<and> sv_socketHandle sv = -1 \<and>
    os_trace w1 = os_trace w @ [Sys SocketCreate s, Sys (Bind (r_rc s) (c_str name)) b,
      Sys (Listen (r_rc s) 1) l] \<and>
    Server_dtor sv w1 = Done () w1"
proof -
  have "length (c_str name) \<le> length name" by (simp add: c_str_def length_takeWhile_le)
  with assms(5) have short: "length (c_str name) < 108" by simp
  let ?w = "answered SocketCreate [s] w"
  have script: "os_script ?w = stale_answers [] @ b # l # rest" using assms(1) by simp
  obtain w0 where
    w0: "bind_loop (r_rc s) (c_str name) name ?w = Done () w0" "os_script w0 = l # rest" "os_ndebug w0"
    "os_trace w0 = os_trace ?w @ [Sys (Bind (r_rc s) (c_str name)) b]"
    using bind_loop_succeeds [OF script _ assms(3), of "r_rc s" "c_str name" name] assms(6) by auto
  have "Server_ctor name w = Done (Server_idle name) (answered (Listen (r_rc s) 1) [l] w0)"
    using assms w0 short
    by (simp add: Server_ctor_def sys_Cons Let_def CL_ASSERT_holds strcpy_sun_path_def CL_LOG_ERRNO_def
        CL_ASSERT_def)
  then show ?thesis
    using w0 by (intro exI [of _ "Server_idle name"] exI [of _ "answered (Listen (r_rc s) 1) [l] w0"])
      (simp add: Server_idle_def Server_dtor_def)
qed

section \<open>Examples of the properties\<close>

definition granted :: sysres where
  "granted = reply 0 ENONE"

definition eaddrinuse :: sysres where
  "eaddrinuse = reply (-1) EADDRINUSE"

theorem Server_ctor_listens_witness:
  "\<exists>sv w1 w2. Server_ctor ''/tmp/s'' (start_os False [reply 4 ENONE, eaddrinuse, granted, granted, granted, granted, granted]) = Done sv w1 \<and>
    sv_listening sv \<and> sv_socketHandle sv = 4 \<and>
    os_trace w1 = [Sys SocketCreate (reply 4 ENONE), Sys (Bind 4 ''/tmp/s'') eaddrinuse,
      Sys (Unlink ''/tmp/s'') granted, Sys (Bind 4 ''/tmp/s'') granted, Sys (Listen 4 1) granted] \<and>
    Server_dtor sv w1 = Done () w2 \<and>
    os_trace w2 = os_trace w1 @ [Sys (Unlink ''/tmp/s'') granted, Sys (Close 4) granted]"
  using Server_ctor_listens [of "start_os False [reply 4 ENONE, eaddrinuse, granted, granted, granted, granted, granted]"
      "reply 4 ENONE" "[(eaddrinuse, granted)]" granted granted granted granted "[]" "''/tmp/s''"]
  by (simp add: stale_def granted_def eaddrinuse_def c_str_def)

theorem Server_bind_spins_witness:
  "\<exists>w'. Server_ctor ''/root/s'' (start_os False [reply 4 ENONE, reply (-1) (EOTHER 13), reply (-1) (EOTHER 13)]) =
      Fail OutOfScript w' \<and> os_script w' = [] \<and>
    os_trace w' = os_trace (start_os False [reply 4 ENONE, reply (-1) (EOTHER 13), reply (-1) (EOTHER 13)]) @
      Sys SocketCreate (reply 4 ENONE) #
      map (Sys (Bind (r_rc (reply 4 ENONE)) (c_str ''/root/s''))) [reply (-1) (EOTHER 13), reply (-1) (EOTHER 13)]"
  by (rule Server_bind_spins) (simp_all add: bind_refused_def)

theorem Server_accept_accounts_witness:
  "\<exists>sx' w' c. Server_onConnectionAvailableForAccept (\<lambda>_ _ sx. returnM sx) 4
      ((Server_idle [])\<lparr>sv_socketHandle := 4\<rparr>, ()) (start_os False [reply 9 ENONE, granted]) = Done sx' w' \<and>
    sx' = ((Server_idle [])\<lparr>sv_socketHandle := 4\<rparr>, ()) \<and> r_rc c = 0 \<and>
    os_trace w' = [Sys (Accept 4) (reply 9 ENONE), Sys (Close 9) c]"
proof -
  have "\<exists>sx' w'. Server_onConnectionAvailableForAccept (\<lambda>_ _ sx. returnM sx) 4
      ((Server_idle [])\<lparr>sv_socketHandle := 4\<rparr>, ()) (start_os False [reply 9 ENONE, granted]) = Done sx' w'"
    by (simp add: Server_onConnectionAvailableForAccept_def Server_idle_def sys_Cons CL_ASSERT_holds
        CL_CHECK_success granted_def Let_def)
  then obtain sx' w' where r: "Server_onConnectionAvailableForAccept (\<lambda>_ _ sx. returnM sx) 4
      ((Server_idle [])\<lparr>sv_socketHandle := 4\<rparr>, ()) (start_os False [reply 9 ENONE, granted]) = Done sx' w'"
    by blast
  have "sx' = ((Server_idle [])\<lparr>sv_socketHandle := 4\<rparr>, ()) \<and> (\<exists>c. r_rc c = 0 \<and>
      os_trace w' = [Sys (Accept 4) (reply 9 ENONE), Sys (Close 9) c])"
    using Server_accept_accounts [of "start_os False [reply 9 ENONE, granted]" "reply 9 ENONE" "[granted]"
        "(Server_idle [])\<lparr>sv_socketHandle := 4\<rparr>" 4 "\<lambda>_ _ sx. returnM sx" "()"] r
    by (cases sx') (auto simp: Server_idle_def)
  with r show ?thesis by blast
qed

theorem Server_listen_failure_leaks_witness:
  "\<exists>sv w1. Server_ctor ''/tmp/s'' (start_os True [reply 4 ENONE, granted, reply (-1) (EOTHER 95)]) = Done sv w1 \<and>
    \<not> sv_listening sv \<and> sv_socketHandle sv = -1 \<and>
    os_trace w1 = os_trace (start_os True [reply 4 ENONE, granted, reply (-1) (EOTHER 95)]) @
      [Sys SocketCreate (reply 4 ENONE), Sys (Bind (r_rc (reply 4 ENONE)) (c_str ''/tmp/s'')) granted,
       Sys (Listen (r_rc (reply 4 ENONE)) 1) (reply (-1) (EOTHER 95))] \<and>
    Server_dtor sv w1 = Done () w1"
  by (rule Server_listen_failure_leaks) (simp_all add: granted_def)

end
