(* ===== verification/CL_SharedMemory.thy ===== *)
theory CL_SharedMemory
  imports CL_Socket
begin

text \<open>
  \<^verbatim>\<open>Source/SharedMemory.cpp\<close>: an anonymous shared memory region. The constructor opens a
  file with a random name (at most 25 tries), unlinks it, sizes it and maps it; each failure
  jumps to a common exit. \<^verbatim>\<open>cleanup\<close> undoes a successful construction, once. Addresses are
  numbers, 0 is the null pointer.
\<close>

section \<open>Names\<close>

definition SharedMemoryTempHandleMaxRetries :: nat where
  "SharedMemoryTempHandleMaxRetries = 25"

definition RAND_MAX :: int where
  "RAND_MAX = 2147483647"

text \<open>The remainder of C++ truncates towards zero.\<close>

definition c_rem :: "int \<Rightarrow> int \<Rightarrow> int" where
  "c_rem a b = sgn a * (\<bar>a\<bar> mod \<bar>b\<bar>)"

fun decimal :: "nat \<Rightarrow> string" where
  "decimal n = (if n < 10 then [char_of (48 + n)] else decimal (n div 10) @ [char_of (48 + n mod 10)])"

declare decimal.simps [simp del]

definition decimal_int :: "int \<Rightarrow> string" where
  "decimal_int i = (if i < 0 then CHR ''-'' # decimal (nat (- i)) else decimal (nat i))"

definition shm_name :: "int \<Rightarrow> string" where
  "shm_name random = ''/CoreLib_SharedMemory'' @ decimal_int (c_rem random RAND_MAX)"

definition SharedMemory_RandomFileName :: "os \<Rightarrow> string outcome" where
  "SharedMemory_RandomFileName = bindM (sys Rand) (\<lambda>r. returnM (shm_name (r_rc r)))"

section \<open>The backing file\<close>

fun shm_open_loop :: "nat \<Rightarrow> handle \<Rightarrow> string \<Rightarrow> os \<Rightarrow> (handle \<times> string) outcome" where
  "shm_open_loop 0 newHandle tempFile = returnM (newHandle, tempFile)"
| "shm_open_loop (Suc tries) newHandle tempFile =
     bindM (sys (ShmOpen tempFile)) (\<lambda>r w.
       if r_rc r = -1 \<and> os_errno w = EEXIST
       then bind_out (SharedMemory_RandomFileName w) (\<lambda>name. shm_open_loop tries (r_rc r) name)
       else Done (r_rc r, tempFile) w)"

definition SharedMemory_CreateBackingIfNecessary :: "handle \<Rightarrow> os \<Rightarrow> handle outcome" where
  "SharedMemory_CreateBackingIfNecessary h =
     (if h \<noteq> -1 then returnM h
      else
        bindM SharedMemory_RandomFileName (\<lambda>tempFile.
        bindM (shm_open_loop SharedMemoryTempHandleMaxRetries (-1) tempFile) (\<lambda>(newHandle, tempFile).
          if newHandle \<noteq> -1
          then seqM (CL_CHECK (ShmUnlink tempFile)) (returnM newHandle)
          else returnM newHandle)))"

section \<open>The region\<close>

record sharedMemory =
  sm_handle :: handle
  sm_size :: size_t
  sm_address :: nat
  sm_ready :: bool

definition MAP_FAILED :: nat where
  "MAP_FAILED = 2 ^ 64 - 1"

definition SharedMemory_null :: sharedMemory where
  "SharedMemory_null = \<lparr>sm_handle = -1, sm_size = 0, sm_address = 0, sm_ready = False\<rparr>"

text \<open>The code at the label \<^verbatim>\<open>failure\<close>; note the test that guards its \<^verbatim>\<open>close\<close>.\<close>

definition SharedMemory_failure :: "size_t \<Rightarrow> sharedMemory \<Rightarrow> os \<Rightarrow> sharedMemory outcome" where
  "SharedMemory_failure sz s =
     seqM CL_LOG_ERRNO (
     seqM (if sm_address s \<noteq> 0 then seqM (CL_CHECK (Munmap (sm_address s) sz)) (returnM ()) else returnM ()) (
     seqM (if sm_handle s = -1 then seqM (CL_CHECK (Close (sm_handle s))) (returnM ()) else returnM ())
       (returnM (s\<lparr>sm_ready := False, sm_size := 0, sm_address := 0, sm_handle := -1\<rparr>))))"

definition SharedMemory_ctor :: "size_t \<Rightarrow> os \<Rightarrow> sharedMemory outcome" where
  "SharedMemory_ctor sz =
     bindM (SharedMemory_CreateBackingIfNecessary (-1)) (\<lambda>h.
       let s = SharedMemory_null\<lparr>sm_handle := h\<rparr> in
       if h = -1 then SharedMemory_failure sz s
       else
         bindM (CL_TEMP_FAILURE_RETRY (Ftruncate h sz)) (\<lambda>t.
           if r_rc t = -1 then SharedMemory_failure sz s
           else
             bindM (sys (Mmap sz h)) (\<lambda>a.
               let s' = s\<lparr>sm_size := sz, sm_address := r_ptr a\<rparr> in
               if r_ptr a = MAP_FAILED then SharedMemory_failure sz s'
               else returnM (s'\<lparr>sm_ready := True\<rparr>))))"

definition SharedMemory_cleanup :: "sharedMemory \<Rightarrow> os \<Rightarrow> sharedMemory outcome" where
  "SharedMemory_cleanup s =
     (if \<not> sm_ready s then returnM s
      else
        seqM (CL_CHECK (Munmap (sm_address s) (sm_size s))) (
        seqM (CL_CHECK (Close (sm_handle s)))
          (returnM (s\<lparr>sm_handle := -1, sm_size := 0, sm_address := 0, sm_ready := False\<rparr>))))"

definition SharedMemory_dtor :: "sharedMemory \<Rightarrow> os \<Rightarrow> sharedMemory outcome" where
  "SharedMemory_dtor = SharedMemory_cleanup"

definition SharedMemory_isReady :: "sharedMemory \<Rightarrow> bool" where
  "SharedMemory_isReady s = sm_ready s"

definition SharedMemory_address :: "sharedMemory \<Rightarrow> nat" where
  "SharedMemory_address s = sm_address s"

definition SharedMemory_size :: "sharedMemory \<Rightarrow> size_t" where
  "SharedMemory_size s = sm_size s"

definition SharedMemory_handle :: "sharedMemory \<Rightarrow> handle" where
  "SharedMemory_handle s = sm_handle s"

section \<open>The invariant\<close>

text \<open>A region is either fully set up or indistinguishable from one that never was.\<close>

definition SharedMemory_wf :: "sharedMemory \<Rightarrow> bool" where
  "SharedMemory_wf s \<longleftrightarrow>
     (if sm_ready s then sm_handle s \<noteq> -1 \<and> sm_address s \<noteq> MAP_FAILED else s = SharedMemory_null)"

lemma SharedMemory_failure_null:
  "SharedMemory_failure sz s w = Done s' w' \<Longrightarrow> s' = SharedMemory_null"
  by (auto simp: SharedMemory_failure_def SharedMemory_null_def bind_out_Done_iff)

lemma SharedMemory_cleanup_null:
  assumes "SharedMemory_wf s" "SharedMemory_cleanup s w = Done s' w'"
  shows "s' = SharedMemory_null"
  using assms
  by (auto simp: SharedMemory_cleanup_def SharedMemory_wf_def SharedMemory_null_def bind_out_Done_iff
      split: if_splits)

lemma SharedMemory_ctor_DoneE:
  assumes "SharedMemory_ctor sz w = Done s w'"
  obtains (null) "s = SharedMemory_null"
  | (ready) h w1 t w2 a where
      "SharedMemory_CreateBackingIfNecessary (-1) w = Done h w1" "h \<noteq> -1"
      "CL_TEMP_FAILURE_RETRY (Ftruncate h sz) w1 = Done t w2" "r_rc t \<noteq> -1"
      "sys (Mmap sz h) w2 = Done a w'" "r_ptr a \<noteq> MAP_FAILED"
      "s = \<lparr>sm_handle = h, sm_size = sz, sm_address = r_ptr a, sm_ready = True\<rparr>"
proof -
  from assms obtain h w1 where h: "SharedMemory_CreateBackingIfNecessary (-1) w = Done h w1"
    and rest: "(let s = SharedMemory_null\<lparr>sm_handle := h\<rparr> in
       if h = -1 then SharedMemory_failure sz s
       else
         bindM (CL_TEMP_FAILURE_RETRY (Ftruncate h sz)) (\<lambda>t.
           if r_rc t = -1 then SharedMemory_failure sz s
           else
             bindM (sys (Mmap sz h)) (\<lambda>a.
               let s' = s\<lparr>sm_size := sz, sm_address := r_ptr a\<rparr> in
               if r_ptr a = MAP_FAILED then SharedMemory_failure sz s'
               else returnM (s'\<lparr>sm_ready := True\<rparr>)))) w1 = Done s w'"
    unfolding SharedMemory_ctor_def bindM_apply by (rule bind_out_DoneE)
  from rest show ?thesis
    by (auto simp: Let_def bind_out_Done_iff SharedMemory_null_def split: if_splits
        dest!: SharedMemory_failure_null intro: null ready [OF h])
qed

section \<open>Evaluation of the search for a name\<close>

text \<open>A try that fails because the name exists: the answers to \<^verbatim>\<open>rand\<close> and to \<^verbatim>\<open>shm_open\<close>.\<close>

definition taken :: "sysres \<times> sysres \<Rightarrow> bool" where
  "taken p \<longleftrightarrow> r_rc (snd p) = -1 \<and> r_errno (snd p) = EEXIST"

definition try_events :: "sysres \<times> sysres \<Rightarrow> event list" where
  "try_events p = [Sys Rand (fst p), Sys (ShmOpen (shm_name (r_rc (fst p)))) (snd p)]"

definition try_answers :: "(sysres \<times> sysres) list \<Rightarrow> sysres list" where
  "try_answers ps = concat (map (\<lambda>p. [fst p, snd p]) ps)"

lemma try_answers_simps [simp]:
  "try_answers [] = []" "try_answers (p # ps) = fst p # snd p # try_answers ps"
  by (simp_all add: try_answers_def)

lemma RandomFileName_Cons:
  "os_script w = r # rs \<Longrightarrow>
   SharedMemory_RandomFileName w = Done (shm_name (r_rc r)) (answered Rand [r] w)"
  by (simp add: SharedMemory_RandomFileName_def sys_Cons)

text \<open>
  The search as the trace shows it: \<open>draw\<close> is the state before a name is drawn. The remaining
  tries of the loop go with the draw that precedes each.
\<close>

lemma shm_open_loop_taken:
  assumes "os_script w = try_answers ps @ d # rest" "\<forall>p \<in> set ps. taken p" "length ps \<le> n"
  shows "\<exists>w'. bind_out (SharedMemory_RandomFileName w) (shm_open_loop n h) =
      shm_open_loop (n - length ps) (if ps = [] then h else -1) (shm_name (r_rc d)) w' \<and>
    os_script w' = rest \<and> os_ndebug w' = os_ndebug w \<and>
    os_trace w' = os_trace w @ concat (map try_events ps) @ [Sys Rand d]"
  using assms
proof (induction ps arbitrary: w n h)
  case Nil
  then show ?case
    by (intro exI [of _ "answered Rand [d] w"]) (simp add: RandomFileName_Cons)
next
  case (Cons p ps)
  obtain x y where p: "p = (x, y)" by (cases p)
  from Cons.prems(3) obtain k where n: "n = Suc k" "length ps \<le> k" by (cases n) auto
  let ?w1 = "answered (ShmOpen (shm_name (r_rc x))) [y] (answered Rand [x] w)"
  from Cons.prems p have s: "os_script w = x # y # try_answers ps @ d # rest" "taken (x, y)" by simp_all
  then have "bind_out (SharedMemory_RandomFileName w) (shm_open_loop n h) =
      bind_out (SharedMemory_RandomFileName ?w1) (shm_open_loop k (-1))"
    by (simp add: RandomFileName_Cons n sys_Cons taken_def)
  moreover obtain w' where "bind_out (SharedMemory_RandomFileName ?w1) (shm_open_loop k (-1)) =
      shm_open_loop (k - length ps) (if ps = [] then -1 else -1) (shm_name (r_rc d)) w'"
    "os_script w' = rest" "os_ndebug w' = os_ndebug ?w1"
    "os_trace w' = os_trace ?w1 @ concat (map try_events ps) @ [Sys Rand d]"
    using Cons.IH [of ?w1 k "-1"] Cons.prems n s by auto
  ultimately show ?case
    using n p try_events_def [of "(x, y)"]
    by (intro exI [of _ w']) (simp del: shm_open_loop.simps)
qed

lemma CreateBacking_eq:
  "SharedMemory_CreateBackingIfNecessary (-1) w =
     bind_out (bind_out (SharedMemory_RandomFileName w)
         (shm_open_loop SharedMemoryTempHandleMaxRetries (-1)))
       (\<lambda>(newHandle, tempFile).
          if newHandle \<noteq> -1 then seqM (CL_CHECK (ShmUnlink tempFile)) (returnM newHandle)
          else returnM newHandle)"
  by (simp add: SharedMemory_CreateBackingIfNecessary_def bind_out_assoc bindM_eta)

text \<open>The first free name is opened and unlinked.\<close>

lemma CreateBacking_found:
  assumes "os_script w = try_answers ps @ d # x # u # rest" "\<forall>p \<in> set ps. taken p"
    "length ps < SharedMemoryTempHandleMaxRetries" "r_rc x \<noteq> -1" "r_rc u = 0"
  shows "\<exists>w'. SharedMemory_CreateBackingIfNecessary (-1) w = Done (r_rc x) w' \<and>
    os_script w' = rest \<and> os_ndebug w' = os_ndebug w \<and>
    os_trace w' = os_trace w @ concat (map try_events (ps @ [(d, x)])) @
      [Sys (ShmUnlink (shm_name (r_rc d))) u]"
proof -
  let ?n = SharedMemoryTempHandleMaxRetries
  obtain w1 where w1: "bind_out (SharedMemory_RandomFileName w) (shm_open_loop ?n (-1)) =
      shm_open_loop (?n - length ps) (if ps = [] then -1 else -1) (shm_name (r_rc d)) w1"
    "os_script w1 = x # u # rest" "os_ndebug w1 = os_ndebug w"
    "os_trace w1 = os_trace w @ concat (map try_events ps) @ [Sys Rand d]"
    using shm_open_loop_taken [OF assms(1,2), of ?n "-1"] assms(3) by auto
  obtain k where k: "?n - length ps = Suc k" using assms(3) by (cases "?n - length ps") auto
  let ?w2 = "answered (ShmOpen (shm_name (r_rc d))) [x] w1"
  have "shm_open_loop (Suc k) (-1) (shm_name (r_rc d)) w1 = Done (r_rc x, shm_name (r_rc d)) ?w2"
    using w1(2) assms(4) by (simp add: sys_Cons)
  with w1(1) k have "SharedMemory_CreateBackingIfNecessary (-1) w =
      Done (r_rc x) (answered (ShmUnlink (shm_name (r_rc d))) [u] ?w2)"
    using assms(4,5) w1(2) by (simp add: CreateBacking_eq CL_CHECK_success del: shm_open_loop.simps)
  with w1 show ?thesis by (simp add: try_events_def)
qed

lemma CreateBacking_exhausted:
  assumes "os_script w = try_answers ps @ d # rest" "\<forall>p \<in> set ps. taken p"
    "length ps = SharedMemoryTempHandleMaxRetries"
  shows "\<exists>w'. SharedMemory_CreateBackingIfNecessary (-1) w = Done (-1) w' \<and>
    os_script w' = rest \<and> os_ndebug w' = os_ndebug w \<and>
    os_trace w' = os_trace w @ concat (map try_events ps) @ [Sys Rand d]"
proof -
  let ?n = SharedMemoryTempHandleMaxRetries
  obtain w1 where w1: "bind_out (SharedMemory_RandomFileName w) (shm_open_loop ?n (-1)) =
      shm_open_loop (?n - length ps) (if ps = [] then -1 else -1) (shm_name (r_rc d)) w1"
    "os_script w1 = rest" "os_ndebug w1 = os_ndebug w"
    "os_trace w1 = os_trace w @ concat (map try_events ps) @ [Sys Rand d]"
    using shm_open_loop_taken [OF assms(1,2), of ?n "-1"] assms(3) by auto
  then show ?thesis
    using assms(3) by (intro exI [of _ w1]) (simp add: CreateBacking_eq)
qed

section \<open>Release\<close>

primrec cleanups :: "nat \<Rightarrow> sharedMemory \<Rightarrow> os \<Rightarrow> sharedMemory outcome" where
  "cleanups 0 s = returnM s"
| "cleanups (Suc n) s = bindM (SharedMemory_cleanup s) (cleanups n)"

lemma cleanups_not_ready: "\<not> sm_ready s \<Longrightarrow> cleanups n s w = Done s w"
  by (induction n) (simp_all add: SharedMemory_cleanup_def)

lemma SharedMemory_cleanup_debug:
  assumes "SharedMemory_cleanup s w = Done s' w'" "sm_ready s" "\<not> os_ndebug w"
  shows "\<exists>a b. r_rc a = 0 \<and> r_rc b = 0 \<and> \<not> sm_ready s' \<and>
    os_trace w' = os_trace w @ [Sys (Munmap (sm_address s) (sm_size s)) a, Sys (Close (sm_handle s)) b]"
proof -
  from assms obtain a w1 b where 1: "CL_CHECK (Munmap (sm_address s) (sm_size s)) w = Done a w1"
    and 2: "CL_CHECK (Close (sm_handle s)) w1 = Done b w'" and s': "\<not> sm_ready s'"
    by (auto simp: SharedMemory_cleanup_def bind_out_Done_iff)
  from CL_CHECK_debug_DoneE [OF 1 assms(3)]
  have 1: "r_rc a = 0" "w1 = answered (Munmap (sm_address s) (sm_size s)) [a] w" "\<not> os_ndebug w1"
    by blast+
  from CL_CHECK_debug_DoneE [OF 2 1(3)]
  have "r_rc b = 0" "w' = answered (Close (sm_handle s)) [b] w1" by blast+
  with 1 s' show ?thesis by (intro exI [of _ a] exI [of _ b]) simp
qed

section \<open>Properties\<close>

text \<open>
  A constructed region is well-formed whatever the kernel answers, and \<^verbatim>\<open>cleanup\<close> turns every
  well-formed region into the empty one: a region that is ready has a handle, the requested
  size and a mapping that succeeded; any other has none of them.
\<close>

theorem SharedMemory_invariant:
  "(\<forall>s w'. SharedMemory_ctor sz w = Done s w' \<longrightarrow>
      SharedMemory_wf s \<and> (sm_ready s \<longrightarrow> sm_size s = sz)) \<and>
   (\<forall>s v s' v'. SharedMemory_wf s \<and> SharedMemory_cleanup s v = Done s' v' \<longrightarrow> s' = SharedMemory_null)"
proof (intro conjI allI impI)
  fix s w' assume c: "SharedMemory_ctor sz w = Done s w'"
  then show "SharedMemory_wf s"
    by (rule SharedMemory_ctor_DoneE) (simp_all add: SharedMemory_wf_def SharedMemory_null_def)
  from c show "sm_ready s \<Longrightarrow> sm_size s = sz"
    by (rule SharedMemory_ctor_DoneE) (simp_all add: SharedMemory_null_def)
qed (use SharedMemory_cleanup_null in blast)

text \<open>
  C32: The search for a name. While names are taken (at most 24 times) each try draws a new
  random name; the first free name is opened, its handle is returned and exactly that name is
  unlinked. If 25 names in a row are taken, the result is \<open>-1\<close> and nothing is unlinked.
\<close>

theorem SharedMemory_name_search:
  assumes "\<forall>p \<in> set ps. taken p" "r_rc x \<noteq> -1" "r_rc u = 0"
    "os_script w = try_answers ps @ d # x # u # rest"
  shows "(length ps < 25 \<longrightarrow>
      (\<exists>w'. SharedMemory_CreateBackingIfNecessary (-1) w = Done (r_rc x) w' \<and>
         os_trace w' = os_trace w @ concat (map try_events (ps @ [(d, x)])) @
           [Sys (ShmUnlink (shm_name (r_rc d))) u])) \<and>
    (length ps = 25 \<longrightarrow>
      (\<exists>w'. SharedMemory_CreateBackingIfNecessary (-1) w = Done (-1) w' \<and>
         os_trace w' = os_trace w @ concat (map try_events ps) @ [Sys Rand d]))"
  using CreateBacking_found [OF assms(4,1) _ assms(2,3)] CreateBacking_exhausted [OF assms(4,1)]
  by (auto simp: SharedMemoryTempHandleMaxRetries_def)

text \<open>
  C33: A ready region is released exactly once: in a checked build, any number of calls of
  \<^verbatim>\<open>cleanup\<close> (at least none) and then the destructor unmap its mapping with its size once, close
  its handle once, in this order, and do nothing else.
\<close>

theorem SharedMemory_released_once:
  assumes "sm_ready s" "\<not> os_ndebug w" "cleanups n s w = Done s1 w1" "SharedMemory_dtor s1 w1 = Done s2 w2"
  shows "\<exists>a b. r_rc a = 0 \<and> r_rc b = 0 \<and> os_trace w2 = os_trace w @
    [Sys (Munmap (sm_address s) (sm_size s)) a, Sys (Close (sm_handle s)) b]"
proof (cases n)
  case 0
  with assms(3,4) have "SharedMemory_cleanup s w = Done s2 w2" by (simp add: SharedMemory_dtor_def)
  from SharedMemory_cleanup_debug [OF this assms(1,2)] show ?thesis by blast
next
  case (Suc k)
  with assms(3) obtain s' w' where c: "SharedMemory_cleanup s w = Done s' w'"
      "cleanups k s' w' = Done s1 w1"
    by (auto simp: bind_out_Done_iff)
  from SharedMemory_cleanup_debug [OF c(1) assms(1,2)] obtain a b where r: "r_rc a = 0" "r_rc b = 0"
      "\<not> sm_ready s'" "os_trace w' = os_trace w @
        [Sys (Munmap (sm_address s) (sm_size s)) a, Sys (Close (sm_handle s)) b]"
    by blast
  from cleanups_not_ready [OF r(3)] c(2) have "s1 = s'" "w1 = w'" by simp_all
  with assms(4) r(3) have "w2 = w'" by (simp add: SharedMemory_dtor_def SharedMemory_cleanup_def)
  with r show ?thesis by blast
qed

text \<open>
  The failure exit tests the handle the wrong way round. When no file could be opened it
  closes the descriptor \<open>-1\<close>, which aborts a checked build as the kernel refuses that. When the
  file was opened but could not be sized, its descriptor is forgotten and never closed.
\<close>

theorem SharedMemory_failure_exit:
  assumes "\<not> os_ndebug w"
  shows "(r_rc x = -1 \<longrightarrow> r_errno x \<noteq> EEXIST \<longrightarrow> r_rc c \<noteq> 0 \<longrightarrow> os_script w = [d, x, c] \<longrightarrow>
      (\<exists>w'. SharedMemory_ctor sz w = Fail AssertFailed w')) \<and>
    (r_rc x \<noteq> -1 \<longrightarrow> r_rc u = 0 \<longrightarrow> r_rc t = -1 \<longrightarrow> r_errno t \<noteq> EINTR \<longrightarrow> os_script w = [d, x, u, t] \<longrightarrow>
      (\<exists>w'. SharedMemory_ctor sz w = Done SharedMemory_null w' \<and>
        (\<forall>h. closes h w' = closes h w)))"
proof (intro conjI impI)
  assume x: "r_rc x = -1" "r_errno x \<noteq> EEXIST" "r_rc c \<noteq> 0" "os_script w = [d, x, c]"
  have "SharedMemory_CreateBackingIfNecessary (-1) w =
      Done (-1) (answered (ShmOpen (shm_name (r_rc d))) [x] (answered Rand [d] w))"
    using x by (simp add: CreateBacking_eq RandomFileName_Cons SharedMemoryTempHandleMaxRetries_def
        numeral_eq_Suc sys_Cons)
  then show "\<exists>w'. SharedMemory_ctor sz w = Fail AssertFailed w'"
    using assms x by (simp add: SharedMemory_ctor_def SharedMemory_failure_def SharedMemory_null_def
        CL_LOG_ERRNO_def emit_def CL_CHECK_failure_debug)
next
  assume x: "r_rc x \<noteq> -1" "r_rc u = 0" "r_rc t = -1" "r_errno t \<noteq> EINTR" "os_script w = [d, x, u, t]"
  obtain w1 where w1: "SharedMemory_CreateBackingIfNecessary (-1) w = Done (r_rc x) w1"
    "os_script w1 = [t]" "os_ndebug w1 = os_ndebug w"
    "os_trace w1 = os_trace w @ concat (map try_events [(d, x)]) @ [Sys (ShmUnlink (shm_name (r_rc d))) u]"
    using CreateBacking_found [of w "[]" d x u "[t]"] x
    by (auto simp: SharedMemoryTempHandleMaxRetries_def)
  have "\<not> interrupted t" using x by (simp add: interrupted_def)
  with w1 x assms show "\<exists>w'. SharedMemory_ctor sz w = Done SharedMemory_null w' \<and>
      (\<forall>h. closes h w' = closes h w)"
    by (simp add: SharedMemory_ctor_def Let_def retry_step SharedMemory_failure_def
        SharedMemory_null_def CL_LOG_ERRNO_def emit_def closes_def try_events_def)
qed

section \<open>Examples of the properties\<close>

text \<open>A kernel that finds the first name taken and then grants a mapping at address 4096.\<close>

definition shm_kernel :: os where
  "shm_kernel = start_os False
     (try_answers [(reply 7 ENONE, reply (-1) EEXIST)] @ reply 8 ENONE # reply 5 ENONE #
       reply 0 ENONE # [reply 0 ENONE, (reply 0 ENONE)\<lparr>r_ptr := 4096\<rparr>, reply 0 ENONE, reply 0 ENONE])"

definition shm_ready_object :: sharedMemory where
  "shm_ready_object = \<lparr>sm_handle = 5, sm_size = 16, sm_address = 4096, sm_ready = True\<rparr>"

lemma shm_kernel_ctor: "\<exists>w'. SharedMemory_ctor 16 shm_kernel = Done shm_ready_object w'"
proof -
  obtain w1 where w1: "SharedMemory_CreateBackingIfNecessary (-1) shm_kernel = Done 5 w1"
    "os_script w1 = [reply 0 ENONE, (reply 0 ENONE)\<lparr>r_ptr := 4096\<rparr>, reply 0 ENONE, reply 0 ENONE]"
    using CreateBacking_found [of shm_kernel "[(reply 7 ENONE, reply (-1) EEXIST)]" "reply 8 ENONE"
        "reply 5 ENONE" "reply 0 ENONE"]
    by (auto simp: shm_kernel_def taken_def SharedMemoryTempHandleMaxRetries_def)
  then show ?thesis
    by (simp add: SharedMemory_ctor_def Let_def retry_step interrupted_def sys_Cons MAP_FAILED_def
        SharedMemory_null_def shm_ready_object_def)
qed

theorem SharedMemory_invariant_witness:
  "\<exists>s w' s' v'. SharedMemory_ctor 16 shm_kernel = Done s w' \<and> SharedMemory_wf s \<and> sm_ready s \<and>
    sm_size s = 16 \<and> SharedMemory_cleanup s (start_os False [reply 0 ENONE, reply 0 ENONE]) = Done s' v' \<and>
    s' = SharedMemory_null"
proof -
  obtain w' where c: "SharedMemory_ctor 16 shm_kernel = Done shm_ready_object w'"
    using shm_kernel_ctor by blast
  have "\<exists>s' v'. SharedMemory_cleanup shm_ready_object
      (start_os False [reply 0 ENONE, reply 0 ENONE]) = Done s' v'"
    by (simp add: SharedMemory_cleanup_def shm_ready_object_def CL_CHECK_success)
  with c SharedMemory_invariant [of 16 shm_kernel] show ?thesis
    by (metis shm_ready_object_def sharedMemory.select_convs(4))
qed

theorem SharedMemory_name_search_witness:
  "\<exists>w'. SharedMemory_CreateBackingIfNecessary (-1)
      (start_os False [reply 7 ENONE, reply (-1) EEXIST, reply 8 ENONE, reply 5 ENONE, reply 0 ENONE]) = Done 5 w' \<and>
    os_trace w' = [Sys Rand (reply 7 ENONE), Sys (ShmOpen (shm_name 7)) (reply (-1) EEXIST),
      Sys Rand (reply 8 ENONE), Sys (ShmOpen (shm_name 8)) (reply 5 ENONE),
      Sys (ShmUnlink (shm_name 8)) (reply 0 ENONE)]"
  using SharedMemory_name_search [of "[(reply 7 ENONE, reply (-1) EEXIST)]" "reply 5 ENONE" "reply 0 ENONE"
      "start_os False [reply 7 ENONE, reply (-1) EEXIST, reply 8 ENONE, reply 5 ENONE, reply 0 ENONE]"
      "reply 8 ENONE" "[]"]
  by (simp add: try_events_def taken_def)

theorem SharedMemory_released_once_witness:
  "\<exists>s1 w1 s2 w2. cleanups 2 shm_ready_object (start_os False [reply 0 ENONE, reply 0 ENONE]) = Done s1 w1 \<and>
    SharedMemory_dtor s1 w1 = Done s2 w2 \<and>
    (\<exists>a b. r_rc a = 0 \<and> r_rc b = 0 \<and>
      os_trace w2 = os_trace (start_os False [reply 0 ENONE, reply 0 ENONE]) @
      [Sys (Munmap (sm_address shm_ready_object) (sm_size shm_ready_object)) a,
       Sys (Close (sm_handle shm_ready_object)) b])"
proof -
  have "\<exists>s1 w1 s2 w2. cleanups 2 shm_ready_object (start_os False [reply 0 ENONE, reply 0 ENONE]) = Done s1 w1 \<and>
      SharedMemory_dtor s1 w1 = Done s2 w2"
    by (simp add: numeral_2_eq_2 SharedMemory_cleanup_def SharedMemory_dtor_def shm_ready_object_def
        CL_CHECK_success)
  then obtain s1 w1 s2 w2 where r:
    "cleanups 2 shm_ready_object (start_os False [reply 0 ENONE, reply 0 ENONE]) = Done s1 w1"
    "SharedMemory_dtor s1 w1 = Done s2 w2"
    by blast
  from SharedMemory_released_once [OF _ _ r] r show ?thesis
    by (simp add: shm_ready_object_def)
qed

theorem SharedMemory_failure_exit_witness:
  "\<exists>w'. SharedMemory_ctor 16 (start_os False [reply 7 ENONE, reply 5 ENONE, reply 0 ENONE, reply (-1) (EOTHER 27)]) =
      Done SharedMemory_null w' \<and>
    (\<forall>h. closes h w' = closes h (start_os False [reply 7 ENONE, reply 5 ENONE, reply 0 ENONE, reply (-1) (EOTHER 27)]))"
  using SharedMemory_failure_exit [of "start_os False [reply 7 ENONE, reply 5 ENONE, reply 0 ENONE, reply (-1) (EOTHER 27)]"
      "reply 5 ENONE" "reply 0 ENONE" "reply 7 ENONE" 16 "reply 0 ENONE" "reply (-1) (EOTHER 27)"]
  by simp

end
