(* ===== verification/CL_Program.thy ===== *)
theory CL_Program
  imports CL_Server CL_SharedMemory
begin

text \<open>
  The components together: the objects a thread owns, and the handlers of its looper, which lead
  from a reported source to the channel or server that made it. This is the wiring done by the
  lambdas of \<^verbatim>\<open>Channel::source\<close> and \<^verbatim>\<open>Server::clientConnectionsSource\<close>.
\<close>

section \<open>Wiring\<close>

record objects =
  ob_channels :: "nat \<Rightarrow> channel option"
  ob_servers :: "nat \<Rightarrow> server option"

type_synonym thread = "objects thread_state"

text \<open>The code of the client: callbacks of channels and servers, its own readers and wake functions.\<close>

record client =
  cl_callbacks :: "thread callbacks"
  cl_availability :: "thread availability"
  cl_reader :: "nat \<Rightarrow> handle \<Rightarrow> thread \<Rightarrow> os \<Rightarrow> thread outcome"
  cl_wake :: "nat \<Rightarrow> thread \<Rightarrow> os \<Rightarrow> thread outcome"

definition put_channel :: "nat \<Rightarrow> channel \<Rightarrow> thread \<Rightarrow> thread" where
  "put_channel cid c ts =
     ts\<lparr>ts_client := (ts_client ts)\<lparr>ob_channels := (ob_channels (ts_client ts))(cid \<mapsto> c)\<rparr>\<rparr>"

definition put_server :: "nat \<Rightarrow> server \<Rightarrow> thread \<Rightarrow> thread" where
  "put_server sid s ts =
     ts\<lparr>ts_client := (ts_client ts)\<lparr>ob_servers := (ob_servers (ts_client ts))(sid \<mapsto> s)\<rparr>\<rparr>"

fun library_reader :: "client \<Rightarrow> reader \<Rightarrow> handle \<Rightarrow> thread \<Rightarrow> os \<Rightarrow> thread outcome" where
  "library_reader cl (ChannelReader cid) h ts =
     (case ob_channels (ts_client ts) cid of
        None \<Rightarrow> failM MemoryFault
      | Some c \<Rightarrow> bindM (Channel_readMessageOnHandle (cl_callbacks cl) h (c, ts))
          (\<lambda>(c', ts'). returnM (put_channel cid c' ts')))"
| "library_reader cl (ServerReader sid) h ts =
     (case ob_servers (ts_client ts) sid of
        None \<Rightarrow> failM MemoryFault
      | Some s \<Rightarrow> bindM (Server_onConnectionAvailableForAccept (cl_availability cl) h (s, ts))
          (\<lambda>(s', ts'). returnM (put_server sid s' ts')))"
| "library_reader cl (UserReader n) h ts = cl_reader cl n h ts"
| "library_reader cl r h ts = returnM ts"

definition library_handlers :: "client \<Rightarrow> objects handlers" where
  "library_handlers cl = \<lparr>hd_reader = library_reader cl, hd_wake = cl_wake cl\<rparr>"

section \<open>Dispatch to a channel\<close>

text \<open>The source at \<open>p\<close> is that of channel \<open>cid\<close>, as \<^verbatim>\<open>Channel::source\<close> makes it.\<close>

definition channel_at :: "nat \<Rightarrow> nat \<Rightarrow> channel \<Rightarrow> thread \<Rightarrow> bool" where
  "channel_at p cid c ts \<longleftrightarrow>
     p \<noteq> 0 \<and> ob_channels (ts_client ts) cid = Some c \<and>
     (case sr_objects (ts_sources ts) p of
        None \<Rightarrow> False
      | Some s \<Rightarrow> plain_source s \<and> so_readHandler s = Some (ChannelReader cid) \<and> so_wakeFunction s = None)"

lemma channel_atE:
  assumes "channel_at p cid c ts"
  obtains s where "p \<noteq> 0" "ob_channels (ts_client ts) cid = Some c" "sr_objects (ts_sources ts) p = Some s"
    "so_handlesAllocated s" "so_readHandler s = Some (ChannelReader cid)" "so_wakeFunction s = None"
  using assms by (auto simp: channel_at_def plain_source_def split: option.splits)

text \<open>Reading the channel of a reported source: the channel's handler, then nothing more.\<close>

lemma dispatch_channel:
  assumes "channel_at p cid c ts"
    "Channel_readMessageOnHandle (cl_callbacks cl) (fst (so_handles (the (sr_objects (ts_sources ts) p)))) (c, ts) w =
       Done (c', ts') w'"
    "sr_objects (ts_sources ts') p = sr_objects (ts_sources ts) p"
  shows "Looper_dispatch u (library_handlers cl) p ts w = Done (put_channel cid c' ts') w'"
proof -
  from assms(1) obtain s where s: "p \<noteq> 0" "ob_channels (ts_client ts) cid = Some c"
    "sr_objects (ts_sources ts) p = Some s" "so_handlesAllocated s"
    "so_readHandler s = Some (ChannelReader cid)" "so_wakeFunction s = None"
    by (rule channel_atE)
  have same: "ts\<lparr>ts_sources := ts_sources ts\<rparr> = ts" by simp
  from assms(2,3) s show ?thesis
    by (simp add: Looper_dispatch_def deref_def readHandle_allocated store_put_same library_handlers_def
        onAwoken_def put_channel_def)
qed

text \<open>What the callback of the other end sees of a message.\<close>

lemma delivered_event:
  assumes "Message_wf m" "0 < unat (Message_size m)" "unat (Message_size m) \<le> MaxBufferSize"
    "length (m_attachments m) \<le> 1" "\<forall>a \<in> set (m_attachments m). valid_handle (f (att_handle a))" "delivers f m r"
  shows "delivery g (packet_message r) = MessageReceived g (Message_data m) (map (\<lambda>a. f (att_handle a)) (m_attachments m))"
  using received_message [OF assms] by (simp add: delivery_def Attachment_ctor_def comp_def)

text \<open>
  One packet, after which the callback of the channel calls \<^verbatim>\<open>terminate\<close> of its own looper: the
  wait, the two reads, the callback and the write to the trivial source, and the loop returns.
\<close>

lemma loop_one_packet:
  assumes "channel_at p cid b ts" "socket_ready (ch_socket b)" "\<not> lk_locked (sk_lock (ch_socket b))"
    "ch_messageReceivedCallback b = Some g" "lp_trivialSource (ts_looper ts) \<noteq> 0" "\<not> lp_shouldTerminate (ts_looper ts)"
    "sr_objects (ts_sources ts) (lp_trivialSource (ts_looper ts)) = Some s" "so_handlesAllocated s"
    "so_writeHandler s = Some WakeWriter"
    "\<And>m c t w. cb_message (cl_callbacks cl) g m (c, t) w = bindM (Looper_terminate u t) (\<lambda>t'. returnM (c, t')) w"
    "os_script w = report p # r # e # q # rest" "\<forall>k. os_malloc w k" "good_packet r" "read_end e = Some Success" "r_rc q = 2"
  shows "\<exists>ts' w'. Looper_loop pf u (library_handlers cl) 2 ts w = Done ts' w' \<and> os_script w' = rest \<and>
    \<not> lp_shouldTerminate (ts_looper ts') \<and>
    os_trace w' = os_trace w @
      [Sys (wait_call_of pf ts) (report p), Sys (recv_call (ch_socket b)) r, Sys (recv_call (ch_socket b)) e,
       delivery g (packet_message r), Sys (Write (snd (so_handles s)) LooperWakeMessage) q]"
proof -
  let ?w1 = "answered (wait_call_of pf ts) ([] @ [report p]) w"
  have wait: "WaitSet_wait pf (lp_waitSet (ts_looper ts)) w = Done p ?w1"
    using WaitSet_wait_report [of w "[]" "report p" "r # e # q # rest"] assms(11) by (simp add: report_def)
  obtain s1 w2 where rd: "Socket_ReadMessages (ch_socket b) ?w1 =
      Done ((Success, map (\<lambda>(_, q). packet_message q) [([], r)]), s1) w2" "os_script w2 = q # rest"
    "os_trace w2 = os_trace ?w1 @ map (Sys (recv_call (ch_socket b))) (rounds [([], r)] @ [] @ [e])"
    by (rule ReadMessages_drains [of ?w1 "[([], r)]" "[]" e "q # rest" Success "ch_socket b"])
      (use assms in simp_all)
  let ?m = "packet_message r"
  let ?w3 = "w2\<lparr>os_trace := os_trace w2 @ [delivery g ?m]\<rparr>"
  let ?w4 = "answered (Write (snd (so_handles s)) LooperWakeMessage) ([] @ [q]) ?w3"
  let ?ts = "ts\<lparr>ts_looper := Looper_request (ts_looper ts)\<rparr>"
  let ?b = "b\<lparr>ch_socket := s1\<rparr>"
  have stop: "Looper_terminate u ts ?w3 = Done ?ts ?w4"
    by (rule Looper_terminate_evaluated [OF assms(7-9), where rest = rest]) (use assms(15) rd(2) in simp_all)
  have read: "Channel_readMessageOnHandle (cl_callbacks cl) h (b, ts) ?w1 = Done (?b, ?ts) ?w4" for h
    using rd(1) assms(4,10) stop
    by (simp add: Channel_readMessageOnHandle_def Let_def emit_def delivery_def)
  have disp: "Looper_dispatch u (library_handlers cl) p ts ?w1 = Done (put_channel cid ?b ?ts) ?w4"
    by (rule dispatch_channel [OF assms(1) read]) simp
  with wait rd(2,3) assms(5,6) show ?thesis
    by (simp add: Looper_loop_def Looper_prepare_def numeral_2_eq_2 put_channel_def Looper_request_def Looper_reset_def
        del: append_Nil)
qed

section \<open>Properties\<close>

text \<open>
  C8: A message travels from one end of a connection to the other. One end sends a message of 1
  to 1024 bytes with at most one descriptor, which the kernel takes after any number of full-queue
  rounds and interruptions. Whatever the last \<^verbatim>\<open>sendmsg\<close> of that end gave to the kernel, when a packet
  with just that arrives and the kernel reports the other end's source, the looper there reads it
  and invokes the message callback once, with the bytes that were sent and the translated
  descriptor. The callback calls \<^verbatim>\<open>terminate\<close> of its looper, so the loop then returns.
\<close>

theorem Program_message_travels:
  assumes "Message_wf m" "0 < unat (Message_size m)" "Message_size m \<le> 1024" "length (m_attachments m) \<le> 1"
    "\<forall>a \<in> set (m_attachments m). valid_handle (att_handle a) \<and> valid_handle (f (att_handle a))"
    "os_script v = busy_answers bs @ is @ k # rest'" "\<forall>b \<in> set bs. busy_ok b" "\<forall>i \<in> set is. interrupted i"
    "r_rc k = int (unat (Message_size m))" "\<not> lk_locked (sk_lock (ch_socket a))"
    "channel_at p cid b ts" "socket_ready (ch_socket b)" "\<not> lk_locked (sk_lock (ch_socket b))"
    "ch_messageReceivedCallback b = Some g" "lp_trivialSource (ts_looper ts) \<noteq> 0"
    "\<not> lp_shouldTerminate (ts_looper ts)"
    "sr_objects (ts_sources ts) (lp_trivialSource (ts_looper ts)) = Some s" "so_handlesAllocated s"
    "so_writeHandler s = Some WakeWriter"
    "\<And>m c t w. cb_message (cl_callbacks cl) g m (c, t) w = bindM (Looper_terminate u t) (\<lambda>t'. returnM (c, t')) w"
    "os_script w = report p # r # e # q # rest" "\<forall>k. os_malloc w k" "read_end e = Some Success" "r_rc q = 2"
  shows "\<exists>v'. Channel_sendMessage cb m (a, x) v = Done (True, a, x) v' \<and> os_script v' = rest' \<and>
    (transmits f v' r \<longrightarrow>
      (\<exists>ts' w'. Looper_loop pf u (library_handlers cl) 2 ts w = Done ts' w' \<and> os_script w' = rest \<and>
        \<not> lp_shouldTerminate (ts_looper ts') \<and>
        os_trace w' = os_trace w @
          [Sys (wait_call_of pf ts) (report p), Sys (recv_call (ch_socket b)) r, Sys (recv_call (ch_socket b)) e,
           MessageReceived g (Message_data m) (map (\<lambda>a. f (att_handle a)) (m_attachments m)),
           Sys (Write (snd (so_handles s)) LooperWakeMessage) q]))"
proof -
  have size: "unat (Message_size m) \<le> MaxBufferSize"
    using assms(3) by (simp add: word_le_nat_alt MaxBufferSize_def)
  have valid: "\<forall>a \<in> set (m_attachments m). valid_handle (f (att_handle a))"
    "\<forall>a \<in> set (m_attachments m). valid_handle (att_handle a)" using assms(5) by blast+
  obtain v' es where v': "Channel_sendMessage cb m (a, x) v = Done (True, a, x) v'" "os_script v' = rest'"
    "os_trace v' = es @ [Sys (Sendmsg (sk_handle (ch_socket a)) (Message_data m) (attachment_control (m_attachments m))) k]"
    by (rule sendMessage_taken [OF assms(1,3,6-10)])
  have "\<exists>ts' w'. Looper_loop pf u (library_handlers cl) 2 ts w = Done ts' w' \<and> os_script w' = rest \<and>
      \<not> lp_shouldTerminate (ts_looper ts') \<and>
      os_trace w' = os_trace w @
        [Sys (wait_call_of pf ts) (report p), Sys (recv_call (ch_socket b)) r, Sys (recv_call (ch_socket b)) e,
         MessageReceived g (Message_data m) (map (\<lambda>a. f (att_handle a)) (m_attachments m)),
         Sys (Write (snd (so_handles s)) LooperWakeMessage) q]" if t: "transmits f v' r"
  proof -
    have d: "delivers f m r" by (rule carries_delivers [OF assms(1,4) valid(2) transmitsD [OF t v'(3)]])
    note good = delivers_good_packet(1) [OF assms(1) d assms(2) size assms(4) valid(1)]
    show ?thesis
      using loop_one_packet [OF assms(11-22) good assms(23,24), of pf] delivered_event [OF assms(1,2) size assms(4) valid(1) d]
      by simp
  qed
  with v'(1,2) show ?thesis by blast
qed

text \<open>
  The loss of a peer. When the kernel reports a channel's source and then an orderly shutdown,
  the looper closes the descriptor, invokes the termination callback, once and after the close,
  and the channel reports that it is not connected; the source, however, stays in the wait set.
\<close>

theorem Program_peer_gone:
  assumes "channel_at p cid c ts" "\<not> lk_locked (sk_lock (ch_socket c))" "sk_handle (ch_socket c) \<noteq> -1"
    "ch_terminationCallback c = Some f" "ch_messageReceivedCallback c = None"
    "\<And>c t w. cb_terminate (cl_callbacks cl) f (c, t) w = Done (c, t) w"
    "os_script w = r # k # rest" "r_rc r = 0" "r_rc k = 0"
  shows "\<exists>ts' w' c'. Looper_dispatch u (library_handlers cl) p ts w = Done ts' w' \<and>
    ob_channels (ts_client ts') cid = Some c' \<and> \<not> ch_connected c' \<and> \<not> ch_ready c' \<and>
    sk_handle (ch_socket c') = -1 \<and> lp_waitSet (ts_looper ts') = lp_waitSet (ts_looper ts) \<and>
    os_trace w' = os_trace w @ [Sys (recv_call (ch_socket c)) r, Sys (Close (sk_handle (ch_socket c))) k, Terminated f]"
proof -
  let ?s = "(ch_socket c)\<lparr>sk_lock := (sk_lock (ch_socket c))\<lparr>lk_locked := True\<rparr>\<rparr>"
  let ?w1 = "answered (recv_call ?s) ([] @ [r]) w"
  have "read_loop [] ?s w = Done ((PermanentFailure, []), receive_into r ?s) ?w1"
    by (rule read_loop_end [of _ "[]" _ "k # rest"]) (use assms(7,8) in \<open>simp_all add: read_end_def\<close>)
  moreover have "recv_call ?s = recv_call (ch_socket c)" by (simp add: recv_call_def)
  ultimately obtain s' where s': "Socket_ReadMessages (ch_socket c) w = Done ((PermanentFailure, []), s')
      (answered (recv_call (ch_socket c)) [r] w)" "sk_handle s' = sk_handle (ch_socket c)"
    using assms(2) by (simp add: Socket_ReadMessages_def with_AutoLock_free)
  let ?w2 = "answered (Close (sk_handle (ch_socket c))) [k] (answered (recv_call (ch_socket c)) [r] w)"
  let ?c = "c\<lparr>ch_socket := s'\<lparr>sk_handle := -1\<rparr>, ch_connected := False, ch_ready := False\<rparr>"
  have "Channel_readMessageOnHandle (cl_callbacks cl) h (c, ts) w =
      Done (?c, ts) (?w2\<lparr>os_trace := os_trace ?w2 @ [Terminated f]\<rparr>)" for h
    using s' assms
    by (simp add: Channel_readMessageOnHandle_def Let_def Channel_terminate_def Socket_close_def
        CL_CHECK_success emit_def)
  from dispatch_channel [OF assms(1) this] show ?thesis
    by (intro exI [of _ "put_channel cid ?c ts"] exI [of _ "?w2\<lparr>os_trace := os_trace ?w2 @ [Terminated f]\<rparr>"]
        exI [of _ ?c]) (simp add: put_channel_def)
qed

section \<open>Examples of the properties\<close>

text \<open>
  A client whose message callback sets the looper's flag and makes no call of its own, and one whose
  callback calls \<^verbatim>\<open>terminate\<close> of its looper, as the tests of the repository do.
\<close>

definition program_client :: client where
  "program_client =
     \<lparr>cl_callbacks = \<lparr>cb_message = (\<lambda>g m (c, t) w.
          Done (c, t\<lparr>ts_looper := Looper_request (ts_looper t)\<rparr>) w), cb_terminate = (\<lambda>g cx w. Done cx w)\<rparr>,
      cl_availability = (\<lambda>f c sx w. Done sx w), cl_reader = (\<lambda>n h t w. Done t w), cl_wake = (\<lambda>f t w. Done t w)\<rparr>"

definition terminating_client :: client where
  "terminating_client = program_client\<lparr>cl_callbacks := (cl_callbacks program_client)
     \<lparr>cb_message := (\<lambda>g m (c, t). bindM (Looper_terminate no_user_code t) (\<lambda>t'. returnM (c, t')))\<rparr>\<rparr>"

text \<open>A thread with the channel 2 over descriptor 7, registered with the source at 5.\<close>

definition program_thread :: "channel \<Rightarrow> thread" where
  "program_thread c =
     \<lparr>ts_looper = \<lparr>lp_waitSet = \<lparr>ws_handle = 3, ws_sources = [4, 5]\<rparr>, lp_trivialSource = 4,
                   lp_shouldTerminate = False\<rparr>,
      ts_sources = \<lparr>sr_next = 6, sr_objects =
        [4 \<mapsto> LooperSource_AsTrivial\<lparr>so_handles := (10, 11), so_handlesAllocated := True\<rparr>,
         5 \<mapsto> (source_on 7)\<lparr>so_readHandler := Some (ChannelReader 2)\<rparr>]\<rparr>,
      ts_client = \<lparr>ob_channels = [2 \<mapsto> c], ob_servers = Map.empty\<rparr>\<rparr>"

lemma program_thread_simps [simp]:
  "channel_at 5 2 c (program_thread c)"
  "lp_trivialSource (ts_looper (program_thread c)) \<noteq> 0"
  "\<not> lp_shouldTerminate (ts_looper (program_thread c))"
  by (simp_all add: channel_at_def program_thread_def source_on_def plain_source_def LooperSource_ctor_def)

lemma program_thread_sources:
  "lp_trivialSource (ts_looper (program_thread c)) = 4"
  "sr_objects (ts_sources (program_thread c)) 4 =
     Some (LooperSource_AsTrivial\<lparr>so_handles := (10, 11), so_handlesAllocated := True\<rparr>)"
  by (simp_all add: program_thread_def)

lemma program_wait: "ws_handle (lp_waitSet (ts_looper (program_thread c))) = 3"
  by (simp add: program_thread_def)

theorem Program_message_travels_witness:
  "\<exists>v'. Channel_sendMessage quiet_callbacks (tiny_message [4]) (open_channel 8, ())
      (start_os False [reply (-1) EINTR, reply 1 ENONE]) = Done (True, open_channel 8, ()) v' \<and> os_script v' = [] \<and>
    transmits (\<lambda>_. 9) v' (tiny_reply [4]) \<and>
    (\<exists>ts' w'. Looper_loop Linux no_user_code (library_handlers terminating_client) 2 (program_thread (open_channel 7))
        (start_os False [report 5, tiny_reply [4], reply (-1) EAGAIN, reply 2 ENONE]) = Done ts' w' \<and>
      os_script w' = [] \<and> \<not> lp_shouldTerminate (ts_looper ts') \<and>
      os_trace w' =
        [Sys (EpollWait 3) (report 5), Sys (recv_call (open_socket 7)) (tiny_reply [4]),
         Sys (recv_call (open_socket 7)) (reply (-1) EAGAIN), MessageReceived 1 [Some 65] [9],
         Sys (Write 11 LooperWakeMessage) (reply 2 ENONE)])"
proof -
  let ?v = "start_os False [reply (-1) EINTR, reply 1 ENONE]"
  let ?w = "start_os False [report 5, tiny_reply [4], reply (-1) EAGAIN, reply 2 ENONE]"
  let ?s = "LooperSource_AsTrivial\<lparr>so_handles := (10, 11), so_handlesAllocated := True\<rparr>"
  have script: "os_script ?v = busy_answers [] @ [reply (-1) EINTR] @ reply 1 ENONE # []"
    by (simp add: busy_answers_def)
  have sent: "transmits (\<lambda>_. 9) v' (tiny_reply [4])"
    if run: "Channel_sendMessage quiet_callbacks (tiny_message [4]) (open_channel 8, ()) ?v = Done (True, open_channel 8, ()) v'" for v'
  proof -
    obtain es where "os_trace v' = es @ [Sys (Sendmsg 8 [Some 65] (attachment_control [Attachment_ctor 4])) (reply 1 ENONE)]"
      by (rule sendMessage_taken [OF _ _ script, of "tiny_message [4]" "open_channel 8" quiet_callbacks "()"])
        (use run in \<open>simp_all add: interrupted_def\<close>)
    with tiny_carried show ?thesis unfolding transmits_def by blast
  qed
  have "\<exists>v'. Channel_sendMessage quiet_callbacks (tiny_message [4]) (open_channel 8, ()) ?v = Done (True, open_channel 8, ()) v' \<and>
    os_script v' = [] \<and> (transmits (\<lambda>_. 9) v' (tiny_reply [4]) \<longrightarrow>
    (\<exists>ts' w'. Looper_loop Linux no_user_code (library_handlers terminating_client) 2 (program_thread (open_channel 7)) ?w
        = Done ts' w' \<and> os_script w' = [] \<and> \<not> lp_shouldTerminate (ts_looper ts') \<and>
      os_trace w' = os_trace ?w @
        [Sys (wait_call_of Linux (program_thread (open_channel 7))) (report 5),
         Sys (recv_call (ch_socket (open_channel 7))) (tiny_reply [4]),
         Sys (recv_call (ch_socket (open_channel 7))) (reply (-1) EAGAIN),
         MessageReceived 1 (Message_data (tiny_message [4])) (map (\<lambda>a. 9) (m_attachments (tiny_message [4]))),
         Sys (Write (snd (so_handles ?s)) LooperWakeMessage) (reply 2 ENONE)]))"
    by (rule Program_message_travels [OF _ _ _ _ _ script, where e = "reply (-1) EAGAIN" and b = "open_channel 7"
          and p = 5 and cid = 2])
      (simp_all add: valid_handle_def read_end_def program_client_def terminating_client_def interrupted_def
        Attachment_ctor_def program_thread_sources LooperSource_AsTrivial_def LooperSource_ctor_def)
  with sent show ?thesis
    by (auto simp: wait_call_of_def program_wait Attachment_ctor_def)
qed

theorem Program_peer_gone_witness:
  "\<exists>ts' w' c'. Looper_dispatch no_user_code (library_handlers program_client) 5
      (program_thread ((open_channel 7)\<lparr>ch_messageReceivedCallback := None\<rparr>))
      (start_os False [reply 0 ENONE, reply 0 ENONE]) = Done ts' w' \<and>
    ob_channels (ts_client ts') 2 = Some c' \<and> \<not> ch_connected c' \<and> \<not> ch_ready c' \<and>
    sk_handle (ch_socket c') = -1 \<and>
    lp_waitSet (ts_looper ts') =
      lp_waitSet (ts_looper (program_thread ((open_channel 7)\<lparr>ch_messageReceivedCallback := None\<rparr>))) \<and>
    os_trace w' = os_trace (start_os False [reply 0 ENONE, reply 0 ENONE]) @
      [Sys (recv_call (ch_socket ((open_channel 7)\<lparr>ch_messageReceivedCallback := None\<rparr>))) (reply 0 ENONE),
       Sys (Close (sk_handle (ch_socket ((open_channel 7)\<lparr>ch_messageReceivedCallback := None\<rparr>)))) (reply 0 ENONE),
       Terminated 2]"
  by (rule Program_peer_gone [where rest = "[]"]) (simp_all add: program_client_def)

end
