(* ===== verification/CL_Session.thy ===== *)
theory CL_Session
  imports CL_Program
begin

text \<open>
  Whole sessions of a looper thread: several channels that share one looper, whose packets the
  kernel reports in any order, and a client's connection that the server accepts while the loop
  runs and whose channel the loop then serves.
\<close>

section \<open>Several channels on one looper\<close>

text \<open>
  A visit: the kernel reports a source (after interruptions) and then answers the reads of its
  channel with a batch of packets and an answer that ends the reading.
\<close>

record visit =
  vi_interrupts :: "sysres list"
  vi_source :: nat
  vi_batch :: "(sysres list \<times> sysres) list"
  vi_end_interrupts :: "sysres list"
  vi_end :: sysres

definition visit_answers :: "visit \<Rightarrow> sysres list" where
  "visit_answers v = vi_interrupts v @ report (vi_source v) #
     rounds (vi_batch v) @ vi_end_interrupts v @ [vi_end v]"

definition visit_ok :: "visit \<Rightarrow> bool" where
  "visit_ok v \<longleftrightarrow>
     (\<forall>i \<in> set (vi_interrupts v). interrupted i) \<and> good_rounds (vi_batch v) \<and>
     (\<forall>i \<in> set (vi_end_interrupts v). interrupted i) \<and>
     (\<exists>st. read_end (vi_end v) = Some st \<and> st \<noteq> PermanentFailure)"

text \<open>The sources in \<open>table\<close> belong to channels that are open and have the callbacks \<open>g\<close>.\<close>

definition listening :: "(nat \<Rightarrow> nat option) \<Rightarrow> (nat \<Rightarrow> nat) \<Rightarrow> thread \<Rightarrow> bool" where
  "listening table g ts \<longleftrightarrow>
     (\<forall>p cid. table p = Some cid \<longrightarrow> (\<exists>c. channel_at p cid c ts \<and> socket_ready (ch_socket c) \<and>
        \<not> lk_locked (sk_lock (ch_socket c)) \<and> ch_messageReceivedCallback c = Some (g cid)))"

text \<open>Message callbacks that do what they like with the client's own business only.\<close>

definition unobtrusive :: "client \<Rightarrow> bool" where
  "unobtrusive cl \<longleftrightarrow>
     (\<forall>f m cx w. \<exists>w'. cb_message (cl_callbacks cl) f m cx w = Done cx w' \<and> os_script w' = os_script w \<and>
        os_malloc w' = os_malloc w \<and> deliveries w' = deliveries w)"

definition visit_deliveries :: "(nat \<Rightarrow> nat option) \<Rightarrow> (nat \<Rightarrow> nat) \<Rightarrow> visit \<Rightarrow> event list" where
  "visit_deliveries table g v =
     map (\<lambda>(_, p). delivery (g (the (table (vi_source v)))) (packet_message p)) (vi_batch v)"

lemma dispatch_messages_unobtrusive:
  assumes "unobtrusive cl" "ch_messageReceivedCallback c = Some f"
  shows "\<exists>w'. dispatch_messages (cl_callbacks cl) ms (c, ts) w = Done (c, ts) w' \<and>
    os_script w' = os_script w \<and> os_malloc w' = os_malloc w \<and>
    deliveries w' = deliveries w @ map (delivery f) ms"
proof (induction ms arbitrary: w)
  case (Cons m ms)
  let ?w = "w\<lparr>os_trace := os_trace w @ [delivery f m]\<rparr>"
  have "\<exists>w'. cb_message (cl_callbacks cl) f m (c, ts) ?w = Done (c, ts) w' \<and> os_script w' = os_script ?w \<and>
      os_malloc w' = os_malloc ?w \<and> deliveries w' = deliveries ?w"
    using assms(1) unfolding unobtrusive_def by blast
  then obtain w1 where w1: "cb_message (cl_callbacks cl) f m (c, ts) ?w = Done (c, ts) w1"
    "os_script w1 = os_script w" "os_malloc w1 = os_malloc w" "deliveries w1 = deliveries ?w"
    by auto
  have "deliveries ?w = deliveries w @ [delivery f m]" by (simp add: deliveries_def delivery_def)
  with w1 Cons [of w1] assms(2) show ?case by (auto simp: emit_def delivery_def)
qed simp

text \<open>One visit: everything in the batch is delivered, and all channels are as open as before.\<close>

lemma visit_served:
  assumes "listening table g ts" "unobtrusive cl" "table p = Some cid"
    "os_script w = rounds bs @ is @ r # rest" "good_rounds bs" "\<forall>i \<in> set is. interrupted i"
    "read_end r = Some st" "st \<noteq> PermanentFailure" "\<forall>k. os_malloc w k"
  obtains ts' w' where "Looper_dispatch u (library_handlers cl) p ts w = Done ts' w'"
    "listening table g ts'" "ts_looper ts' = ts_looper ts" "os_script w' = rest" "os_malloc w' = os_malloc w"
    "deliveries w' = deliveries w @ map (\<lambda>(_, p). delivery (g cid) (packet_message p)) bs"
proof -
  obtain c where c: "channel_at p cid c ts" "socket_ready (ch_socket c)" "\<not> lk_locked (sk_lock (ch_socket c))"
    "ch_messageReceivedCallback c = Some (g cid)"
    using assms(1,3) unfolding listening_def by blast
  obtain s1 w1 where rd: "Socket_ReadMessages (ch_socket c) w =
      Done ((st, map (\<lambda>(_, p). packet_message p) bs), s1) w1" "\<not> lk_locked (sk_lock s1)" "socket_ready s1"
    "os_script w1 = rest" "os_trace w1 = os_trace w @ map (Sys (recv_call (ch_socket c))) (rounds bs @ is @ [r])"
    "os_malloc w1 = os_malloc w"
    by (rule ReadMessages_drains [OF assms(4-7) c(2) assms(9) c(3)]) simp
  let ?c = "c\<lparr>ch_socket := s1\<rparr>"
  have cb: "ch_messageReceivedCallback ?c = Some (g cid)" using c(4) by simp
  obtain w2 where w2: "dispatch_messages (cl_callbacks cl) (map (\<lambda>(_, p). packet_message p) bs) (?c, ts) w1 =
      Done (?c, ts) w2" "os_script w2 = os_script w1" "os_malloc w2 = os_malloc w1"
    "deliveries w2 = deliveries w1 @ map (delivery (g cid)) (map (\<lambda>(_, p). packet_message p) bs)"
    using dispatch_messages_unobtrusive [OF assms(2) cb] by blast
  have "Channel_readMessageOnHandle (cl_callbacks cl) h (c, ts) w = Done (?c, ts) w2" for h
    using rd(1) w2(1) c(4) assms(8) by (simp add: Channel_readMessageOnHandle_def)
  from dispatch_channel [OF c(1) this]
  have "Looper_dispatch u (library_handlers cl) p ts w = Done (put_channel cid ?c ts) w2" by simp
  moreover have "listening table g (put_channel cid ?c ts)"
    unfolding listening_def
  proof (intro allI impI)
    fix q did assume q: "table q = Some did"
    with assms(1) obtain d where d: "channel_at q did d ts" "socket_ready (ch_socket d)"
      "\<not> lk_locked (sk_lock (ch_socket d))" "ch_messageReceivedCallback d = Some (g did)"
      unfolding listening_def by blast
    let ?d = "if did = cid then ?c else d"
    have "channel_at q did ?d (put_channel cid ?c ts)"
      using d(1) by (auto simp: channel_at_def put_channel_def)
    with c d rd show "\<exists>c. channel_at q did c (put_channel cid ?c ts) \<and> socket_ready (ch_socket c) \<and>
        \<not> lk_locked (sk_lock (ch_socket c)) \<and> ch_messageReceivedCallback c = Some (g did)"
      by (intro exI [of _ ?d]) simp
  qed
  moreover have "deliveries w1 = deliveries w"
    by (simp add: deliveries_def rd(5) filter_empty_conv del: map_append)
  moreover have "map (delivery (g cid)) (map (\<lambda>(_, p). packet_message p) bs) =
      map (\<lambda>(_, p). delivery (g cid) (packet_message p)) bs" by auto
  ultimately show ?thesis
    using w2 rd(4,6) by (intro that [of "put_channel cid ?c ts" w2]) (simp_all add: put_channel_def)
qed

lemma while_visits:
  assumes "listening table g ts" "unobtrusive cl" "\<not> lp_shouldTerminate (ts_looper ts)"
    "\<forall>v \<in> set vs. visit_ok v \<and> table (vi_source v) \<noteq> None"
    "os_script w = concat (map visit_answers vs)" "\<forall>k. os_malloc w k" "length vs < n"
  shows "\<exists>w'. Looper_while pf u (library_handlers cl) n ts w = Fail OutOfScript w' \<and>
    deliveries w' = deliveries w @ concat (map (visit_deliveries table g) vs)"
  using assms
proof (induction vs arbitrary: n ts w)
  case Nil
  then obtain k where "n = Suc k" by (cases n) auto
  with Nil show ?case
    by (cases pf) (simp_all add: WaitSet_wait_def epoll.wait_call kqueue.wait_call retry_only_interrupted
        answered_def deliveries_def)
next
  case (Cons v vs)
  then obtain k where n: "n = Suc k" by (cases n) auto
  obtain cid where cid: "table (vi_source v) = Some cid" using Cons.prems(4) by auto
  have v: "visit_ok v" using Cons.prems(4) by simp
  then obtain st where st: "read_end (vi_end v) = Some st" "st \<noteq> PermanentFailure"
    unfolding visit_ok_def by blast
  have script: "os_script w = vi_interrupts v @ report (vi_source v) #
      rounds (vi_batch v) @ vi_end_interrupts v @ vi_end v # concat (map visit_answers vs)"
    using Cons.prems(5) by (simp add: visit_answers_def [of v])
  let ?w1 = "answered (wait_call_of pf ts) (vi_interrupts v @ [report (vi_source v)]) w"
  have wait: "WaitSet_wait pf (lp_waitSet (ts_looper ts)) w = Done (vi_source v) ?w1"
    using WaitSet_wait_report [OF script] v by (simp add: visit_ok_def report_def)
  have script1: "os_script ?w1 = rounds (vi_batch v) @ vi_end_interrupts v @ vi_end v #
      concat (map visit_answers vs)"
    using script by simp
  obtain ts' w2 where served: "Looper_dispatch u (library_handlers cl) (vi_source v) ts ?w1 = Done ts' w2"
    "listening table g ts'" "ts_looper ts' = ts_looper ts" "os_script w2 = concat (map visit_answers vs)"
    "os_malloc w2 = os_malloc ?w1"
    "deliveries w2 = deliveries ?w1 @ map (\<lambda>(_, p). delivery (g cid) (packet_message p)) (vi_batch v)"
    by (rule visit_served [OF Cons.prems(1,2) cid script1, of st u])
      (use v st Cons.prems(6) in \<open>simp_all add: visit_ok_def\<close>)
  have "deliveries ?w1 = deliveries w"
    by (simp add: deliveries_def filter_empty_conv del: map_append)
  moreover obtain w' where "Looper_while pf u (library_handlers cl) k ts' w2 = Fail OutOfScript w'"
    "deliveries w' = deliveries w2 @ concat (map (visit_deliveries table g) vs)"
    using Cons.IH [of ts' w2 k] Cons.prems served n by auto
  ultimately show ?case
    using n wait served(1,6) cid Cons.prems(3)
    by (intro exI [of _ w']) (simp add: visit_deliveries_def [of table g v])
qed

section \<open>A connection accepted by the loop\<close>

text \<open>The source at \<open>p\<close> is that of the server \<open>sid\<close>, as \<^verbatim>\<open>clientConnectionsSource\<close> makes it.\<close>

definition server_at :: "nat \<Rightarrow> nat \<Rightarrow> server \<Rightarrow> thread \<Rightarrow> bool" where
  "server_at p sid sv ts \<longleftrightarrow>
     p \<noteq> 0 \<and> ob_servers (ts_client ts) sid = Some sv \<and>
     (case sr_objects (ts_sources ts) p of
        None \<Rightarrow> False
      | Some s \<Rightarrow> plain_source s \<and> fst (so_handles s) = sv_socketHandle sv \<and>
          so_readHandler s = Some (ServerReader sid) \<and> so_wakeFunction s = None)"

text \<open>
  A client that keeps the channel it is given under the identity \<open>cid\<close>, with the message callback
  \<open>mf\<close>, and schedules it in the looper of the thread, as the tests of the repository do.
\<close>

definition adopting :: "platform \<Rightarrow> user_code \<Rightarrow> nat \<Rightarrow> nat \<Rightarrow> thread availability" where
  "adopting pf u cid mf f c sx =
     (let (sv, ts) = sx in
      bindM (Channel_scheduleInLooper pf u cid (Channel_setMessageReceivedCallback (Some mf) c) (Some ts))
        (\<lambda>(c', looper). case looper of
            None \<Rightarrow> failM MemoryFault
          | Some ts' \<Rightarrow> returnM (sv, put_channel cid c' ts')))"

lemma Socket_ctor_evaluated:
  assumes "os_script w = a # b # c # d # rest" "\<forall>r \<in> {a, b, c, d}. r_rc r = 0" "0 < h" "\<forall>k. os_malloc w k"
  obtains s w' where "Socket_ctor h w = Done s w'" "sk_handle s = h" "socket_ready s" "\<not> lk_locked (sk_lock s)"
    "os_script w' = rest" "os_malloc w' = os_malloc w" "deliveries w' = deliveries w"
    "os_trace w' = os_trace w @ [Sys (Setsockopt h SO_SNDBUF MaxBufferSize) a,
       Sys (Setsockopt h SO_RCVBUF MaxBufferSize) b, Sys (SetNonblock h) c, Sys (SetNonblock h) d]"
proof -
  let ?s = "\<lparr>sk_lock = Lock_ctor, sk_buffer = Some (fresh_region MaxBufferSize), sk_controlBuffer = Some [],
    sk_handle = h\<rparr>"
  have "\<exists>w'. Socket_ctor h w = Done ?s w' \<and> os_script w' = rest \<and> os_malloc w' = os_malloc w \<and>
    os_trace w' = os_trace w @ [Sys (Setsockopt h SO_SNDBUF MaxBufferSize) a,
       Sys (Setsockopt h SO_RCVBUF MaxBufferSize) b, Sys (SetNonblock h) c, Sys (SetNonblock h) d]"
    using assms by (simp add: Socket_ctor_def CL_CHECK_success malloc_def CL_ASSERT_holds)
  then show ?thesis
    using that by (auto simp: socket_ready_def pthread_mutex.free_not_held deliveries_def)
qed

text \<open>The registration of a channel's new source, on either platform.\<close>

definition control_call :: "platform \<Rightarrow> handle \<Rightarrow> bool \<Rightarrow> handle \<Rightarrow> nat \<Rightarrow> syscall" where
  "control_call pf = (case pf of Linux \<Rightarrow> epoll_control | Apple \<Rightarrow> kqueue_control)"

lemma update_fixed:
  assumes "os_script w = k # rest" "\<not> interrupted k" "so_handlesAllocator s = Some (FixedHandles h h')"
    "\<not> so_handlesAllocated s" "so_customWaitSetUpdateHandler s = None"
  shows "updateInWaitSetHandle pf u p q b s w =
    Done (s\<lparr>so_handles := (h, h'), so_handlesAllocated := True\<rparr>) (answered (control_call pf q b h p) [k] w)"
  using assms
  by (cases pf) (simp_all add: updateInWaitSetHandle_def updateInWaitSetHandle_Linux_def
      updateInWaitSetHandle_Apple_def LooperSource_readHandle_def LooperSource_handles_def
      LooperSource_UpdateEpollSource_def LooperSource_UpdateKeventSource_def control_call_def
      epoll_control_def kqueue_control_def retry_step)

lemma control_call_interest:
  "interest_event q m (Sys (control_call pf q b h p) r) =
     (if r_rc r = 0 then (if b then m((h, EVFILT_READ) \<mapsto> p) else m((h, EVFILT_READ) := None)) else m)"
  by (cases pf) (simp_all add: control_call_def epoll.control_interest kqueue.control_interest)

lemma schedule_evaluated:
  assumes "ch_connected c" "ch_source c = 0" "os_script w = k # rest" "\<not> interrupted k" "q = sr_next (ts_sources ts)"
    "q \<noteq> 0" "q \<notin> set (ws_sources (lp_waitSet (ts_looper ts)))"
  shows "Channel_scheduleInLooper pf u cid c (Some ts) w =
    Done (c\<lparr>ch_source := q\<rparr>, Some (ts\<lparr>ts_looper := (ts_looper ts)\<lparr>lp_waitSet :=
        (lp_waitSet (ts_looper ts))\<lparr>ws_sources := insort q (ws_sources (lp_waitSet (ts_looper ts)))\<rparr>\<rparr>,
      ts_sources := \<lparr>sr_next = Suc q, sr_objects = (sr_objects (ts_sources ts))(q \<mapsto>
        (LooperSource_ctor (Some (FixedHandles (sk_handle (ch_socket c)) (sk_handle (ch_socket c)))) None
           (Some (ChannelReader cid)) None)
        \<lparr>so_handles := (sk_handle (ch_socket c), sk_handle (ch_socket c)), so_handlesAllocated := True\<rparr>)\<rparr>\<rparr>))
      (answered (control_call pf (ws_handle (lp_waitSet (ts_looper ts))) True (sk_handle (ch_socket c)) q) [k] w)"
proof -
  let ?src = "LooperSource_ctor (Some (FixedHandles (sk_handle (ch_socket c)) (sk_handle (ch_socket c)))) None
     (Some (ChannelReader cid)) None"
  have "updateInWaitSetHandle pf u q (ws_handle (lp_waitSet (ts_looper ts))) True ?src w =
      Done (?src\<lparr>so_handles := (sk_handle (ch_socket c), sk_handle (ch_socket c)), so_handlesAllocated := True\<rparr>)
        (answered (control_call pf (ws_handle (lp_waitSet (ts_looper ts))) True (sk_handle (ch_socket c)) q) [k] w)"
    by (rule update_fixed [OF assms(3,4)]) (simp_all add: LooperSource_ctor_def)
  with assms show ?thesis
    by (simp add: Channel_scheduleInLooper_def Channel_source_def CL_ASSERT_holds store_new_def Let_def
        Looper_addSource_def WaitSet_addSource_def update_source_def deref_def set_contains_def
        set_insert_def store_put_def)
qed

lemma update_registered:
  assumes "plain_source s" "os_script w = k # rest" "\<not> interrupted k"
  shows "updateInWaitSetHandle pf u p q b s w = Done s (answered (control_call pf q b (fst (so_handles s)) p) [k] w)"
  using assms
  by (cases pf) (simp_all add: epoll.update_plain kqueue.update_plain control_call_def retry_step)

lemma unschedule_evaluated:
  assumes "ch_source c = p" "p \<in> set (ws_sources (lp_waitSet (ts_looper ts)))"
    "sr_objects (ts_sources ts) p = Some s" "plain_source s" "os_script w = k # rest" "\<not> interrupted k"
  shows "Channel_unscheduleFromLooper pf u c (Some ts) w =
    Done (Some (ts\<lparr>ts_looper := (ts_looper ts)\<lparr>lp_waitSet :=
        (lp_waitSet (ts_looper ts))\<lparr>ws_sources := set_erase p (ws_sources (lp_waitSet (ts_looper ts)))\<rparr>\<rparr>\<rparr>))
      (answered (control_call pf (ws_handle (lp_waitSet (ts_looper ts))) False (fst (so_handles s)) p) [k] w)"
  using assms(1-3) update_registered [OF assms(4-6)]
  by (simp add: Channel_unscheduleFromLooper_def Looper_removeSource_def WaitSet_removeSource_def set_contains_def
      update_source_def deref_def store_put_same)

lemma terminate_closes:
  assumes "sk_handle (ch_socket c) = h" "h \<noteq> -1" "os_script w = k # rest" "r_rc k = 0"
    "\<And>f cx w. cb_terminate cb f cx w = Done cx w"
  obtains c' w' where "Channel_terminate cb (c, x) w = Done (c', x) w'" "ch_source c' = ch_source c" "\<not> ch_connected c'"
    "os_script w' = rest" "interest q (os_trace w') (h, EVFILT_READ) = None"
proof -
  let ?s = "(ch_socket c)\<lparr>sk_handle := -1\<rparr>"
  let ?c = "c\<lparr>ch_socket := ?s, ch_connected := False, ch_ready := False\<rparr>"
  let ?w1 = "answered (Close h) [k] w"
  have close: "Socket_close (ch_socket c) w = Done (True, ?s) ?w1"
    using assms(1-4) by (simp add: Socket_close_def CL_CHECK_success)
  have gone: "interest q (os_trace ?w1) (h, EVFILT_READ) = None"
    using assms(4) by (simp add: interest_append)
  show ?thesis
  proof (cases "ch_terminationCallback c")
    case None
    with close gone assms(3) that [of ?c ?w1] show ?thesis by (simp add: Channel_terminate_def)
  next
    case (Some f)
    let ?w2 = "?w1\<lparr>os_trace := os_trace ?w1 @ [Terminated f]\<rparr>"
    have "Channel_terminate cb (c, x) w = Done (?c, x) ?w2"
      using close Some assms(5) by (simp add: Channel_terminate_def emit_def)
    with gone assms(3) that [of ?c ?w2] show ?thesis by (simp add: interest_append)
  qed
qed

lemma connection_adopted:
  assumes "server_at p sid sv ts" "sv_channelAvailabilityCallback sv = Some f"
    "cl_availability cl = adopting pf u cid mf" "os_script w = a # b # c # d # e # k # rest"
    "0 < r_rc a" "\<forall>r \<in> {b, c, d, e, k}. r_rc r = 0" "\<forall>k. os_malloc w k"
    "q = sr_next (ts_sources ts)" "q \<noteq> 0" "q \<notin> set (ws_sources (lp_waitSet (ts_looper ts)))"
    "sr_objects (ts_sources ts) q = None"
  obtains ch ts' w' where "Looper_dispatch u (library_handlers cl) p ts w = Done ts' w'"
    "channel_at q cid ch ts'" "sk_handle (ch_socket ch) = r_rc a" "socket_ready (ch_socket ch)"
    "\<not> lk_locked (sk_lock (ch_socket ch))" "ch_messageReceivedCallback ch = Some mf" "ch_connected ch"
    "q \<in> set (ws_sources (lp_waitSet (ts_looper ts')))"
    "interest (ws_handle (lp_waitSet (ts_looper ts))) (os_trace w') (r_rc a, EVFILT_READ) = Some q"
    "lp_shouldTerminate (ts_looper ts') = lp_shouldTerminate (ts_looper ts)"
    "os_script w' = rest" "os_malloc w' = os_malloc w" "deliveries w' = deliveries w"
proof -
  obtain s where s: "p \<noteq> 0" "ob_servers (ts_client ts) sid = Some sv" "sr_objects (ts_sources ts) p = Some s"
    "so_handlesAllocated s" "fst (so_handles s) = sv_socketHandle sv" "so_readHandler s = Some (ServerReader sid)"
    "so_wakeFunction s = None"
    using assms(1) by (auto simp: server_at_def plain_source_def split: option.splits)
  with assms(11) have pq: "p \<noteq> q" by auto
  let ?w1 = "answered (Accept (sv_socketHandle sv)) [a] w"
  have "os_script ?w1 = b # c # d # e # k # rest" using assms(4) by simp
  moreover have "\<forall>r \<in> {b, c, d, e}. r_rc r = 0" using assms(6) by blast
  moreover have "\<forall>k. os_malloc ?w1 k" unfolding answered_simps by (rule assms(7))
  ultimately obtain sock w2 where sock: "Socket_ctor (r_rc a) ?w1 = Done sock w2" "sk_handle sock = r_rc a" "socket_ready sock"
    "\<not> lk_locked (sk_lock sock)" "os_script w2 = k # rest" "os_malloc w2 = os_malloc ?w1" "deliveries w2 = deliveries ?w1"
    using Socket_ctor_evaluated [OF _ _ assms(5), of ?w1 b c d e "k # rest"] by blast
  let ?ws = "lp_waitSet (ts_looper ts)"
  let ?c = "Channel_setMessageReceivedCallback (Some mf) (Channel_of_socket sock)"
  let ?w3 = "w2\<lparr>os_trace := os_trace w2 @ [ChannelAvailable f (r_rc a)]\<rparr>"
  let ?w4 = "answered (control_call pf (ws_handle ?ws) True (r_rc a) q) [k] ?w3"
  let ?src = "(LooperSource_ctor (Some (FixedHandles (r_rc a) (r_rc a))) None (Some (ChannelReader cid)) None)
    \<lparr>so_handles := (r_rc a, r_rc a), so_handlesAllocated := True\<rparr>"
  let ?ts1 = "ts\<lparr>ts_looper := (ts_looper ts)\<lparr>lp_waitSet := ?ws\<lparr>ws_sources := insort q (ws_sources ?ws)\<rparr>\<rparr>,
    ts_sources := \<lparr>sr_next = Suc q, sr_objects = (sr_objects (ts_sources ts))(q \<mapsto> ?src)\<rparr>\<rparr>"
  let ?c' = "?c\<lparr>ch_source := q\<rparr>"
  have "\<not> interrupted k" using assms(6) by (simp add: interrupted_def)
  then have sched: "Channel_scheduleInLooper pf u cid ?c (Some ts) ?w3 = Done (?c', Some ?ts1) ?w4"
    using schedule_evaluated [of ?c ?w3 k rest q ts pf u cid] sock(2,5) assms(8-10)
    by (simp add: Channel_setMessageReceivedCallback_def Channel_of_socket_def)
  then have adopt: "adopting pf u cid mf f (Channel_of_socket sock) (sv, ts) ?w3 =
      Done (sv, put_channel cid ?c' ?ts1) ?w4"
    by (simp only: adopting_def Let_def prod.case bindM_apply bind_out.simps option.case returnM_apply)
  have made: "Channel_of_handle (r_rc a) ?w1 = Done (Channel_of_socket sock) w2"
    "sk_handle (ch_socket (Channel_of_socket sock)) = r_rc a"
    using sock(1,2) by (simp_all add: Channel_of_handle_def Socket_Create_def Channel_of_socket_def)
  have called: "sys (Accept (sv_socketHandle sv)) w = Done a ?w1" "r_rc a \<noteq> -1"
    using assms(4,5) by (simp_all add: sys_Cons)
  have accept: "Server_onConnectionAvailableForAccept (cl_availability cl) (sv_socketHandle sv) (sv, ts) w =
      Done (sv, put_channel cid ?c' ?ts1) ?w4"
    unfolding Server_onConnectionAvailableForAccept_def assms(3)
    by (simp only: Let_def fst_conv seqM_apply bindM_apply CL_ASSERT_holds bind_out.simps called made assms(2)
        option.case emit_def adopt if_False)
  let ?ts' = "put_server sid sv (put_channel cid ?c' ?ts1)"
  have "Looper_dispatch u (library_handlers cl) p ts w = Done ?ts' ?w4"
    using s accept pq
    by (simp add: Looper_dispatch_def deref_def readHandle_allocated store_put_same library_handlers_def
        onAwoken_def put_server_def put_channel_def)
  moreover have "channel_at q cid ?c' ?ts'"
    using assms(9) by (simp add: channel_at_def put_server_def put_channel_def plain_source_def LooperSource_ctor_def)
  moreover have "interest (ws_handle ?ws) (os_trace ?w4) (r_rc a, EVFILT_READ) = Some q"
    using assms(6) by (simp add: interest_append control_call_interest)
  moreover have "deliveries ?w4 = deliveries w"
    using sock(7) by (simp add: deliveries_def)
  ultimately show ?thesis
    using sock by (intro that [of ?ts' ?w4 ?c'])
      (simp_all add: put_server_def put_channel_def Channel_setMessageReceivedCallback_def Channel_of_socket_def
        set_insort_key)
qed

section \<open>Properties\<close>

text \<open>
  C9: One looper serves many channels. Whatever the order in which the kernel reports their
  sources, every packet is delivered to the message callback of the channel it arrived on, once
  and in the order of arrival, through interruptions and temporary failures, and afterwards the
  loop waits again.
\<close>

theorem Program_multiplex:
  assumes "listening table g ts" "unobtrusive cl" "\<not> lp_shouldTerminate (ts_looper ts)"
    "lp_trivialSource (ts_looper ts) \<noteq> 0" "\<forall>v \<in> set vs. visit_ok v \<and> table (vi_source v) \<noteq> None"
    "os_script w = concat (map visit_answers vs)" "\<forall>k. os_malloc w k" "length vs < n"
  shows "\<exists>w'. Looper_loop pf u (library_handlers cl) n ts w = Fail OutOfScript w' \<and>
    deliveries w' = deliveries w @ concat (map (visit_deliveries table g) vs)"
  using while_visits [OF assms(1-3,5-8)] assms(4) by (simp add: Looper_loop_def Looper_prepare_def)

text \<open>
  C18: A client's connection from its arrival to its messages. When the kernel reports the source of
  a server, the loop accepts the connection and the client gets a connected channel over the new
  descriptor; a client that schedules it has it registered with the kernel under a new source,
  and from then on the same loop delivers what arrives there.
\<close>

theorem Program_connection_served:
  assumes "server_at p sid sv ts" "Server_channelAvailabilityCallback sv = Some f"
    "cl_availability cl = adopting pf u cid mf" "unobtrusive cl"
    "os_script w = report p # a # b # c # d # e # k # concat (map visit_answers vs)"
    "0 < r_rc a" "\<forall>r \<in> {b, c, d, e, k}. r_rc r = 0" "\<forall>k. os_malloc w k"
    "q = sr_next (ts_sources ts)" "q \<noteq> 0" "q \<notin> set (ws_sources (lp_waitSet (ts_looper ts)))"
    "sr_objects (ts_sources ts) q = None" "\<forall>v \<in> set vs. visit_ok v \<and> vi_source v = q"
    "lp_trivialSource (ts_looper ts) \<noteq> 0" "\<not> lp_shouldTerminate (ts_looper ts)" "Suc (length vs) < n"
  shows "(\<exists>ch ts' w'. Looper_dispatch u (library_handlers cl) p ts (answered (wait_call_of pf ts) [report p] w) = Done ts' w' \<and>
      channel_at q cid ch ts' \<and> Socket_handle (ch_socket ch) = r_rc a \<and> Channel_isConnected ch \<and>
      q \<in> set (ws_sources (lp_waitSet (ts_looper ts'))) \<and>
      interest (ws_handle (lp_waitSet (ts_looper ts))) (os_trace w') (r_rc a, EVFILT_READ) = Some q) \<and>
    (\<exists>w'. Looper_loop pf u (library_handlers cl) n ts w = Fail OutOfScript w' \<and>
      deliveries w' = deliveries w @ concat (map (visit_deliveries [q \<mapsto> cid] (\<lambda>_. mf)) vs))"
proof -
  let ?w1 = "answered (wait_call_of pf ts) ([] @ [report p]) w"
  have script: "os_script w = [] @ report p # a # b # c # d # e # k # concat (map visit_answers vs)"
    using assms(5) by simp
  have wait: "WaitSet_wait pf (lp_waitSet (ts_looper ts)) w = Done p ?w1"
    using WaitSet_wait_report [OF script] by (simp add: report_def)
  have script1: "os_script ?w1 = a # b # c # d # e # k # concat (map visit_answers vs)"
    using script by simp
  have cb: "sv_channelAvailabilityCallback sv = Some f"
    using assms(2) by (simp add: Server_channelAvailabilityCallback_def)
  have malloc: "\<forall>k. os_malloc ?w1 k" using assms(8) by simp
  obtain ch ts' w2 where conn: "Looper_dispatch u (library_handlers cl) p ts ?w1 = Done ts' w2"
    "channel_at q cid ch ts'" "sk_handle (ch_socket ch) = r_rc a" "socket_ready (ch_socket ch)"
    "\<not> lk_locked (sk_lock (ch_socket ch))" "ch_messageReceivedCallback ch = Some mf" "ch_connected ch"
    "q \<in> set (ws_sources (lp_waitSet (ts_looper ts')))"
    "interest (ws_handle (lp_waitSet (ts_looper ts))) (os_trace w2) (r_rc a, EVFILT_READ) = Some q"
    "lp_shouldTerminate (ts_looper ts') = lp_shouldTerminate (ts_looper ts)"
    "os_script w2 = concat (map visit_answers vs)" "os_malloc w2 = os_malloc ?w1" "deliveries w2 = deliveries ?w1"
    by (rule connection_adopted [OF assms(1) cb assms(3) script1 assms(6,7) malloc assms(9-12)])
  have "listening [q \<mapsto> cid] (\<lambda>_. mf) ts'"
    using conn(2,4-6) by (auto simp: listening_def)
  moreover obtain m where n: "n = Suc m" "length vs < m" using assms(16) by (cases n) auto
  ultimately obtain w' where "Looper_while pf u (library_handlers cl) m ts' w2 = Fail OutOfScript w'"
    "deliveries w' = deliveries w2 @ concat (map (visit_deliveries [q \<mapsto> cid] (\<lambda>_. mf)) vs)"
    using while_visits [of "[q \<mapsto> cid]" "\<lambda>_. mf" ts' cl vs w2 m pf u] assms(4,13,15) conn(10-12) malloc by auto
  moreover have "deliveries ?w1 = deliveries w" by (simp add: deliveries_def report_def)
  ultimately have "\<exists>w'. Looper_loop pf u (library_handlers cl) n ts w = Fail OutOfScript w' \<and>
      deliveries w' = deliveries w @ concat (map (visit_deliveries [q \<mapsto> cid] (\<lambda>_. mf)) vs)"
    using n(1) wait conn(1,13) assms(14,15) by (simp add: Looper_loop_def Looper_prepare_def)
  with conn show ?thesis by (auto simp: Socket_handle_def Channel_isConnected_def)
qed

text \<open>
  C39: Terminating a channel before unscheduling it harms another one, on both platforms. The
  termination closes the descriptor, with which its registration goes, but leaves the source in
  the set. When the kernel gives the number to a new channel and that is scheduled, the kernel has
  a registration for it; unscheduling the terminated channel then removes that registration. The
  new channel is still connected and its source a member, but the kernel no longer watches its
  descriptor, and scheduling it again does nothing about it.
\<close>

theorem Channel_unschedule_stale:
  assumes "ch_source a = p" "sk_handle (ch_socket a) = h" "h \<noteq> -1"
    "sr_objects (ts_sources ts) p = Some s" "plain_source s" "fst (so_handles s) = h"
    "p \<in> set (ws_sources (lp_waitSet (ts_looper ts)))" "q = ws_handle (lp_waitSet (ts_looper ts))"
    "WaitSet_wf (lp_waitSet (ts_looper ts))"
    "interest q (os_trace w) (h, EVFILT_READ) = Some p"
    "\<And>f cx w. cb_terminate cb f cx w = Done cx w"
    "ch_connected b" "ch_source b = 0" "sk_handle (ch_socket b) = h"
    "n = sr_next (ts_sources ts)" "n \<noteq> 0" "n \<notin> set (ws_sources (lp_waitSet (ts_looper ts)))"
    "os_script w = k # l # m # rest" "r_rc k = 0" "r_rc l = 0" "r_rc m = 0"
  shows "\<exists>a' w1 b' ts2 w2 ts3 w3.
    Channel_terminate cb (a, x) w = Done (a', x) w1 \<and> interest q (os_trace w1) (h, EVFILT_READ) = None \<and>
    Channel_scheduleInLooper pf u cid b (Some ts) w1 = Done (b', Some ts2) w2 \<and>
    p \<in> set (ws_sources (lp_waitSet (ts_looper ts2))) \<and> interest q (os_trace w2) (h, EVFILT_READ) = Some n \<and>
    Channel_unscheduleFromLooper pf u a' (Some ts2) w2 = Done (Some ts3) w3 \<and>
    p \<notin> set (ws_sources (lp_waitSet (ts_looper ts3))) \<and>
    ch_source b' = n \<and> Channel_isConnected b' \<and> n \<in> set (ws_sources (lp_waitSet (ts_looper ts3))) \<and>
    interest q (os_trace w3) (h, EVFILT_READ) = None \<and>
    (\<forall>v. Channel_scheduleInLooper pf u cid b' (Some ts3) v = Done (b', Some ts3) v)"
proof -
  have ok: "\<not> interrupted l" "\<not> interrupted m" using assms(20,21) by (simp_all add: interrupted_def)
  obtain a' w1 where 1: "Channel_terminate cb (a, x) w = Done (a', x) w1" "ch_source a' = p" "os_script w1 = l # m # rest"
    "interest q (os_trace w1) (h, EVFILT_READ) = None"
    using terminate_closes [OF assms(2,3,18,19,11), of x q] assms(1) by metis
  have np: "n \<noteq> p" using assms(7,17) by auto
  note sched = schedule_evaluated [OF assms(12,13) 1(3) ok(1) assms(15-17), of pf u cid]
  obtain ts2 where 2: "Channel_scheduleInLooper pf u cid b (Some ts) w1 =
      Done (b\<lparr>ch_source := n\<rparr>, Some ts2) (answered (control_call pf q True h n) [l] w1)"
    "ws_handle (lp_waitSet (ts_looper ts2)) = q"
    "ws_sources (lp_waitSet (ts_looper ts2)) = insort n (ws_sources (lp_waitSet (ts_looper ts)))"
    "sr_objects (ts_sources ts2) p = Some s"
    using sched np [symmetric] assms(4,8,14) by auto
  let ?w2 = "answered (control_call pf q True h n) [l] w1"
  have mem: "p \<in> set (ws_sources (lp_waitSet (ts_looper ts2)))" using 2(3) assms(7) by (simp add: set_insort_key)
  have "os_script ?w2 = m # rest" using 1(3) by simp
  from unschedule_evaluated [OF 1(2) mem 2(4) assms(5) this ok(2), of pf u]
  obtain ts3 where 3: "Channel_unscheduleFromLooper pf u a' (Some ts2) ?w2 =
      Done (Some ts3) (answered (control_call pf q False h p) [m] ?w2)"
    "ws_sources (lp_waitSet (ts_looper ts3)) = set_erase p (ws_sources (lp_waitSet (ts_looper ts2)))"
    using 2(2) assms(6) by auto
  let ?w3 = "answered (control_call pf q False h p) [m] ?w2"
  have set3: "p \<notin> set (ws_sources (lp_waitSet (ts_looper ts3)))" "n \<in> set (ws_sources (lp_waitSet (ts_looper ts3)))"
    using np 2(3) 3(2) assms(9,17)
    by (auto simp: set_erase_def set_insort_key WaitSet_wf_def distinct_insort)
  have "interest q (os_trace ?w2) (h, EVFILT_READ) = Some n" "interest q (os_trace ?w3) (h, EVFILT_READ) = None"
    using assms(20,21) by (simp_all add: interest_append control_call_interest)
  moreover have "Channel_scheduleInLooper pf u cid (b\<lparr>ch_source := n\<rparr>) (Some ts3) v = Done (b\<lparr>ch_source := n\<rparr>, Some ts3) v" for v
    using set3(2) assms(12,16)
    by (simp add: Channel_scheduleInLooper_def Channel_source_def Looper_addSource_def WaitSet_addSource_def set_contains_def)
  ultimately show ?thesis
    using 1 2(1) 3(1) mem set3 assms(12)
    by (intro exI [of _ a'] exI [of _ w1] exI [of _ "b\<lparr>ch_source := n\<rparr>"] exI [of _ ts2] exI [of _ ?w2] exI [of _ ts3]
        exI [of _ ?w3]) (simp add: Channel_isConnected_def)
qed

section \<open>Examples of the properties\<close>

text \<open>
  A client that listens and adopts connections, and its thread: the channels 2 and 3 at the
  sources 5 and 6, and the server 2 at 7.
\<close>

definition session_client :: client where
  "session_client =
     \<lparr>cl_callbacks = \<lparr>cb_message = (\<lambda>_ _ cx. returnM cx), cb_terminate = (\<lambda>_ cx. returnM cx)\<rparr>,
      cl_availability = adopting Linux no_user_code 9 1,
      cl_reader = (\<lambda>_ _ ts. returnM ts), cl_wake = (\<lambda>_ ts. returnM ts)\<rparr>"

definition session_server :: server where
  "session_server = (Server_idle [])\<lparr>sv_socketHandle := 10, sv_channelAvailabilityCallback := Some 3\<rparr>"

definition session_thread :: thread where
  "session_thread =
     \<lparr>ts_looper = \<lparr>lp_waitSet = \<lparr>ws_handle = 3, ws_sources = [4, 5, 6, 7]\<rparr>, lp_trivialSource = 4,
                   lp_shouldTerminate = False\<rparr>,
      ts_sources = \<lparr>sr_next = 8, sr_objects =
        [4 \<mapsto> LooperSource_AsTrivial\<lparr>so_handles := (10, 11), so_handlesAllocated := True\<rparr>,
         5 \<mapsto> (source_on 15)\<lparr>so_readHandler := Some (ChannelReader 2)\<rparr>,
         6 \<mapsto> (source_on 16)\<lparr>so_readHandler := Some (ChannelReader 3)\<rparr>,
         7 \<mapsto> (source_on 10)\<lparr>so_readHandler := Some (ServerReader 2)\<rparr>]\<rparr>,
      ts_client = \<lparr>ob_channels = [2 \<mapsto> open_channel 15, 3 \<mapsto> open_channel 16],
                   ob_servers = [2 \<mapsto> session_server]\<rparr>\<rparr>"

lemma session_simps [simp]:
  "unobtrusive session_client" "\<not> lp_shouldTerminate (ts_looper session_thread)"
  "lp_trivialSource (ts_looper session_thread) \<noteq> 0"
  "listening [5 \<mapsto> 2, 6 \<mapsto> 3] (\<lambda>_. Suc 0) session_thread"
  "server_at 7 2 session_server session_thread"
  by (auto simp: unobtrusive_def session_client_def session_thread_def listening_def channel_at_def
      server_at_def plain_source_def source_on_def LooperSource_ctor_def session_server_def)

definition visit_with :: "nat \<Rightarrow> byte list list \<Rightarrow> visit" where
  "visit_with p bs = \<lparr>vi_interrupts = [], vi_source = p, vi_batch = map (\<lambda>b. ([], packet b [])) bs,
     vi_end_interrupts = [reply (-1) EINTR], vi_end = reply (-1) EAGAIN\<rparr>"

lemma visit_with_ok: "\<forall>b \<in> set bs. b \<noteq> [] \<and> length b \<le> MaxBufferSize \<Longrightarrow> visit_ok (visit_with p bs)"
  by (auto simp: visit_ok_def visit_with_def good_rounds_def good_packet_def packet_def interrupted_def read_end_def)

theorem Program_multiplex_witness:
  "\<exists>w'. Looper_loop Linux no_user_code (library_handlers session_client) 4 session_thread
      (start_os False (concat (map visit_answers [visit_with 5 [[1]], visit_with 6 [[2], [3]], visit_with 5 [[4]]]))) =
      Fail OutOfScript w' \<and>
    deliveries w' = map (\<lambda>b. delivery 1 (packet_message (packet [b] []))) [1, 2, 3, 4]"
proof -
  let ?vs = "[visit_with 5 [[1]], visit_with 6 [[2], [3]], visit_with 5 [[4]]]"
  have "\<exists>w'. Looper_loop Linux no_user_code (library_handlers session_client) 4 session_thread
      (start_os False (concat (map visit_answers ?vs))) = Fail OutOfScript w' \<and>
    deliveries w' = deliveries (start_os False (concat (map visit_answers ?vs))) @
      concat (map (visit_deliveries [5 \<mapsto> 2, 6 \<mapsto> 3] (\<lambda>_. 1)) ?vs)"
    by (rule Program_multiplex) (simp_all add: visit_with_ok MaxBufferSize_def, simp_all add: visit_with_def)
  then show ?thesis
    by (simp add: visit_deliveries_def visit_with_def deliveries_def)
qed

theorem Program_connection_served_witness:
  "\<exists>w'. Looper_loop Linux no_user_code (library_handlers session_client) 3 session_thread
      (start_os False (report 7 # reply 21 ENONE # replicate 5 granted @ visit_answers (visit_with 8 [[1], [2]]))) =
      Fail OutOfScript w' \<and>
    deliveries w' = map (\<lambda>b. delivery 1 (packet_message (packet [b] []))) [1, 2]"
proof -
  let ?w = "start_os False (report 7 # reply 21 ENONE # replicate 5 granted @ visit_answers (visit_with 8 [[1], [2]]))"
  have script: "os_script ?w = report 7 # reply 21 ENONE # granted # granted # granted # granted # granted #
      concat (map visit_answers [visit_with 8 [[1], [2]]])"
    by (simp add: numeral_eq_Suc)
  have "\<exists>w'. Looper_loop Linux no_user_code (library_handlers session_client) 3 session_thread ?w =
      Fail OutOfScript w' \<and>
    deliveries w' = deliveries ?w @ concat (map (visit_deliveries [8 \<mapsto> 9] (\<lambda>_. 1)) [visit_with 8 [[1], [2]]])"
    by (rule Program_connection_served [where sid = 2 and sv = session_server and f = 3,
          THEN conjunct2, OF _ _ _ _ script])
      (simp_all add: visit_with_ok MaxBufferSize_def granted_def,
       simp_all add: visit_with_def session_client_def session_thread_def session_server_def
         Server_channelAvailabilityCallback_def)
  then show ?thesis
    by (simp add: visit_deliveries_def visit_with_def deliveries_def)
qed

theorem Channel_unschedule_stale_witness:
  "\<exists>a' w1 b' ts2 w2 ts3 w3.
    Channel_terminate quiet_callbacks ((open_channel 15)\<lparr>ch_source := 5\<rparr>, ())
      ((start_os False [granted, granted, granted])\<lparr>os_trace := [Sys (EpollCtl 3 EPOLL_CTL_ADD 15 5) granted]\<rparr>) =
      Done (a', ()) w1 \<and>
    Channel_scheduleInLooper Linux no_user_code 9 (Channel_of_socket (open_socket 15)) (Some session_thread) w1 =
      Done (b', Some ts2) w2 \<and> interest 3 (os_trace w2) (15, EVFILT_READ) = Some 8 \<and>
    Channel_unscheduleFromLooper Linux no_user_code a' (Some ts2) w2 = Done (Some ts3) w3 \<and>
    ch_source b' = 8 \<and> Channel_isConnected b' \<and> 8 \<in> set (ws_sources (lp_waitSet (ts_looper ts3))) \<and>
    interest 3 (os_trace w3) (15, EVFILT_READ) = None"
proof -
  let ?a = "(open_channel 15)\<lparr>ch_source := 5\<rparr>" and ?b = "Channel_of_socket (open_socket 15)"
  let ?w = "(start_os False [granted, granted, granted])\<lparr>os_trace := [Sys (EpollCtl 3 EPOLL_CTL_ADD 15 5) granted]\<rparr>"
  have "interest 3 (os_trace ?w) (15, EVFILT_READ) = Some 5" by (simp add: interest_def granted_def)
  from Channel_unschedule_stale [of ?a 5 15 session_thread "(source_on 15)\<lparr>so_readHandler := Some (ChannelReader 2)\<rparr>" 3
      ?w quiet_callbacks ?b 8 granted granted granted "[]" "()" Linux no_user_code 9, OF _ _ _ _ _ _ _ _ _ this]
  show ?thesis
    by (fastforce simp: session_thread_def source_on_def LooperSource_ctor_def plain_source_def WaitSet_wf_def
        Channel_of_socket_def granted_def)
qed

end
