(* ===== verification/CL_Platforms.thy ===== *)
theory CL_Platforms
  imports CL_Session
begin

text \<open>
  The two back ends of the library compared: \<^verbatim>\<open>Source/Linux\<close> on epoll and \<^verbatim>\<open>Source/Apple\<close> on
  kqueue. Given the same answers, a run on one is a run on the other, call by call, with each
  call of epoll in the place of the corresponding call of kqueue.
\<close>

section \<open>Corresponding calls and worlds\<close>

fun on_apple :: "syscall \<Rightarrow> syscall" where
  "on_apple EpollCreate = Kqueue"
| "on_apple (EpollCtl q EPOLL_CTL_ADD h p) = KeventChange q h EVFILT_READ EV_ADD False 0 p"
| "on_apple (EpollCtl q EPOLL_CTL_DEL h p) = KeventChange q h EVFILT_READ EV_DELETE False 0 p"
| "on_apple (EpollWait q) = KeventWait q"
| "on_apple c = c"

fun apple_event :: "event \<Rightarrow> event" where
  "apple_event (Sys c r) = Sys (on_apple c) r"
| "apple_event e = e"

definition apple_view :: "os \<Rightarrow> os" where
  "apple_view w = w\<lparr>os_trace := map apple_event (os_trace w)\<rparr>"

fun apple_outcome :: "'a outcome \<Rightarrow> 'a outcome" where
  "apple_outcome (Done a w) = Done a (apple_view w)"
| "apple_outcome (Fail e w) = Fail e (apple_view w)"

lemma apple_view_simps [simp]:
  "os_script (apple_view w) = os_script w" "os_errno (apple_view w) = os_errno w"
  "os_ndebug (apple_view w) = os_ndebug w" "os_malloc (apple_view w) = os_malloc w"
  "os_mallocs (apple_view w) = os_mallocs w" "os_trace (apple_view w) = map apple_event (os_trace w)"
  by (simp_all add: apple_view_def)

text \<open>
  \<open>alike m n\<close>: \<open>n\<close> does on Apple what \<open>m\<close> does on Linux. The trace records what was done, so no
  operation reads it, and every operation without a call of epoll is like itself.
\<close>

definition alike :: "(os \<Rightarrow> 'a outcome) \<Rightarrow> (os \<Rightarrow> 'a outcome) \<Rightarrow> bool" where
  "alike m n \<longleftrightarrow> (\<forall>w. n (apple_view w) = apple_outcome (m w))"

named_theorems alike_intros "corresponding operations of the two platforms"

lemma alikeD: "alike m n \<Longrightarrow> n (apple_view w) = apple_outcome (m w)"
  by (simp add: alike_def)

lemma alike_bind_out:
  assumes "m' = apple_outcome m" "\<And>a w. m = Done a w \<Longrightarrow> g a (apple_view w) = apple_outcome (f a w)"
  shows "bind_out m' g = apple_outcome (bind_out m f)"
  using assms by (cases m) simp_all

lemma alike_bindM [alike_intros]:
  "alike m n \<Longrightarrow> (\<And>a. alike (f a) (g a)) \<Longrightarrow> alike (bindM m f) (bindM n g)"
  unfolding alike_def bindM_apply by (blast intro: alike_bind_out)

lemma alike_seqM [alike_intros]: "alike m n \<Longrightarrow> alike m' n' \<Longrightarrow> alike (seqM m m') (seqM n n')"
  unfolding seqM_def by (rule alike_bindM)

lemma alike_basic [alike_intros]:
  "alike (returnM a) (returnM a)" "alike (failM e) (failM e)" "alike (liftE r) (liftE r)"
  "alike (CL_ASSERT b) (CL_ASSERT b)" "alike malloc malloc"
  by (auto simp: alike_def CL_ASSERT_def malloc_def liftE_def apple_view_def split: sum.splits)

lemma alike_emit [alike_intros]: "apple_event e = e \<Longrightarrow> alike (emit e) (emit e)"
  by (simp add: alike_def emit_def apple_view_def)

lemma alike_log [alike_intros]: "alike CL_LOG_ERRNO CL_LOG_ERRNO"
  by (simp add: alike_def CL_LOG_ERRNO_def emit_def apple_view_def)

lemma alike_sys [alike_intros]: "on_apple c = d \<Longrightarrow> alike (sys c) (sys d)"
  by (auto simp: alike_def sys_def apple_view_def split: list.split)

lemma alike_if [alike_intros]:
  "(b \<Longrightarrow> alike m n) \<Longrightarrow> (\<not> b \<Longrightarrow> alike m' n') \<Longrightarrow> alike (if b then m else m') (if b then n else n')"
  by simp

lemma alike_prod [alike_intros]:
  "(\<And>x y. alike (f x y) (g x y)) \<Longrightarrow> alike (case p of (x, y) \<Rightarrow> f x y) (case p of (x, y) \<Rightarrow> g x y)"
  by (cases p) simp

lemma alike_prod_app [alike_intros]:
  "(\<And>x y. alike (f x y z) (g x y z)) \<Longrightarrow>
     alike ((case p of (x, y) \<Rightarrow> f x y) z) ((case p of (x, y) \<Rightarrow> g x y) z)"
  by (cases p) simp

lemma alike_option [alike_intros]:
  "alike m n \<Longrightarrow> (\<And>x. alike (f x) (g x)) \<Longrightarrow>
     alike (case p of None \<Rightarrow> m | Some x \<Rightarrow> f x) (case p of None \<Rightarrow> n | Some x \<Rightarrow> g x)"
  by (cases p) simp_all

lemma alike_check [alike_intros]:
  "on_apple c = c \<Longrightarrow> alike (CL_CHECK c) (CL_CHECK c)"
  unfolding CL_CHECK_def CL_CHECK_EXPECT_def by (intro alike_intros)

lemma alike_retry [alike_intros]:
  assumes "on_apple c = d"
  shows "alike (CL_TEMP_FAILURE_RETRY c) (CL_TEMP_FAILURE_RETRY d)"
proof -
  have "CL_TEMP_FAILURE_RETRY d (apple_view w) = apple_outcome (CL_TEMP_FAILURE_RETRY c w)" for w
    using assms
  proof (induction c w rule: CL_TEMP_FAILURE_RETRY.induct)
    case (1 c w)
    show ?case
      unfolding CL_TEMP_FAILURE_RETRY.simps [of c w] CL_TEMP_FAILURE_RETRY.simps [of d "apple_view w"]
      by (rule alike_bind_out [OF alikeD [OF alike_sys [OF "1.prems"]]]) (use 1 in auto)
  qed
  then show ?thesis by (simp add: alike_def)
qed

section \<open>Sockets and channels\<close>

lemma alike_read_descriptors [alike_intros]: "alike (read_descriptors cs m) (read_descriptors cs m)"
proof (induction cs arbitrary: m)
  case (Cons c cs)
  have "alike (\<lambda>w. liftE (Message_addAttachment (\<not> os_ndebug w) a m) w)
      (\<lambda>w. liftE (Message_addAttachment (\<not> os_ndebug w) a m) w)" for a
    by (simp add: alike_def liftE_def split: sum.split)
  with Cons show ?case
    unfolding read_descriptors.simps Let_def by (intro alike_intros)
qed (simp add: alike_intros)

lemma alike_read_message [alike_intros]: "alike (read_message s r n) (read_message s r n)"
  unfolding read_message_def by (intro alike_intros)

lemma alike_read_loop [alike_intros]: "alike (read_loop ms s) (read_loop ms s)"
proof -
  have "read_loop ms s (apple_view w) = apple_outcome (read_loop ms s w)" for w
  proof (induction ms s w rule: read_loop.induct)
    case (1 ms s w)
    have call: "CL_TEMP_FAILURE_RETRY (recv_call s) (apple_view w) =
        apple_outcome (CL_TEMP_FAILURE_RETRY (recv_call s) w)"
      by (rule alikeD [OF alike_retry]) (simp add: recv_call_def)
    show ?case
      unfolding read_loop.simps [of ms s w] read_loop.simps [of ms s "apple_view w"] Let_def
      by (rule alike_bind_out [OF call])
        (use 1 in \<open>auto intro!: alike_bind_out alikeD [OF alike_read_message]\<close>)
  qed
  then show ?thesis by (simp add: alike_def)
qed

lemma alike_send_loop [alike_intros]: "alike (send_loop h b c) (send_loop h b c)"
proof -
  have "send_loop h b c (apple_view w) = apple_outcome (send_loop h b c w)" for w
  proof (induction h b c w rule: send_loop.induct)
    case (1 h b c w)
    have call: "CL_TEMP_FAILURE_RETRY d (apple_view v) = apple_outcome (CL_TEMP_FAILURE_RETRY d v)"
      if "on_apple d = d" for d v
      by (rule alikeD [OF alike_retry [OF that]])
    show ?case
      unfolding send_loop.simps [of h b c w] send_loop.simps [of h b c "apple_view w"] Let_def
      by (rule alike_bind_out [OF call])
        (use 1 in \<open>auto intro!: alike_bind_out call alikeD [OF alike_basic(4)]\<close>)
  qed
  then show ?thesis by (simp add: alike_def)
qed

lemma alike_with_AutoLock [alike_intros]:
  assumes "\<And>s. alike (body s) (body s)"
  shows "alike (with_AutoLock get put body s) (with_AutoLock get put body s)"
  unfolding alike_def
proof
  fix w
  show "with_AutoLock get put body s (apple_view w) = apple_outcome (with_AutoLock get put body s w)"
    by (cases "Lock_lock (get s)")
      (auto simp: with_AutoLock_def intro!: alike_bind_out alikeD [OF assms])
qed

lemma alike_write_body [alike_intros]: "alike (write_body m s) (write_body m s)"
proof -
  have "alike (\<lambda>w. if b then Done (if os_errno w = EPIPE then x else y, s) w else Done (z, s) w)
     (\<lambda>w. if b then Done (if os_errno w = EPIPE then x else y, s) w else Done (z, s) w)"
    for b and x y z :: status
    by (simp add: alike_def)
  then show ?thesis unfolding write_body_def by (intro alike_intros)
qed

lemma alike_sockets [alike_intros]:
  "alike (Socket_ctor h) (Socket_ctor h)" "alike (Socket_close s) (Socket_close s)"
  "alike (Socket_ReadMessages s) (Socket_ReadMessages s)" "alike (Socket_WriteMessage m s) (Socket_WriteMessage m s)"
  "alike (Channel_of_handle h) (Channel_of_handle h)"
  unfolding Socket_ctor_def Socket_close_def Socket_ReadMessages_def Socket_WriteMessage_def
    Channel_of_handle_def Socket_Create_def
  by (intro alike_intros; simp)+

text \<open>Clients whose code does the same on both platforms, given what the library does there.\<close>

definition callbacks_alike :: "'x callbacks \<Rightarrow> 'x callbacks \<Rightarrow> bool" where
  "callbacks_alike cb cb' \<longleftrightarrow>
     (\<forall>f m cx. alike (cb_message cb f m cx) (cb_message cb' f m cx)) \<and>
     (\<forall>f cx. alike (cb_terminate cb f cx) (cb_terminate cb' f cx))"

definition clients_alike :: "client \<Rightarrow> client \<Rightarrow> bool" where
  "clients_alike cl cl' \<longleftrightarrow> callbacks_alike (cl_callbacks cl) (cl_callbacks cl') \<and>
     (\<forall>f c sx. alike (cl_availability cl f c sx) (cl_availability cl' f c sx)) \<and>
     (\<forall>n h ts. alike (cl_reader cl n h ts) (cl_reader cl' n h ts)) \<and>
     (\<forall>f ts. alike (cl_wake cl f ts) (cl_wake cl' f ts))"

definition closures_alike :: "user_code \<Rightarrow> user_code \<Rightarrow> bool" where
  "closures_alike u u' \<longleftrightarrow>
     (\<forall>n. alike (uc_allocator u n) (uc_allocator u' n)) \<and>
     (\<forall>n h. alike (uc_deallocator u n h) (uc_deallocator u' n h)) \<and>
     (\<forall>n h. alike (uc_writer u n h) (uc_writer u' n h)) \<and>
     (\<forall>n p q h b. alike (uc_updater u n p q h b) (uc_updater u' n p q h b))"

lemma alike_dispatch_messages [alike_intros]:
  assumes "callbacks_alike cb cb'"
  shows "alike (dispatch_messages cb ms cx) (dispatch_messages cb' ms cx)"
proof (induction ms arbitrary: cx)
  case (Cons m ms)
  have "alike (cb_message cb f m cx) (cb_message cb' f m cx)" for f
    using assms unfolding callbacks_alike_def by blast
  with Cons show ?case
    unfolding dispatch_messages.simps by (intro alike_intros) simp
qed (simp add: alike_intros)

lemma alike_terminate [alike_intros]:
  assumes "callbacks_alike cb cb'"
  shows "alike (Channel_terminate cb cx) (Channel_terminate cb' cx)"
proof -
  have "alike (cb_terminate cb f cx) (cb_terminate cb' f cx)" for f cx
    using assms unfolding callbacks_alike_def by blast
  then show ?thesis
    unfolding Channel_terminate_def Let_def by (intro alike_intros) simp
qed

lemma alike_channels [alike_intros]:
  assumes "callbacks_alike cb cb'"
  shows "alike (Channel_readMessageOnHandle cb h cx) (Channel_readMessageOnHandle cb' h cx)"
    "alike (Channel_sendMessage cb m cx) (Channel_sendMessage cb' m cx)"
  unfolding Channel_readMessageOnHandle_def Channel_sendMessage_def Let_def
  by (intro alike_intros assms)+

lemma alike_accept [alike_intros]:
  assumes "\<And>f c sx. alike (av f c sx) (av' f c sx)"
  shows "alike (Server_onConnectionAvailableForAccept av h sx) (Server_onConnectionAvailableForAccept av' h sx)"
  unfolding Server_onConnectionAvailableForAccept_def Let_def by (intro alike_intros assms; simp)

section \<open>Sources, wait sets and loopers\<close>

lemma alike_closures [alike_intros]:
  assumes "closures_alike u u'"
  shows "alike (run_allocator u a) (run_allocator u' a)" "alike (run_deallocator u d h) (run_deallocator u' d h)"
    "alike (run_writer u wr k) (run_writer u' wr k)" "alike (run_updater u f p q k b) (run_updater u' f p q k b)"
proof -
  show "alike (run_allocator u a) (run_allocator u' a)"
    using assms by (cases a) (auto simp: closures_alike_def pipe_allocate_def timer_allocate_def Let_def
        intro!: alike_intros)
  show "alike (run_deallocator u d h) (run_deallocator u' d h)"
  proof (cases d)
    case (UserDeallocator n)
    with assms show ?thesis unfolding closures_alike_def by (cases h) simp
  qed (auto simp: pipe_deallocate_def timer_deallocate_def intro!: alike_intros)
  show "alike (run_writer u wr k) (run_writer u' wr k)"
    using assms by (cases wr) (auto simp: closures_alike_def wake_write_def intro!: alike_intros)
  show "alike (run_updater u f p q k b) (run_updater u' f p q k b)"
    using assms by (cases f) (auto simp: closures_alike_def kevent_timer_update_def
        LooperSource_UpdateKeventSource_def intro!: alike_intros)
qed

lemma alike_deref [alike_intros]: "alike (deref st p) (deref st p)"
  unfolding deref_def by (intro alike_intros)

lemma alike_sources [alike_intros]:
  assumes "closures_alike u u'"
  shows "alike (LooperSource_readHandle u s) (LooperSource_readHandle u' s)"
    "alike (LooperSource_writeHandle u s) (LooperSource_writeHandle u' s)"
    "alike (LooperSource_dtor u s) (LooperSource_dtor u' s)"
  unfolding LooperSource_readHandle_def LooperSource_writeHandle_def LooperSource_handles_def
    LooperSource_dtor_def
  by (intro alike_intros assms)+

text \<open>The one place where the back ends differ in more than a name: a registration.\<close>

lemma alike_update [alike_intros]:
  assumes "closures_alike u u'"
  shows "alike (updateInWaitSetHandle Linux u p q b s) (updateInWaitSetHandle Apple u' p q b s)"
  unfolding updateInWaitSetHandle_def platform.case updateInWaitSetHandle_Linux_def updateInWaitSetHandle_Apple_def
    LooperSource_UpdateEpollSource_def LooperSource_UpdateKeventSource_def
  by (intro alike_intros assms; simp)

lemma alike_WaitSet [alike_intros]:
  assumes "closures_alike u u'"
  shows "alike (WaitSet_addSource Linux u p ws st) (WaitSet_addSource Apple u' p ws st)"
    "alike (WaitSet_removeSource Linux u p ws st) (WaitSet_removeSource Apple u' p ws st)"
  unfolding WaitSet_addSource_def WaitSet_removeSource_def update_source_def by (intro alike_intros assms)+

lemma alike_queue [alike_intros]:
  "alike (WaitSet_wait Linux ws) (WaitSet_wait Apple ws)" "alike (WaitSet_ctor Linux) (WaitSet_ctor Apple)"
  "alike (Looper_ctor Linux) (Looper_ctor Apple)"
  unfolding WaitSet_wait_def platformHandleWait_def platformHandleWait_Linux_def platformHandleWait_Apple_def
    Looper_ctor_def WaitSet_ctor_def platformHandleCreate_def platformHandleCreate_Linux_def
    platformHandleCreate_Apple_def platform.case
  by (intro alike_intros; simp)+

lemma alike_deregister [alike_intros]:
  assumes "closures_alike u u'"
  shows "alike (deregister_all Linux u q ps st) (deregister_all Apple u' q ps st)"
  by (induction ps arbitrary: st) (auto simp: update_source_def intro!: alike_intros assms)

lemma alike_WaitSet_dtor [alike_intros]:
  assumes "closures_alike u u'"
  shows "alike (WaitSet_dtor Linux u ws st) (WaitSet_dtor Apple u' ws st)"
  unfolding WaitSet_dtor_def platformHandleDestory_def platformHandleDestory_Linux_def
    platformHandleDestory_Apple_def platform.case
  by (intro alike_intros assms; simp)

lemma alike_Looper [alike_intros]:
  assumes "closures_alike u u'"
  shows "alike (Looper_addSource Linux u p ts) (Looper_addSource Apple u' p ts)"
    "alike (Looper_removeSource Linux u p ts) (Looper_removeSource Apple u' p ts)"
    "alike (Looper_terminate u ts) (Looper_terminate u' ts)"
    "alike (Looper_dtor Linux u ts) (Looper_dtor Apple u' ts)"
  unfolding Looper_addSource_def Looper_removeSource_def Looper_terminate_def Looper_wake_def Looper_dtor_def
  by (intro alike_intros assms)+

lemma alike_prepare [alike_intros]:
  assumes "closures_alike u u'"
  shows "alike (Looper_prepare Linux u ts) (Looper_prepare Apple u' ts)"
  unfolding Looper_prepare_def Let_def by (intro alike_intros assms)

lemma alike_schedule [alike_intros]:
  assumes "closures_alike u u'"
  shows "alike (Channel_scheduleInLooper Linux u cid c l) (Channel_scheduleInLooper Apple u' cid c l)"
    "alike (Channel_unscheduleFromLooper Linux u c l) (Channel_unscheduleFromLooper Apple u' c l)"
  unfolding Channel_scheduleInLooper_def Channel_unscheduleFromLooper_def Channel_source_def Let_def
  by (intro alike_intros assms)+

lemma alike_dispatch [alike_intros]:
  assumes "clients_alike cl cl'" "closures_alike u u'"
  shows "alike (Looper_dispatch u (library_handlers cl) p ts) (Looper_dispatch u' (library_handlers cl') p ts)"
proof -
  have cb: "callbacks_alike (cl_callbacks cl) (cl_callbacks cl')"
    using assms(1) by (simp add: clients_alike_def)
  have "alike (run_reader (library_handlers cl) r h ts) (run_reader (library_handlers cl') r h ts)" for r h ts
    using assms(1) cb
    by (cases r) (auto simp: library_handlers_def clients_alike_def wake_read_def timer_read_def intro!: alike_intros)
  moreover have "alike (onAwoken (library_handlers cl) p ts) (onAwoken (library_handlers cl') p ts)" for ts
    using assms(1) unfolding onAwoken_def
    by (auto simp: library_handlers_def clients_alike_def intro!: alike_intros)
  ultimately show ?thesis
    unfolding Looper_dispatch_def by (intro alike_intros assms(2))
qed

lemma alike_while [alike_intros]:
  assumes "clients_alike cl cl'" "closures_alike u u'"
  shows "alike (Looper_while Linux u (library_handlers cl) n ts) (Looper_while Apple u' (library_handlers cl') n ts)"
proof (induction n arbitrary: ts)
  case (Suc n)
  then show ?case
    unfolding Looper_while.simps by (intro alike_intros assms)
qed (unfold Looper_while.simps, intro alike_intros)

text \<open>The registrations that the kernel holds are the same after corresponding calls.\<close>

lemma interest_apple [simp]: "interest q (map apple_event es) = interest q es"
proof -
  have "interest_event q m (apple_event e) = interest_event q m e" for m e
    by (cases "(q, m, e)" rule: interest_event.cases) simp_all
  then show ?thesis
    by (induction es rule: rev_induct) (simp_all add: interest_def)
qed

section \<open>Properties\<close>

text \<open>
  C7: The platforms agree. Given the same answers of the kernel, a looper is made, runs its loop
  with channels and servers, is stopped and is destroyed on Apple exactly as on Linux: with the
  same results or failures and the same calls in the same order, those of epoll replaced by
  those of kqueue, so that the two queues hold the same registrations.
\<close>

theorem Program_platforms_agree:
  assumes "clients_alike cl cl'" "closures_alike u u'"
  shows "Looper_ctor Apple (apple_view w) = apple_outcome (Looper_ctor Linux w) \<and>
    Looper_loop Apple u' (library_handlers cl') n ts (apple_view w) =
      apple_outcome (Looper_loop Linux u (library_handlers cl) n ts w) \<and>
    Looper_terminate u' ts (apple_view w) = apple_outcome (Looper_terminate u ts w) \<and>
    Looper_dtor Apple u' ts (apple_view w) = apple_outcome (Looper_dtor Linux u ts w) \<and>
    interest q (os_trace (apple_view w)) = interest q (os_trace w)"
proof -
  have "alike (Looper_loop Linux u (library_handlers cl) n ts) (Looper_loop Apple u' (library_handlers cl') n ts)"
    unfolding Looper_loop_def by (intro alike_intros assms)
  then show ?thesis
    by (intro conjI alikeD alike_Looper alike_queue assms) simp_all
qed

section \<open>Examples of the properties\<close>

text \<open>The client that adopts connections, and its counterpart on Apple.\<close>

definition session_client_on :: "platform \<Rightarrow> client" where
  "session_client_on pf = session_client\<lparr>cl_availability := adopting pf no_user_code 9 1\<rparr>"

lemma session_clients_alike:
  "clients_alike (session_client_on Linux) (session_client_on Apple)" "closures_alike no_user_code no_user_code"
proof -
  show c: "closures_alike no_user_code no_user_code"
    by (simp add: closures_alike_def no_user_code_def alike_intros)
  have "alike (adopting Linux no_user_code 9 1 f ch sx) (adopting Apple no_user_code 9 1 f ch sx)" for f ch sx
    unfolding adopting_def Let_def by (intro alike_intros c)
  then show "clients_alike (session_client_on Linux) (session_client_on Apple)"
    by (simp add: clients_alike_def callbacks_alike_def session_client_on_def session_client_def alike_intros)
qed

definition connection_os :: os where
  "connection_os = start_os False (report 7 # reply 21 ENONE # replicate 5 (reply 0 ENONE))"

lemma connection_run:
  "\<exists>w'. Looper_loop Linux no_user_code (library_handlers (session_client_on Linux)) 2 session_thread
      connection_os = Fail OutOfScript w' \<and> interest 3 (os_trace w') (21, EVFILT_READ) = Some 8"
proof -
  let ?cl = "session_client_on Linux" and ?ts = session_thread
  let ?r = "reply 0 ENONE"
  let ?w1 = "answered (wait_call_of Linux ?ts) ([] @ [report 7]) connection_os"
  have script: "os_script connection_os = [] @ report 7 # [reply 21 ENONE, ?r, ?r, ?r, ?r, ?r]"
    by (simp add: connection_os_def numeral_eq_Suc)
  have wait: "WaitSet_wait Linux (lp_waitSet (ts_looper ?ts)) connection_os = Done 7 ?w1"
    using WaitSet_wait_report [OF script] by (simp add: report_def)
  have script1: "os_script ?w1 = reply 21 ENONE # ?r # ?r # ?r # ?r # ?r # []"
    using script by simp
  obtain ch ts' w' where served: "Looper_dispatch no_user_code (library_handlers ?cl) 7 ?ts ?w1 = Done ts' w'"
    "interest (ws_handle (lp_waitSet (ts_looper ?ts))) (os_trace w') (r_rc (reply 21 ENONE), EVFILT_READ) = Some 8"
    "lp_shouldTerminate (ts_looper ts') = lp_shouldTerminate (ts_looper ?ts)" "os_script w' = []"
    by (rule connection_adopted [of 7 2 session_server ?ts 3 ?cl Linux no_user_code 9 1, OF _ _ _ script1, where q = 8])
      (simp_all add: session_client_on_def session_client_def connection_os_def,
       simp_all add: session_thread_def session_server_def)
  have stop: "WaitSet_wait Linux ws w' = Fail OutOfScript w'" for ws
    using served(4)
    by (simp add: WaitSet_wait_def epoll.wait_call retry_only_interrupted answered_def)
  have "ws_handle (lp_waitSet (ts_looper ?ts)) = 3" by (simp add: session_thread_def)
  with wait served stop show ?thesis
    by (simp add: Looper_loop_def Looper_prepare_def numeral_2_eq_2)
qed

theorem Program_platforms_agree_witness:
  "\<exists>w'. Looper_loop Linux no_user_code (library_handlers (session_client_on Linux)) 2 session_thread
      connection_os = Fail OutOfScript w' \<and>
    Looper_loop Apple no_user_code (library_handlers (session_client_on Apple)) 2 session_thread
      connection_os = Fail OutOfScript (apple_view w') \<and>
    interest 3 (os_trace w') (21, EVFILT_READ) = Some 8 \<and>
    interest 3 (os_trace (apple_view w')) (21, EVFILT_READ) = Some 8"
proof -
  have "apple_view connection_os = connection_os"
    by (simp add: apple_view_def connection_os_def start_os_def)
  with connection_run Program_platforms_agree [OF session_clients_alike, of connection_os 2 session_thread]
  show ?thesis by fastforce
qed

end
