(* ===== verification/CL_Threads.thy ===== *)
theory CL_Threads
  imports CL_Socket
begin

text \<open>
  Several threads on one socket. \<^verbatim>\<open>Socket::ReadMessages\<close> and \<^verbatim>\<open>Socket::WriteMessage\<close> take the
  lock of the socket for their whole body, \<^verbatim>\<open>Socket::close\<close> does not. Here a call is taken apart
  into its system calls (small steps), threads interleave theirs in any order, and the
  interleavings are related to the calls of \<open>CL_Socket\<close>, which run without interruption.
\<close>

section \<open>A call, one system call at a time\<close>

datatype call = ReadCall | WriteCall message

datatype call_result = ReadResult status "message list" | WriteResult status

text \<open>
  Where a call is: about to start, in the reading loop with the messages so far, about to send,
  waiting in \<^verbatim>\<open>poll\<close> on the descriptor that was loaded into the \<^verbatim>\<open>pollfd\<close>, or done.
\<close>

datatype call_state =
    Start call
  | Receiving "message list"
  | Sending message
  | Polling message handle
  | Finished call_result

definition sendmsg_call :: "message \<Rightarrow> socket \<Rightarrow> syscall" where
  "sendmsg_call m s = Sendmsg (sk_handle s) (Message_data m) (attachment_control (m_attachments m))"

text \<open>\<^verbatim>\<open>errno\<close> belongs to the thread, so it is read in the step of the call that set it.\<close>

fun call_step :: "call_state \<Rightarrow> socket \<Rightarrow> os \<Rightarrow> (call_state \<times> socket) outcome" where
  "call_step (Start ReadCall) s = returnM (Receiving [], s)"
| "call_step (Start (WriteCall m)) s =
     returnM (if of_nat MaxBufferSize < Message_size m then Finished (WriteResult TemporaryFailure)
              else Sending m, s)"
| "call_step (Receiving ms) s =
     bindM (sys (recv_call s)) (\<lambda>r w.
       if r_rc r = -1 \<and> os_errno w = EINTR then Done (Receiving ms, s) w
       else
         (let s' = receive_into r s; received = to_int (r_rc r) in
          if received > 0 then
            bind_out (read_message s' r (nat received) w) (\<lambda>m. returnM (Receiving (ms @ [m]), s'))
          else if received = -1 then
            Done (Finished (ReadResult
              (if os_errno w = EAGAIN \<or> os_errno w = EWOULDBLOCK then Success else TemporaryFailure) ms), s') w
          else if received = 0 then Done (Finished (ReadResult PermanentFailure ms), s') w
          else Done (Receiving ms, s') w))"
| "call_step (Sending m) s =
     bindM (sys (sendmsg_call m s)) (\<lambda>r w.
       if r_rc r = -1 \<and> os_errno w = EINTR then Done (Sending m, s) w
       else
         (let sent = to_int (r_rc r) in
          if sent = -1 \<and> (os_errno w = EAGAIN \<or> os_errno w = EWOULDBLOCK)
          then Done (Polling m (sk_handle s), s) w
          else Done (Finished (WriteResult
            (if int_to_size sent = Message_size m then Success
             else if os_errno w = EPIPE then PermanentFailure else TemporaryFailure)), s) w))"
| "call_step (Polling m h) s =
     bindM (sys (PollOut h)) (\<lambda>r w.
       if r_rc r = -1 \<and> os_errno w = EINTR then Done (Polling m h, s) w
       else bind_out (CL_ASSERT (to_int (r_rc r) = 1) w) (\<lambda>_. returnM (Sending m, s)))"
| "call_step (Finished res) s = returnM (Finished res, s)"

text \<open>What remains of a call, run to its end without interruption.\<close>

definition send_rest :: "message \<Rightarrow> socket \<Rightarrow> os \<Rightarrow> (call_result \<times> socket) outcome" where
  "send_rest m s =
     bindM (send_loop (sk_handle s) (Message_data m) (attachment_control (m_attachments m)))
       (\<lambda>sent w. Done (WriteResult
          (if int_to_size sent = Message_size m then Success
           else if os_errno w = EPIPE then PermanentFailure else TemporaryFailure), s) w)"

definition read_rest :: "message list \<Rightarrow> socket \<Rightarrow> os \<Rightarrow> (call_result \<times> socket) outcome" where
  "read_rest ms s = bindM (read_loop ms s) (\<lambda>((st, ms'), s'). returnM (ReadResult st ms', s'))"

fun resume :: "call_state \<Rightarrow> socket \<Rightarrow> os \<Rightarrow> (call_result \<times> socket) outcome" where
  "resume (Start ReadCall) s = read_rest [] s"
| "resume (Start (WriteCall m)) s =
     (if of_nat MaxBufferSize < Message_size m then returnM (WriteResult TemporaryFailure, s)
      else send_rest m s)"
| "resume (Receiving ms) s = read_rest ms s"
| "resume (Sending m) s = send_rest m s"
| "resume (Polling m h) s =
     bindM (CL_TEMP_FAILURE_RETRY (PollOut h)) (\<lambda>r.
       seqM (CL_ASSERT (to_int (r_rc r) = 1)) (send_rest m s))"
| "resume (Finished res) s = returnM (res, s)"

text \<open>The calls of \<open>CL_Socket\<close>, under one name.\<close>

fun perform :: "call \<Rightarrow> socket \<Rightarrow> os \<Rightarrow> (call_result \<times> socket) outcome" where
  "perform ReadCall s = bindM (Socket_ReadMessages s) (\<lambda>((st, ms), s'). returnM (ReadResult st ms, s'))"
| "perform (WriteCall m) s = bindM (Socket_WriteMessage m s) (\<lambda>(st, s'). returnM (WriteResult st, s'))"

lemma perform_resume:
  "perform c = with_AutoLock sk_lock (\<lambda>l s. s\<lparr>sk_lock := l\<rparr>) (resume (Start c))"
proof (cases c)
  case ReadCall
  show ?thesis
    unfolding ReadCall
    by (intro ext) (simp add: Socket_ReadMessages_def with_AutoLock_def read_rest_def bind_out_assoc
        case_prod_unfold returnM_eta seqM_eta bindM_eta split: option.split)
next
  case (WriteCall m)
  have body: "bind_out (write_body m s w) (\<lambda>(st, s') w. Done (WriteResult st, s') w) =
      resume (Start (WriteCall m)) s w" for s w
    by (simp add: write_body_def send_rest_def bind_out_assoc)
      (auto intro!: bind_out_cong)
  show ?thesis
    unfolding WriteCall
    by (intro ext) (simp add: Socket_WriteMessage_def with_AutoLock_def bind_out_assoc
        case_prod_unfold returnM_eta bindM_eta body [symmetric] del: resume.simps split: option.split)
qed


section \<open>Steps and whole calls\<close>

lemma retry_unfold:
  "bind_out (CL_TEMP_FAILURE_RETRY c w) f =
     bind_out (sys c w) (\<lambda>r w'. if r_rc r = -1 \<and> os_errno w' = EINTR
       then bind_out (CL_TEMP_FAILURE_RETRY c w') f else f r w')"
  by (subst CL_TEMP_FAILURE_RETRY.simps) (auto simp: bind_out_assoc intro!: bind_out_cong)

text \<open>The rest of a call is its next step and then the rest from there, failures included.\<close>

lemma resume_step: "resume cs s w = bind_out (call_step cs s w) (\<lambda>(cs', s'). resume cs' s')"
proof (cases cs)
  case (Start c)
  then show ?thesis by (cases c) simp_all
next
  case (Receiving ms)
  show ?thesis
    unfolding Receiving resume.simps read_rest_def bindM_apply
    by (subst read_loop.simps)
      (auto simp: bind_out_assoc retry_unfold [of "recv_call s"] Let_def returnM_eta
        read_loop.simps [of ms s] read_rest_def intro!: bind_out_cong)
next
  case (Sending m)
  show ?thesis
    unfolding Sending resume.simps send_rest_def bindM_apply
    by (subst send_loop.simps)
      (auto simp: bind_out_assoc retry_unfold [of "Sendmsg _ _ _"] Let_def returnM_eta sendmsg_call_def
        send_loop.simps [of "sk_handle s"] send_rest_def seqM_eta bindM_eta intro!: bind_out_cong)
next
  case (Polling m h)
  show ?thesis
    unfolding Polling resume.simps bindM_apply
    by (auto simp: bind_out_assoc retry_unfold [of "PollOut h"] returnM_eta intro!: bind_out_cong)
qed (simp add: returnM_eta)

inductive small_step :: "call_state \<times> socket \<times> os \<Rightarrow> call_state \<times> socket \<times> os \<Rightarrow> bool" where
  "call_step cs s w = Done (cs', s') w' \<Longrightarrow> small_step (cs, s, w) (cs', s', w')"

inductive_simps small_step_iff: "small_step (cs, s, w) (cs', s', w')"

lemmas small_steps_induct =
  rtranclp_induct [of small_step "(cs, s, w)" "(cs', s', w')", split_format (complete),
    consumes 1, case_names refl step] for cs s w cs' s' w'

lemma small_steps_resume:
  "small_step\<^sup>*\<^sup>* (cs, s, w) (cs', s', w') \<Longrightarrow> resume cs s w = resume cs' s' w'"
proof (induction rule: small_steps_induct)
  case (step cs1 s1 w1 cs2 s2 w2)
  then show ?case by (simp add: small_step_iff resume_step [of cs1])
qed simp

fun call_size :: "call_state \<Rightarrow> os \<Rightarrow> nat" where
  "call_size (Start c) w = Suc (length (os_script w))"
| "call_size cs w = length (os_script w)"

lemma read_message_script:
  "read_message s r n w = Done m w' \<Longrightarrow> length (os_script w') \<le> length (os_script w)"
  using os_le_script_length [OF forward_Done [OF read_message_forward]] .

lemma sys_bindE:
  assumes "bind_out (sys c w) f = Done x w'"
  obtains r w1 where "length (os_script w) = Suc (length (os_script w1))" "f r w1 = Done x w'"
proof -
  from assms obtain r w1 where 1: "sys c w = Done r w1" "f r w1 = Done x w'" by (rule bind_out_DoneE)
  from sys_DoneE [OF 1(1)] have "os_script w = r # os_script w1" by blast
  with 1(2) show ?thesis by (intro that) simp_all
qed

lemma call_step_size:
  assumes "call_step cs s w = Done (cs', s') w'" "\<And>r. cs \<noteq> Finished r"
  shows "call_size cs' w' < call_size cs w"
proof (cases cs)
  case (Start c)
  with assms(1) show ?thesis by (cases c) auto
next
  case (Receiving ms)
  with assms(1) obtain r w1 where
    1: "length (os_script w) = Suc (length (os_script w1))" and
    2: "(if r_rc r = -1 \<and> os_errno w1 = EINTR then Done (Receiving ms, s) w1
       else
         (let s' = receive_into r s; received = to_int (r_rc r) in
          if received > 0 then
            bind_out (read_message s' r (nat received) w1) (\<lambda>m. returnM (Receiving (ms @ [m]), s'))
          else if received = -1 then
            Done (Finished (ReadResult
              (if os_errno w1 = EAGAIN \<or> os_errno w1 = EWOULDBLOCK then Success else TemporaryFailure) ms), s') w1
          else if received = 0 then Done (Finished (ReadResult PermanentFailure ms), s') w1
          else Done (Receiving ms, s') w1)) = Done (cs', s') w'"
    by (auto elim!: sys_bindE)
  from 2 have "call_size cs' w' \<le> length (os_script w1)"
    by (auto simp: Let_def bind_out_Done_iff dest!: read_message_script split: if_splits)
  with 1 Receiving show ?thesis by simp
next
  case (Sending m)
  with assms(1) show ?thesis
    by (auto simp: Let_def elim!: sys_bindE split: if_splits)
next
  case (Polling m h)
  from assms(1) obtain r :: sysres and w1 where
    1: "length (os_script w) = Suc (length (os_script w1))" and
    2: "(if r_rc r = -1 \<and> os_errno w1 = EINTR then Done (Polling m h, s) w1
       else bind_out (CL_ASSERT (to_int (r_rc r) = 1) w1) (\<lambda>_. returnM (Sending m, s))) = Done (cs', s') w'"
    unfolding Polling call_step.simps bindM_apply by (rule sys_bindE)
  from 2 have "call_size cs' w' \<le> length (os_script w1)"
    by (auto simp: bind_out_Done_iff CL_ASSERT_Done split: if_splits)
  with 1 Polling show ?thesis by simp
qed (use assms(2) in simp)

text \<open>A call that returns can be run step by step to the same result.\<close>

lemma resume_small_steps:
  "resume cs s w = Done (r, s') w' \<Longrightarrow> small_step\<^sup>*\<^sup>* (cs, s, w) (Finished r, s', w')"
proof (induction "call_size cs w" arbitrary: cs s w rule: less_induct)
  case less
  show ?case
  proof (cases "\<exists>r. cs = Finished r")
    case True
    with less.prems show ?thesis by auto
  next
    case False
    from less.prems obtain cs1 s1 w1 where
      1: "call_step cs s w = Done (cs1, s1) w1" "resume cs1 s1 w1 = Done (r, s') w'"
      by (subst (asm) resume_step) (auto simp: bind_out_Done_iff)
    from call_step_size [OF 1(1)] False less.hyps 1(2)
    have "small_step\<^sup>*\<^sup>* (cs1, s1, w1) (Finished r, s', w')" by blast
    with 1(1) show ?thesis
      by (meson small_step.intros converse_rtranclp_into_rtranclp)
  qed
qed

lemma call_step_frame:
  assumes "call_step cs s w = Done (cs', s') w'"
  shows "sk_handle s' = sk_handle s" "sk_lock s' = sk_lock s"
proof -
  have "sk_handle s' = sk_handle s \<and> sk_lock s' = sk_lock s"
  proof (cases "(cs, s)" rule: call_step.cases)
    case (3 ms s)
    with assms show ?thesis by (auto simp: Let_def bind_out_Done_iff split: if_splits)
  next
    case (4 m s)
    with assms show ?thesis by (auto simp: Let_def bind_out_Done_iff split: if_splits)
  next
    case (5 m h s)
    with assms show ?thesis by (auto simp: Let_def bind_out_Done_iff split: if_splits)
  qed (use assms in auto)
  then show "sk_handle s' = sk_handle s" "sk_lock s' = sk_lock s" by blast+
qed

lemma small_steps_frame:
  "small_step\<^sup>*\<^sup>* (cs, s, w) (cs', s', w') \<Longrightarrow> sk_handle s' = sk_handle s \<and> sk_lock s' = sk_lock s"
  by (induction rule: small_steps_induct) (auto simp: small_step_iff dest: call_step_frame)

section \<open>Threads\<close>

text \<open>
  The socket, the kernel, and for each thread the call it is inside of, if any. \<open>sh_log\<close> is the
  history: the calls that have returned, with thread and result, in the order of their returns.
\<close>

record shared =
  sh_socket :: socket
  sh_os :: os
  sh_threads :: "nat \<Rightarrow> (call \<times> call_state) option"
  sh_log :: "(nat \<times> call \<times> call_result) list"

definition locked_with :: "lock \<Rightarrow> socket \<Rightarrow> socket" where
  "locked_with l s = s\<lparr>sk_lock := l\<rparr>"

text \<open>A step of thread \<open>t\<close>: constructing the guard, a step of the call, destroying the guard.\<close>

inductive thread_step :: "shared \<Rightarrow> nat \<Rightarrow> shared \<Rightarrow> bool" where
  enter: "sh_threads M t = None \<Longrightarrow> Lock_lock (sk_lock (sh_socket M)) = Some l \<Longrightarrow>
    thread_step M t (M\<lparr>sh_socket := locked_with l (sh_socket M),
                       sh_threads := (sh_threads M)(t \<mapsto> (c, Start c))\<rparr>)"
| work: "sh_threads M t = Some (c, cs) \<Longrightarrow> call_step cs (sh_socket M) (sh_os M) = Done (cs', s') w' \<Longrightarrow>
    thread_step M t (M\<lparr>sh_socket := s', sh_os := w', sh_threads := (sh_threads M)(t \<mapsto> (c, cs'))\<rparr>)"
| leave: "sh_threads M t = Some (c, Finished r) \<Longrightarrow>
    thread_step M t (M\<lparr>sh_socket := locked_with (Lock_unlock (sk_lock (sh_socket M))) (sh_socket M),
                       sh_threads := (sh_threads M)(t := None), sh_log := sh_log M @ [(t, c, r)]\<rparr>)"

inductive_cases thread_stepE: "thread_step M t M'"

inductive threads_reach :: "shared \<Rightarrow> shared \<Rightarrow> bool" for M0 where
  start: "threads_reach M0 M0"
| step: "threads_reach M0 M \<Longrightarrow> thread_step M t M' \<Longrightarrow> threads_reach M0 M'"

definition threads_start :: "socket \<Rightarrow> os \<Rightarrow> shared" where
  "threads_start s w = \<lparr>sh_socket = s, sh_os = w, sh_threads = (\<lambda>_. None), sh_log = []\<rparr>"

text \<open>The specification: the calls one after the other, each as a whole.\<close>

fun in_sequence :: "call list \<Rightarrow> socket \<Rightarrow> os \<Rightarrow> (call_result list \<times> socket) outcome" where
  "in_sequence [] s = returnM ([], s)"
| "in_sequence (c # cs) s =
     bindM (perform c s) (\<lambda>(r, s'). bindM (in_sequence cs s') (\<lambda>(rs, s''). returnM (r # rs, s'')))"

definition log_calls :: "(nat \<times> call \<times> call_result) list \<Rightarrow> call list" where
  "log_calls log = map (\<lambda>(_, c, _). c) log"

definition log_results :: "(nat \<times> call \<times> call_result) list \<Rightarrow> call_result list" where
  "log_results log = map (\<lambda>(_, _, r). r) log"

lemma log_simps [simp]:
  "log_calls [] = []" "log_calls ((t, c, r) # log) = c # log_calls log"
  "log_calls (log @ log') = log_calls log @ log_calls log'"
  "log_results [] = []" "log_results ((t, c, r) # log) = r # log_results log"
  "log_results (log @ log') = log_results log @ log_results log'"
  by (simp_all add: log_calls_def log_results_def)

lemma no_thread_neq [simp]: "(\<lambda>_. None) \<noteq> (\<lambda>_. None)(t \<mapsto> x)"
  by (metis fun_upd_same option.distinct(1))

lemma in_sequence_snoc:
  assumes "in_sequence cs s w = Done (rs, s1) w1" "perform c s1 w1 = Done (r, s2) w2"
  shows "in_sequence (cs @ [c]) s w = Done (rs @ [r], s2) w2"
  using assms(1)
proof (induction cs arbitrary: s w rs)
  case Nil
  with assms(2) show ?case by simp
next
  case (Cons c' cs)
  then obtain r' s' w' rs' where "perform c' s w = Done (r', s') w'"
    "in_sequence cs s' w' = Done (rs', s1) w1" "rs = r' # rs'"
    by (auto simp: bind_out_Done_iff)
  with Cons.IH show ?case by simp
qed

text \<open>
  The invariant: the calls that have returned were made one after the other; if a call is in
  progress, it is the only one, the lock is held, and it started in the state they left.
\<close>

definition threads_inv :: "socket \<Rightarrow> os \<Rightarrow> shared \<Rightarrow> bool" where
  "threads_inv s0 w0 M \<longleftrightarrow>
     (\<exists>s w. in_sequence (log_calls (sh_log M)) s0 w0 = Done (log_results (sh_log M), s) w \<and>
        \<not> lk_locked (sk_lock s) \<and>
        (sh_threads M = (\<lambda>_. None) \<and> sh_socket M = s \<and> sh_os M = w \<or>
         (\<exists>t c cs l. sh_threads M = (\<lambda>_. None)(t \<mapsto> (c, cs)) \<and> Lock_lock (sk_lock s) = Some l \<and>
            sk_lock (sh_socket M) = l \<and>
            small_step\<^sup>*\<^sup>* (Start c, locked_with l s, w) (cs, sh_socket M, sh_os M))))"

lemma threads_inv_start: "\<not> lk_locked (sk_lock s) \<Longrightarrow> threads_inv s w (threads_start s w)"
  by (simp add: threads_inv_def threads_start_def)

lemma perform_from_steps:
  assumes "Lock_lock (sk_lock s) = Some l" "small_step\<^sup>*\<^sup>* (Start c, locked_with l s, w) (Finished r, s', w')"
  shows "perform c s w = Done (r, locked_with (Lock_unlock (sk_lock s')) s') w'"
  using small_steps_resume [OF assms(2)] assms(1)
  unfolding perform_resume by (simp add: with_AutoLock_def locked_with_def del: resume.simps(1,2))

lemma threads_inv_step:
  assumes "threads_inv s0 w0 M" "thread_step M u M'"
  shows "threads_inv s0 w0 M'"
proof -
  from assms(1) obtain s w where
    seq: "in_sequence (log_calls (sh_log M)) s0 w0 = Done (log_results (sh_log M), s) w" and
    free: "\<not> lk_locked (sk_lock s)" and
    now: "sh_threads M = (\<lambda>_. None) \<and> sh_socket M = s \<and> sh_os M = w \<or>
      (\<exists>t c cs l. sh_threads M = (\<lambda>_. None)(t \<mapsto> (c, cs)) \<and> Lock_lock (sk_lock s) = Some l \<and>
         sk_lock (sh_socket M) = l \<and>
         small_step\<^sup>*\<^sup>* (Start c, locked_with l s, w) (cs, sh_socket M, sh_os M))"
    unfolding threads_inv_def by blast
  from assms(2) show ?thesis
  proof (cases rule: thread_step.cases)
    case (enter l c)
    with now have "sh_threads M = (\<lambda>_. None)" "sh_socket M = s" "sh_os M = w"
      using pthread_mutex.acquire_once by fastforce+
    with enter seq free show ?thesis
      unfolding threads_inv_def
      by (intro exI [of _ s] exI [of _ w] conjI disjI2 exI [of _ u] exI [of _ c] exI [of _ "Start c"] exI [of _ l])
        (simp_all add: locked_with_def)
  next
    case (work c cs cs' s' w')
    with now obtain l where l: "sh_threads M = (\<lambda>_. None)(u \<mapsto> (c, cs))" "Lock_lock (sk_lock s) = Some l"
      "sk_lock (sh_socket M) = l" "small_step\<^sup>*\<^sup>* (Start c, locked_with l s, w) (cs, sh_socket M, sh_os M)"
      by (auto split: if_splits)
    from work(3) have "small_step (cs, sh_socket M, sh_os M) (cs', s', w')" by (rule small_step.intros)
    with l(4) have "small_step\<^sup>*\<^sup>* (Start c, locked_with l s, w) (cs', s', w')" by simp
    with work l seq free call_step_frame [OF work(3)] show ?thesis
      unfolding threads_inv_def
      by (intro exI [of _ s] exI [of _ w] conjI disjI2 exI [of _ u] exI [of _ c] exI [of _ cs'] exI [of _ l])
        simp_all
  next
    case (leave c r)
    with now obtain l where l: "sh_threads M = (\<lambda>_. None)(u \<mapsto> (c, Finished r))" "Lock_lock (sk_lock s) = Some l"
      "small_step\<^sup>*\<^sup>* (Start c, locked_with l s, w) (Finished r, sh_socket M, sh_os M)"
      by (auto split: if_splits)
    from in_sequence_snoc [OF seq perform_from_steps [OF l(2,3)]] leave l(1) show ?thesis
      unfolding threads_inv_def
      by (intro exI [of _ "locked_with (Lock_unlock (sk_lock (sh_socket M))) (sh_socket M)"]
          exI [of _ "sh_os M"] conjI disjI1)
        (simp_all add: locked_with_def pthread_mutex.release_frees)
  qed
qed

lemma threads_inv_reach:
  assumes "threads_reach (threads_start s w) M" "\<not> lk_locked (sk_lock s)"
  shows "threads_inv s w M"
  using assms(1) by induction (use assms(2) in \<open>auto intro: threads_inv_start threads_inv_step\<close>)

text \<open>Conversely, whatever the calls do one after the other, threads can do.\<close>

lemma threads_work:
  assumes "small_step\<^sup>*\<^sup>* (cs, sh_socket M, sh_os M) (cs', s', w')"
    "sh_threads M t = Some (c, cs)" "threads_reach M0 M"
  shows "threads_reach M0 (M\<lparr>sh_socket := s', sh_os := w', sh_threads := (sh_threads M)(t \<mapsto> (c, cs'))\<rparr>)"
  using assms(1)
proof (induction rule: small_steps_induct)
  case refl
  from assms(2) have "(sh_threads M)(t \<mapsto> (c, cs)) = sh_threads M" by (rule map_upd_triv)
  with assms(3) show ?case by (simp del: fun_upd_apply)
next
  case (step cs1 s1 w1 cs2 s2 w2)
  let ?M = "M\<lparr>sh_socket := s1, sh_os := w1, sh_threads := (sh_threads M)(t \<mapsto> (c, cs1))\<rparr>"
  have "thread_step ?M t (?M\<lparr>sh_socket := s2, sh_os := w2, sh_threads := (sh_threads ?M)(t \<mapsto> (c, cs2))\<rparr>)"
    by (rule thread_step.work [where cs = cs1]) (use step.hyps(2) in \<open>simp_all add: small_step_iff\<close>)
  from threads_reach.step [OF step.IH this] show ?case by (simp del: fun_upd_apply)
qed

lemma threads_perform:
  assumes "threads_reach M0 M" "sh_threads M = (\<lambda>_. None)"
    "perform c (sh_socket M) (sh_os M) = Done (r, s') w'"
  shows "threads_reach M0 (M\<lparr>sh_socket := s', sh_os := w', sh_log := sh_log M @ [(t, c, r)]\<rparr>)"
proof -
  from assms(3) obtain l s1 where l: "Lock_lock (sk_lock (sh_socket M)) = Some l"
    "resume (Start c) (locked_with l (sh_socket M)) (sh_os M) = Done (r, s1) w'"
    "s' = locked_with (Lock_unlock (sk_lock s1)) s1"
    unfolding perform_resume by (auto elim!: with_AutoLock_Done simp: locked_with_def)
  let ?M1 = "M\<lparr>sh_socket := locked_with l (sh_socket M), sh_threads := (sh_threads M)(t \<mapsto> (c, Start c))\<rparr>"
  have "threads_reach M0 ?M1"
    by (rule threads_reach.step [OF assms(1) thread_step.enter]) (use assms(2) l(1) in simp_all)
  moreover have "small_step\<^sup>*\<^sup>* (Start c, sh_socket ?M1, sh_os ?M1) (Finished r, s1, w')"
    using resume_small_steps [OF l(2)] by simp
  ultimately have reach: "threads_reach M0
      (?M1\<lparr>sh_socket := s1, sh_os := w', sh_threads := (sh_threads ?M1)(t \<mapsto> (c, Finished r))\<rparr>)"
    by (intro threads_work [where cs = "Start c"]) simp_all
  let ?M2 = "?M1\<lparr>sh_socket := s1, sh_os := w', sh_threads := (sh_threads ?M1)(t \<mapsto> (c, Finished r))\<rparr>"
  have "thread_step ?M2 t (?M2\<lparr>sh_socket := locked_with (Lock_unlock (sk_lock (sh_socket ?M2))) (sh_socket ?M2),
      sh_threads := (sh_threads ?M2)(t := None), sh_log := sh_log ?M2 @ [(t, c, r)]\<rparr>)"
    by (rule thread_step.leave) simp
  from threads_reach.step [OF reach this] assms(2) l(3) show ?thesis
    by (cases M) (simp add: fun_upd_def if_distrib cong: if_cong)
qed

lemma threads_in_sequence:
  assumes "in_sequence (log_calls log) s w = Done (log_results log, s1) w1"
  shows "threads_reach (threads_start s w)
    ((threads_start s w)\<lparr>sh_socket := s1, sh_os := w1, sh_log := log\<rparr>)"
proof -
  have "threads_reach (threads_start s w) (M\<lparr>sh_socket := s1, sh_os := w1, sh_log := sh_log M @ log\<rparr>)"
    if "threads_reach (threads_start s w) M" "sh_threads M = (\<lambda>_. None)"
      "in_sequence (log_calls log) (sh_socket M) (sh_os M) = Done (log_results log, s1) w1" for M
    using that
  proof (induction log arbitrary: M)
    case Nil
    then show ?case by (cases M) simp
  next
    case (Cons x log)
    obtain t c r where x: "x = (t, c, r)" by (cases x)
    from Cons.prems(3) x obtain s' w' where
      p: "perform c (sh_socket M) (sh_os M) = Done (r, s') w'" and
      rest: "in_sequence (log_calls log) s' w' = Done (log_results log, s1) w1"
      by (auto simp: bind_out_Done_iff)
    let ?M = "M\<lparr>sh_socket := s', sh_os := w', sh_log := sh_log M @ [(t, c, r)]\<rparr>"
    from Cons.IH [of ?M] threads_perform [OF Cons.prems(1,2) p] Cons.prems(2) rest x
    show ?case by simp
  qed
  from this [of "threads_start s w"] assms show ?thesis
    by (simp add: threads_reach.start threads_start_def)
qed

section \<open>Properties\<close>

text \<open>
  C5: Calls of \<^verbatim>\<open>ReadMessages\<close> and \<^verbatim>\<open>WriteMessage\<close> are atomic. Whatever the interleaving of
  system calls of any number of threads on one socket, when no call is in progress the results,
  the socket and everything the kernel saw are those of the same calls made one after the
  other, in the order in which they returned, and every such sequence can occur.
\<close>

theorem Socket_calls_linearise:
  assumes "\<not> lk_locked (sk_lock s)"
  shows "threads_reach (threads_start s w) \<lparr>sh_socket = s', sh_os = w', sh_threads = (\<lambda>_. None), sh_log = log\<rparr>
    \<longleftrightarrow> in_sequence (log_calls log) s w = Done (log_results log, s') w'"
proof
  assume "threads_reach (threads_start s w) \<lparr>sh_socket = s', sh_os = w', sh_threads = (\<lambda>_. None), sh_log = log\<rparr>"
  from threads_inv_reach [OF this assms]
  show "in_sequence (log_calls log) s w = Done (log_results log, s') w'"
    by (auto simp: threads_inv_def dest: fun_cong)
next
  assume "in_sequence (log_calls log) s w = Done (log_results log, s') w'"
  from threads_in_sequence [OF this]
  show "threads_reach (threads_start s w) \<lparr>sh_socket = s', sh_os = w', sh_threads = (\<lambda>_. None), sh_log = log\<rparr>"
    by (simp add: threads_start_def)
qed

text \<open>
  C38: A writer that waits for space keeps everybody out. While a \<^verbatim>\<open>WriteMessage\<close> is in its \<^verbatim>\<open>poll\<close>,
  which has no timeout, no other thread can make a step on the socket, a reader included; so if
  the peer does the same, and each waits for the other to read, neither ever will.
\<close>

theorem Socket_waiting_writer_blocks:
  assumes "threads_reach (threads_start s w) M" "\<not> lk_locked (sk_lock s)"
    "sh_threads M t = Some (WriteCall m, Polling m h)" "u \<noteq> t \<or> os_script (sh_os M) = []"
  shows "\<not> thread_step M u M'"
proof
  assume step: "thread_step M u M'"
  from threads_inv_reach [OF assms(1,2)] assms(3) have
    only: "sh_threads M = (\<lambda>_. None)(t \<mapsto> (WriteCall m, Polling m h))" and held: "lk_locked (sk_lock (sh_socket M))"
    using pthread_mutex.acquired_held by (fastforce simp: threads_inv_def split: if_splits)+
  from step show False
  proof (cases rule: thread_step.cases)
    case (enter l c)
    with held show ?thesis by (simp add: pthread_mutex.acquire_held)
  next
    case (work c cs cs' s' w')
    with only assms(4) show ?thesis by (auto simp: sys_Nil split: if_splits)
  next
    case (leave c r)
    with only show ?thesis by (auto split: if_splits)
  qed
qed

text \<open>
  \<^verbatim>\<open>close\<close> does not take the lock: it closes the descriptor of a socket whose lock is held,
  and the write in progress goes on without one. Its next \<^verbatim>\<open>poll\<close> is made on the descriptor that
  was just closed, which the kernel may have given to another object, and its next \<^verbatim>\<open>sendmsg\<close> on
  \<open>-1\<close>.
\<close>

theorem Socket_close_unguarded:
  assumes "sk_handle s = h" "h \<noteq> -1" "lk_locked (sk_lock s)" "os_script w = k # r # rest" "r_rc k = 0"
  shows "\<exists>s' w1. Socket_close s w = Done (True, s') w1 \<and> lk_locked (sk_lock s') \<and>
    os_trace (outcome_world (call_step (Polling m h) s' w1)) =
      os_trace w @ [Sys (Close h) k, Sys (PollOut h) r] \<and>
    os_trace (outcome_world (call_step (Sending m) s' w1)) =
      os_trace w @ [Sys (Close h) k, Sys (sendmsg_call m (s\<lparr>sk_handle := -1\<rparr>)) r]"
  using assms
  by (intro exI [of _ "s\<lparr>sk_handle := -1\<rparr>"] exI [of _ "answered (Close h) [k] w"])
    (simp add: Socket_close_def CL_CHECK_success sys_Cons CL_ASSERT_def Let_def sendmsg_call_def)

section \<open>Examples of the properties\<close>

theorem Socket_calls_linearise_witness:
  "\<exists>s' w'. threads_reach
      (threads_start (open_socket 5) (start_os False (busy_answers [] @ [] @ reply 1 ENONE # [reply 0 ENONE])))
      \<lparr>sh_socket = s', sh_os = w', sh_threads = (\<lambda>_. None),
       sh_log = [(2, WriteCall (tiny_message [4]), WriteResult Success), (3, ReadCall, ReadResult PermanentFailure [])]\<rparr>"
proof -
  let ?w = "start_os False (busy_answers [] @ [] @ reply 1 ENONE # [reply 0 ENONE])"
  obtain w1 where w1: "Socket_WriteMessage (tiny_message [4]) (open_socket 5) ?w = Done (Success, open_socket 5) w1"
    "os_script w1 = [reply 0 ENONE]"
    using Socket_WriteMessage_result [of ?w "[]" "[]" "reply 1 ENONE" "[reply 0 ENONE]" "tiny_message [4]" "open_socket 5"]
    by (auto simp: interrupted_def would_block_def to_int_small int_to_size_def MaxBufferSize_def)
  have "\<exists>s' w'. Socket_ReadMessages (open_socket 5) w1 = Done ((PermanentFailure, []), s') w'"
    using read_loop_end [of w1 "[]" "reply 0 ENONE" "[]" PermanentFailure "[]"] w1(2)
    by (simp add: Socket_ReadMessages_def with_AutoLock_free read_end_def)
  then obtain s' w' where "in_sequence [WriteCall (tiny_message [4]), ReadCall] (open_socket 5) ?w =
      Done ([WriteResult Success, ReadResult PermanentFailure []], s') w'"
    using w1(1) by auto
  then show ?thesis
    by (intro exI [of _ s'] exI [of _ w'] iffD2 [OF Socket_calls_linearise]) simp_all
qed

theorem Socket_waiting_writer_blocks_witness:
  "\<exists>M. threads_reach (threads_start (open_socket 5) (start_os False [reply (-1) EAGAIN])) M \<and>
    sh_threads M 2 = Some (WriteCall (tiny_message []), Polling (tiny_message []) 5) \<and>
    (\<forall>M'. \<not> thread_step M 3 M' \<and> \<not> thread_step M 2 M')"
proof -
  let ?w = "start_os False [reply (-1) EAGAIN]" and ?c = "WriteCall (tiny_message [])"
  let ?M0 = "threads_start (open_socket 5) ?w"
  let ?s = "locked_with \<lparr>lk_locked = True\<rparr> (open_socket 5)"
  let ?M1 = "?M0\<lparr>sh_socket := ?s, sh_threads := (sh_threads ?M0)(2 \<mapsto> (?c, Start ?c))\<rparr>"
  have "thread_step ?M0 2 ?M1"
    using thread_step.enter [of ?M0 2 "\<lparr>lk_locked = True\<rparr>" ?c]
    by (simp add: threads_start_def open_socket_def Lock_ctor_def Lock_lock_def)
  then have "threads_reach ?M0 ?M1" by (rule threads_reach.step [OF threads_reach.start])
  moreover
  let ?w1 = "answered (sendmsg_call (tiny_message []) ?s) [reply (-1) EAGAIN] ?w"
  have "small_step (Start ?c, ?s, ?w) (Sending (tiny_message []), ?s, ?w)"
    "small_step (Sending (tiny_message []), ?s, ?w) (Polling (tiny_message []) 5, ?s, ?w1)"
    by (simp_all add: small_step_iff MaxBufferSize_def sys_Cons locked_with_def Let_def)
  then have "small_step\<^sup>*\<^sup>* (Start ?c, sh_socket ?M1, sh_os ?M1) (Polling (tiny_message []) 5, ?s, ?w1)"
    by (simp add: threads_start_def)
  ultimately have reach: "threads_reach ?M0
      (?M1\<lparr>sh_socket := ?s, sh_os := ?w1, sh_threads := (sh_threads ?M1)(2 \<mapsto> (?c, Polling (tiny_message []) 5))\<rparr>)"
    by (intro threads_work [where cs = "Start ?c"]) simp_all
  let ?M = "?M1\<lparr>sh_socket := ?s, sh_os := ?w1, sh_threads := (sh_threads ?M1)(2 \<mapsto> (?c, Polling (tiny_message []) 5))\<rparr>"
  have free: "\<not> lk_locked (sk_lock (open_socket 5))" by simp
  have there: "sh_threads ?M 2 = Some (?c, Polling (tiny_message []) 5)" "os_script (sh_os ?M) = []" by simp_all
  from Socket_waiting_writer_blocks [OF reach free there(1), of 3]
    Socket_waiting_writer_blocks [OF reach free there(1), of 2] there reach
  show ?thesis by (intro exI [of _ ?M]) simp
qed

theorem Socket_close_unguarded_witness:
  "\<exists>s' w1. Socket_close (locked_with \<lparr>lk_locked = True\<rparr> (open_socket 5)) (start_os False [reply 0 ENONE, reply (-1) (EOTHER 9)])
      = Done (True, s') w1 \<and> lk_locked (sk_lock s') \<and>
    os_trace (outcome_world (call_step (Polling (tiny_message []) 5) s' w1)) =
      os_trace (start_os False [reply 0 ENONE, reply (-1) (EOTHER 9)]) @
        [Sys (Close 5) (reply 0 ENONE), Sys (PollOut 5) (reply (-1) (EOTHER 9))] \<and>
    os_trace (outcome_world (call_step (Sending (tiny_message [])) s' w1)) =
      os_trace (start_os False [reply 0 ENONE, reply (-1) (EOTHER 9)]) @ [Sys (Close 5) (reply 0 ENONE),
        Sys (sendmsg_call (tiny_message []) ((locked_with \<lparr>lk_locked = True\<rparr> (open_socket 5))\<lparr>sk_handle := -1\<rparr>))
          (reply (-1) (EOTHER 9))]"
  by (rule Socket_close_unguarded) (simp_all add: locked_with_def)

end
