(* ===== verification/CL_Connection.thy ===== *)
theory CL_Connection
  imports CL_Threads
begin

text \<open>
  The two ends of a connection together: two processes, each with its end of a
  \<open>SOCK_SEQPACKET\<close> pair, make their calls of \<^verbatim>\<open>ReadMessages\<close> and \<^verbatim>\<open>WriteMessage\<close> one system call at
  a time, in any interleaving, against a kernel with two bounded queues.
\<close>

section \<open>The kernel\<close>

datatype side = Near | Far

fun peer :: "side \<Rightarrow> side" where
  "peer Near = Far"
| "peer Far = Near"

text \<open>The packets on their way to each end, and the ends that are closed.\<close>

record kernel =
  kn_queue :: "side \<Rightarrow> sysres list"
  kn_closed :: "side \<Rightarrow> bool"

definition blocks :: "sysres \<Rightarrow> bool" where
  "blocks r \<longleftrightarrow> r_rc r = -1 \<and> (r_errno r = EAGAIN \<or> r_errno r = EWOULDBLOCK)"

text \<open>\<^verbatim>\<open>ECONNRESET\<close>, the error 104 of Linux.\<close>

definition resets :: "sysres \<Rightarrow> bool" where
  "resets r \<longleftrightarrow> r_rc r = -1 \<and> r_errno r = EOTHER 104"

text \<open>
  Documented behaviour of the calls on a non-blocking end \<open>x\<close> of a pair whose queues hold \<open>cap\<close>
  packets each: any call may be interrupted; a packet is received whole and in order, the end of
  the stream after the last one; a send is taken whole or not at all, and is refused when the
  peer is closed; \<^verbatim>\<open>poll\<close> returns when there is room or the peer is closed. After the peer has
  closed, a call may report that it did so with messages unread (\<^verbatim>\<open>ECONNRESET\<close>).
\<close>

inductive kernel_step ::
  "nat \<Rightarrow> (handle \<Rightarrow> handle) \<Rightarrow> kernel \<Rightarrow> side \<Rightarrow> syscall \<Rightarrow> sysres \<Rightarrow> kernel \<Rightarrow> bool" for cap f K x where
  interrupt: "interrupted r \<Longrightarrow> \<forall>h. c \<noteq> Close h \<Longrightarrow> kernel_step cap f K x c r K"
| deliver: "kn_queue K x = p # ps \<Longrightarrow>
    kernel_step cap f K x (Recvmsg h n k) p (K\<lparr>kn_queue := (kn_queue K)(x := ps)\<rparr>)"
| empty: "kn_queue K x = [] \<Longrightarrow> \<not> kn_closed K (peer x) \<Longrightarrow> blocks r \<Longrightarrow>
    kernel_step cap f K x (Recvmsg h n k) r K"
| eof: "kn_queue K x = [] \<Longrightarrow> kn_closed K (peer x) \<Longrightarrow> r_rc r = 0 \<Longrightarrow>
    kernel_step cap f K x (Recvmsg h n k) r K"
| accept: "\<not> kn_closed K (peer x) \<Longrightarrow> length (kn_queue K (peer x)) < cap \<Longrightarrow> carries f payload control p \<Longrightarrow>
    r_rc r = int (length payload) \<Longrightarrow>
    kernel_step cap f K x (Sendmsg h payload control) r
      (K\<lparr>kn_queue := (kn_queue K)(peer x := kn_queue K (peer x) @ [p])\<rparr>)"
| full: "\<not> kn_closed K (peer x) \<Longrightarrow> cap \<le> length (kn_queue K (peer x)) \<Longrightarrow> blocks r \<Longrightarrow>
    kernel_step cap f K x (Sendmsg h payload control) r K"
| broken: "kn_closed K (peer x) \<Longrightarrow> r_rc r = -1 \<Longrightarrow> r_errno r = EPIPE \<Longrightarrow>
    kernel_step cap f K x (Sendmsg h payload control) r K"
| reset_read: "kn_closed K (peer x) \<Longrightarrow> resets r \<Longrightarrow> kernel_step cap f K x (Recvmsg h n k) r K"
| reset_write: "kn_closed K (peer x) \<Longrightarrow> resets r \<Longrightarrow> kernel_step cap f K x (Sendmsg h payload control) r K"
| writable: "kn_closed K (peer x) \<or> length (kn_queue K (peer x)) < cap \<Longrightarrow> r_rc r = 1 \<Longrightarrow>
    kernel_step cap f K x (PollOut h) r K"
| shut: "r_rc r = 0 \<Longrightarrow>
    kernel_step cap f K x (Close h) r
      (K\<lparr>kn_closed := (kn_closed K)(x := True), kn_queue := (kn_queue K)(x := [])\<rparr>)"


section \<open>The connection\<close>

text \<open>
  For each end its socket, what its process sees of the system, the call it is inside of, and
  the history of the calls that have returned.
\<close>

record connection =
  cn_socket :: "side \<Rightarrow> socket"
  cn_os :: "side \<Rightarrow> os"
  cn_call :: "side \<Rightarrow> (call \<times> call_state) option"
  cn_log :: "side \<Rightarrow> (call \<times> call_result) list"
  cn_kernel :: kernel

text \<open>The system call that a call makes next.\<close>

fun next_call :: "call_state \<Rightarrow> socket \<Rightarrow> syscall option" where
  "next_call (Receiving ms) s = Some (recv_call s)"
| "next_call (Sending m) s = Some (sendmsg_call m s)"
| "next_call (Polling m h) s = Some (PollOut h)"
| "next_call cs s = None"

text \<open>
  The messages the two processes send: well-formed, not empty, of at most 4096 bytes that are
  initialised, with at most one descriptor (a message without bytes reads as the end of the connection, and one with more descriptors
  fails an assertion of the receiver).
\<close>

definition sendable :: "(handle \<Rightarrow> handle) \<Rightarrow> message \<Rightarrow> bool" where
  "sendable f m \<longleftrightarrow> Message_wf m \<and> 0 < unat (Message_size m) \<and> unat (Message_size m) \<le> MaxBufferSize \<and>
     (\<exists>bs. Message_data m = determined bs) \<and> length (m_attachments m) \<le> 1 \<and>
     (\<forall>a \<in> set (m_attachments m). valid_handle (att_handle a) \<and> valid_handle (f (att_handle a)))"

text \<open>
  A message that is too large; \<^verbatim>\<open>WriteMessage\<close> refuses it by itself. The calls of the processes are reads,
  and writes of messages that are sendable or too large. What the code does with the others is
  shown in \<open>CL_Socket\<close>.
\<close>

definition oversize :: "message \<Rightarrow> bool" where
  "oversize m \<longleftrightarrow> MaxBufferSize < unat (Message_size m)"

fun call_allowed :: "(handle \<Rightarrow> handle) \<Rightarrow> call \<Rightarrow> bool" where
  "call_allowed f ReadCall \<longleftrightarrow> True"
| "call_allowed f (WriteCall m) \<longleftrightarrow> sendable f m \<or> oversize m"

inductive connection_step :: "nat \<Rightarrow> (handle \<Rightarrow> handle) \<Rightarrow> connection \<Rightarrow> side \<Rightarrow> connection \<Rightarrow> bool"
  for cap f L x where
  enter: "cn_call L x = None \<Longrightarrow> \<not> kn_closed (cn_kernel L) x \<Longrightarrow> call_allowed f c \<Longrightarrow>
    Lock_lock (sk_lock (cn_socket L x)) = Some l \<Longrightarrow>
    connection_step cap f L x
      (L\<lparr>cn_socket := (cn_socket L)(x := locked_with l (cn_socket L x)),
         cn_call := (cn_call L)(x \<mapsto> (c, Start c))\<rparr>)"
| begin_call: "cn_call L x = Some (c, Start c) \<Longrightarrow>
    call_step (Start c) (cn_socket L x) (cn_os L x) = Done (cs', s') w' \<Longrightarrow>
    connection_step cap f L x
      (L\<lparr>cn_socket := (cn_socket L)(x := s'), cn_os := (cn_os L)(x := w'),
         cn_call := (cn_call L)(x \<mapsto> (c, cs'))\<rparr>)"
| work: "cn_call L x = Some (c, cs) \<Longrightarrow> next_call cs (cn_socket L x) = Some sc \<Longrightarrow>
    kernel_step cap f (cn_kernel L) x sc r K' \<Longrightarrow>
    call_step cs (cn_socket L x) ((cn_os L x)\<lparr>os_script := [r]\<rparr>) = Done (cs', s') w' \<Longrightarrow>
    connection_step cap f L x
      (L\<lparr>cn_socket := (cn_socket L)(x := s'), cn_os := (cn_os L)(x := w'),
         cn_call := (cn_call L)(x \<mapsto> (c, cs')), cn_kernel := K'\<rparr>)"
| leave: "cn_call L x = Some (c, Finished res) \<Longrightarrow>
    connection_step cap f L x
      (L\<lparr>cn_socket := (cn_socket L)(x := locked_with (Lock_unlock (sk_lock (cn_socket L x))) (cn_socket L x)),
         cn_call := (cn_call L)(x := None), cn_log := (cn_log L)(x := cn_log L x @ [(c, res)])\<rparr>)"
| close: "cn_call L x = None \<Longrightarrow> kernel_step cap f (cn_kernel L) x (Close (sk_handle (cn_socket L x))) r K' \<Longrightarrow>
    Socket_close (cn_socket L x) ((cn_os L x)\<lparr>os_script := [r]\<rparr>) = Done (True, s') w' \<Longrightarrow>
    connection_step cap f L x
      (L\<lparr>cn_socket := (cn_socket L)(x := s'), cn_os := (cn_os L)(x := w'), cn_kernel := K'\<rparr>)"

inductive_cases connection_stepE: "connection_step cap f L x L'"

inductive connection_reach :: "nat \<Rightarrow> (handle \<Rightarrow> handle) \<Rightarrow> connection \<Rightarrow> connection \<Rightarrow> bool" for cap f L0 where
  start: "connection_reach cap f L0 L0"
| step: "connection_reach cap f L0 L \<Longrightarrow> connection_step cap f L x L' \<Longrightarrow> connection_reach cap f L0 L'"

text \<open>A connection as \<^verbatim>\<open>CreatePair\<close> leaves it, with an end handed to each process.\<close>

definition connection_start :: "(side \<Rightarrow> socket) \<Rightarrow> (side \<Rightarrow> os) \<Rightarrow> connection" where
  "connection_start s w =
     \<lparr>cn_socket = s, cn_os = w, cn_call = (\<lambda>_. None), cn_log = (\<lambda>_. []),
      cn_kernel = \<lparr>kn_queue = (\<lambda>_. []), kn_closed = (\<lambda>_. False)\<rparr>\<rparr>"

definition ends_ready :: "(side \<Rightarrow> socket) \<Rightarrow> (side \<Rightarrow> os) \<Rightarrow> bool" where
  "ends_ready s w \<longleftrightarrow> (\<forall>x. socket_ready (s x) \<and> \<not> lk_locked (sk_lock (s x)) \<and> (\<forall>k. os_malloc (w x) k))"

section \<open>What an end has sent and got\<close>

text \<open>The messages of a call whose sending has succeeded, and those it has read so far.\<close>

fun call_sent :: "call \<times> call_state \<Rightarrow> message list" where
  "call_sent (WriteCall m, Finished (WriteResult Success)) = [m]"
| "call_sent _ = []"

fun call_got :: "call \<times> call_state \<Rightarrow> message list" where
  "call_got (c, Receiving ms) = ms"
| "call_got (c, Finished (ReadResult st ms)) = ms"
| "call_got _ = []"

fun call_ended :: "call \<times> call_state \<Rightarrow> bool" where
  "call_ended (c, Finished (ReadResult PermanentFailure ms)) \<longleftrightarrow> True"
| "call_ended _ \<longleftrightarrow> False"

fun call_broken :: "call \<times> call_state \<Rightarrow> bool" where
  "call_broken (WriteCall m, Finished (WriteResult st)) \<longleftrightarrow> st \<noteq> Success \<and> \<not> oversize m"
| "call_broken (ReadCall, Finished (ReadResult st ms)) \<longleftrightarrow> st = TemporaryFailure"
| "call_broken _ \<longleftrightarrow> False"

definition calls :: "connection \<Rightarrow> side \<Rightarrow> (call \<times> call_state) list" where
  "calls L x = map (\<lambda>(c, res). (c, Finished res)) (cn_log L x) @
     (case cn_call L x of None \<Rightarrow> [] | Some k \<Rightarrow> [k])"

definition sent :: "connection \<Rightarrow> side \<Rightarrow> message list" where
  "sent L x = concat (map call_sent (calls L x))"

definition got :: "connection \<Rightarrow> side \<Rightarrow> message list" where
  "got L x = concat (map call_got (calls L x))"

definition ended :: "connection \<Rightarrow> side \<Rightarrow> bool" where
  "ended L x \<longleftrightarrow> list_ex call_ended (calls L x)"

text \<open>A message as it arrives at the other end.\<close>

definition arrives :: "(handle \<Rightarrow> handle) \<Rightarrow> message \<Rightarrow> message \<Rightarrow> bool" where
  "arrives f m m' \<longleftrightarrow> Message_data m' = Message_data m \<and>
     m_attachments m' = map (\<lambda>a. Attachment_ctor (f (att_handle a))) (m_attachments m)"

section \<open>The calls of a connection\<close>

text \<open>The states and results of a call.\<close>

fun call_fits :: "call \<Rightarrow> call_state \<Rightarrow> bool" where
  "call_fits c (Start c') \<longleftrightarrow> c' = c"
| "call_fits c (Receiving ms) \<longleftrightarrow> c = ReadCall"
| "call_fits c (Sending m) \<longleftrightarrow> c = WriteCall m \<and> \<not> oversize m"
| "call_fits c (Polling m h) \<longleftrightarrow> c = WriteCall m \<and> \<not> oversize m"
| "call_fits c (Finished (ReadResult st ms)) \<longleftrightarrow> c = ReadCall"
| "call_fits c (Finished (WriteResult st)) \<longleftrightarrow> (\<exists>m. c = WriteCall m \<and> (oversize m \<longrightarrow> st = TemporaryFailure))"

lemma oversize_size: "oversize m \<longleftrightarrow> of_nat MaxBufferSize < Message_size m"
  by (simp add: oversize_def word_less_nat_alt MaxBufferSize_def)

lemma sendable_not_oversize: "sendable f m \<Longrightarrow> \<not> oversize m"
  by (simp add: sendable_def oversize_def)

lemma carries_sendable:
  assumes "sendable f m" "carries f (Message_data m) (attachment_control (m_attachments m)) p"
  shows "good_packet p" "arrives f m (packet_message p)"
proof -
  have d: "delivers f m p"
    by (rule carries_delivers [OF _ _ _ assms(2)]) (use assms(1) in \<open>auto simp: sendable_def\<close>)
  show "good_packet p"
    using assms(1) by (intro delivers_good_packet [OF _ d]) (auto simp: sendable_def)
  show "arrives f m (packet_message p)"
    using assms(1) received_message [of m f p] d by (auto simp: sendable_def arrives_def)
qed

text \<open>One step of a call for each kind of answer. None of them fails.\<close>

lemma receive_answered:
  assumes "socket_ready s" "\<forall>k. os_malloc w k"
  shows "interrupted r \<Longrightarrow> \<exists>w'. call_step (Receiving ms) s (w\<lparr>os_script := [r]\<rparr>) = Done (Receiving ms, s) w' \<and>
      os_malloc w' = os_malloc w"
    "good_packet r \<Longrightarrow> \<exists>w'. call_step (Receiving ms) s (w\<lparr>os_script := [r]\<rparr>) =
      Done (Receiving (ms @ [packet_message r]), receive_into r s) w' \<and> os_malloc w' = os_malloc w"
    "blocks r \<Longrightarrow> \<exists>w'. call_step (Receiving ms) s (w\<lparr>os_script := [r]\<rparr>) =
      Done (Finished (ReadResult Success ms), receive_into r s) w' \<and> os_malloc w' = os_malloc w"
    "r_rc r = 0 \<Longrightarrow> \<exists>w'. call_step (Receiving ms) s (w\<lparr>os_script := [r]\<rparr>) =
      Done (Finished (ReadResult PermanentFailure ms), receive_into r s) w' \<and> os_malloc w' = os_malloc w"
    "resets r \<Longrightarrow> \<exists>w'. call_step (Receiving ms) s (w\<lparr>os_script := [r]\<rparr>) =
      Done (Finished (ReadResult TemporaryFailure ms), receive_into r s) w' \<and> os_malloc w' = os_malloc w"
proof -
  show "\<exists>w'. call_step (Receiving ms) s (w\<lparr>os_script := [r]\<rparr>) =
      Done (Receiving (ms @ [packet_message r]), receive_into r s) w' \<and> os_malloc w' = os_malloc w"
    if good: "good_packet r"
  proof -
    let ?w1 = "answered (recv_call s) [r] (w\<lparr>os_script := [r]\<rparr>)"
    have "to_int (r_rc r) = r_rc r" "0 < r_rc r"
      using good by (auto simp: good_packet_def MaxBufferSize_def intro!: to_int_small)
    moreover have "read_message (receive_into r s) r (nat (to_int (r_rc r))) ?w1 =
        Done (packet_message r) (?w1\<lparr>os_mallocs := Suc (os_mallocs ?w1)\<rparr>)"
      by (rule read_message_good [OF assms(1) good]) (use assms(2) in simp)
    ultimately show ?thesis by (simp add: sys_Cons Let_def)
  qed
qed (auto simp: sys_Cons Let_def interrupted_def blocks_def resets_def)

lemma send_answered:
  assumes "sendable f m"
  shows "interrupted r \<Longrightarrow> \<exists>w'. call_step (Sending m) s (w\<lparr>os_script := [r]\<rparr>) = Done (Sending m, s) w' \<and>
      os_malloc w' = os_malloc w"
    "r_rc r = int (length (Message_data m)) \<Longrightarrow> \<exists>w'. call_step (Sending m) s (w\<lparr>os_script := [r]\<rparr>) =
      Done (Finished (WriteResult Success), s) w' \<and> os_malloc w' = os_malloc w"
    "blocks r \<Longrightarrow> \<exists>w'. call_step (Sending m) s (w\<lparr>os_script := [r]\<rparr>) =
      Done (Polling m (sk_handle s), s) w' \<and> os_malloc w' = os_malloc w"
    "r_rc r = -1 \<Longrightarrow> r_errno r = EPIPE \<Longrightarrow> \<exists>w'. call_step (Sending m) s (w\<lparr>os_script := [r]\<rparr>) =
      Done (Finished (WriteResult PermanentFailure), s) w' \<and> os_malloc w' = os_malloc w"
    "resets r \<Longrightarrow> \<exists>w'. call_step (Sending m) s (w\<lparr>os_script := [r]\<rparr>) =
      Done (Finished (WriteResult TemporaryFailure), s) w' \<and> os_malloc w' = os_malloc w"
proof -
  have len: "length (Message_data m) = unat (Message_size m)" "0 < unat (Message_size m)"
    "unat (Message_size m) \<le> MaxBufferSize"
    using assms length_Message_data by (auto simp: sendable_def Message_size_def)
  show "\<exists>w'. call_step (Sending m) s (w\<lparr>os_script := [r]\<rparr>) =
      Done (Finished (WriteResult Success), s) w' \<and> os_malloc w' = os_malloc w"
    if "r_rc r = int (length (Message_data m))"
  proof -
    have "int (unat (Message_size m)) \<le> 4096" using len(3) by (simp only: MaxBufferSize_def)
    then have "to_int (r_rc r) = int (unat (Message_size m))"
      unfolding that len(1) by (rule to_int_small [rotated]) (rule of_nat_0_le_iff)
    moreover have "uint (Message_size m) \<noteq> -1" using uint_ge_0 [of "Message_size m"] by linarith
    ultimately show ?thesis using that len by (simp add: sys_Cons Let_def int_to_size_def)
  qed
  have "int_to_size (-1) \<noteq> Message_size m"
  proof
    assume "int_to_size (-1) = Message_size m"
    then have "Message_size m = -1" by (simp add: int_to_size_def)
    with len(3) show False by (simp add: MaxBufferSize_def unsigned_minus_1_eq_mask mask_eq_exp_minus_1)
  qed
  then show "\<exists>w'. call_step (Sending m) s (w\<lparr>os_script := [r]\<rparr>) =
      Done (Finished (WriteResult PermanentFailure), s) w' \<and> os_malloc w' = os_malloc w"
    if "r_rc r = -1" "r_errno r = EPIPE"
    using that by (simp add: sys_Cons Let_def)
  from \<open>int_to_size (-1) \<noteq> Message_size m\<close>
  show "\<exists>w'. call_step (Sending m) s (w\<lparr>os_script := [r]\<rparr>) =
      Done (Finished (WriteResult TemporaryFailure), s) w' \<and> os_malloc w' = os_malloc w"
    if "resets r"
    using that by (simp add: sys_Cons Let_def resets_def)
qed (auto simp: sys_Cons Let_def interrupted_def blocks_def)

lemma poll_answered:
  "interrupted r \<Longrightarrow> \<exists>w'. call_step (Polling m h) s (w\<lparr>os_script := [r]\<rparr>) = Done (Polling m h, s) w' \<and>
      os_malloc w' = os_malloc w"
  "r_rc r = 1 \<Longrightarrow> \<exists>w'. call_step (Polling m h) s (w\<lparr>os_script := [r]\<rparr>) = Done (Sending m, s) w' \<and>
      os_malloc w' = os_malloc w"
  by (auto simp: sys_Cons interrupted_def CL_ASSERT_holds to_int_small)

section \<open>The invariant\<close>

text \<open>What one system call of a call does to the messages.\<close>

lemma work_effect:
  assumes "call_fits c cs" "call_allowed f c" "socket_ready s" "\<forall>k. os_malloc w k"
    "\<forall>p \<in> set (kn_queue K x). good_packet p" "next_call cs s = Some sc" "kernel_step cap f K x sc r K'"
  obtains cs' s' w' where "call_step cs s (w\<lparr>os_script := [r]\<rparr>) = Done (cs', s') w'"
    "call_fits c cs'" "socket_ready s'" "\<forall>k. os_malloc w' k" "kn_closed K' = kn_closed K"
    "call_ended (c, cs') \<Longrightarrow> kn_closed K (peer x) \<and> kn_queue K' x = []"
    "call_broken (c, cs') \<Longrightarrow> kn_closed K (peer x)"
    "K' = K \<and> call_sent (c, cs') = call_sent (c, cs) \<and> call_got (c, cs') = call_got (c, cs) \<or>
     (\<exists>p ps. kn_queue K x = p # ps \<and> kn_queue K' = (kn_queue K)(x := ps) \<and>
        call_sent (c, cs') = call_sent (c, cs) \<and> call_got (c, cs') = call_got (c, cs) @ [packet_message p]) \<or>
     (\<exists>m p. kn_queue K' = (kn_queue K)(peer x := kn_queue K (peer x) @ [p]) \<and> \<not> kn_closed K (peer x) \<and>
        good_packet p \<and> arrives f m (packet_message p) \<and>
        call_sent (c, cs') = call_sent (c, cs) @ [m] \<and> call_got (c, cs') = call_got (c, cs))"
proof (cases cs)
  case (Receiving ms)
  with assms(1,6) have c: "c = ReadCall" and sc: "sc = Recvmsg (sk_handle s) MaxBufferSize MaxControlBufferSize"
    by (auto simp: recv_call_def)
  note here = Receiving c assms(3,4)
  from assms(7) [unfolded sc] show ?thesis
  proof (cases rule: kernel_step.cases)
    case interrupt
    obtain w' where "call_step (Receiving ms) s (w\<lparr>os_script := [r]\<rparr>) = Done (Receiving ms, s) w'" "os_malloc w' = os_malloc w"
      using receive_answered(1) [OF assms(3,4)] interrupt by blast
    with here interrupt show ?thesis by (intro that [of "Receiving ms" s w']) simp_all
  next
    case (deliver ps)
    then have "good_packet r" using assms(5) by simp
    then obtain w' where "call_step (Receiving ms) s (w\<lparr>os_script := [r]\<rparr>) =
        Done (Receiving (ms @ [packet_message r]), receive_into r s) w'" "os_malloc w' = os_malloc w"
      using receive_answered(2) [OF assms(3,4)] by blast
    with here deliver show ?thesis
      by (intro that [of "Receiving (ms @ [packet_message r])" "receive_into r s" w']) simp_all
  next
    case empty
    obtain w' where "call_step (Receiving ms) s (w\<lparr>os_script := [r]\<rparr>) =
        Done (Finished (ReadResult Success ms), receive_into r s) w'" "os_malloc w' = os_malloc w"
      using receive_answered(3) [OF assms(3,4)] empty by blast
    with here empty show ?thesis
      by (intro that [of "Finished (ReadResult Success ms)" "receive_into r s" w']) simp_all
  next
    case eof
    obtain w' where "call_step (Receiving ms) s (w\<lparr>os_script := [r]\<rparr>) =
        Done (Finished (ReadResult PermanentFailure ms), receive_into r s) w'" "os_malloc w' = os_malloc w"
      using receive_answered(4) [OF assms(3,4)] eof by blast
    with here eof show ?thesis
      by (intro that [of "Finished (ReadResult PermanentFailure ms)" "receive_into r s" w']) simp_all
  next
    case reset_read
    obtain w' where "call_step (Receiving ms) s (w\<lparr>os_script := [r]\<rparr>) =
        Done (Finished (ReadResult TemporaryFailure ms), receive_into r s) w'" "os_malloc w' = os_malloc w"
      using receive_answered(5) [OF assms(3,4)] reset_read by blast
    with here reset_read show ?thesis
      by (intro that [of "Finished (ReadResult TemporaryFailure ms)" "receive_into r s" w']) simp_all
  qed
next
  case (Sending m)
  with assms(1,2,6) have c: "c = WriteCall m" "\<not> oversize m" and m: "sendable f m"
    and sc: "sc = Sendmsg (sk_handle s) (Message_data m) (attachment_control (m_attachments m))"
    by (auto simp: sendmsg_call_def)
  note here = Sending c assms(2,3,4)
  from assms(7) [unfolded sc] show ?thesis
  proof (cases rule: kernel_step.cases)
    case interrupt
    obtain w' where "call_step (Sending m) s (w\<lparr>os_script := [r]\<rparr>) = Done (Sending m, s) w'" "os_malloc w' = os_malloc w"
      using send_answered(1) [OF m] interrupt by blast
    with here interrupt show ?thesis by (intro that [of "Sending m" s w']) simp_all
  next
    case (accept p)
    obtain w' where "call_step (Sending m) s (w\<lparr>os_script := [r]\<rparr>) = Done (Finished (WriteResult Success), s) w'"
      "os_malloc w' = os_malloc w"
      using send_answered(2) [OF m] accept by blast
    with here accept carries_sendable [OF m] show ?thesis
      by (intro that [of "Finished (WriteResult Success)" s w']) (simp_all, blast)
  next
    case full
    obtain w' where "call_step (Sending m) s (w\<lparr>os_script := [r]\<rparr>) = Done (Polling m (sk_handle s), s) w'"
      "os_malloc w' = os_malloc w"
      using send_answered(3) [OF m] full by blast
    with here full show ?thesis by (intro that [of "Polling m (sk_handle s)" s w']) simp_all
  next
    case broken
    obtain w' where "call_step (Sending m) s (w\<lparr>os_script := [r]\<rparr>) =
        Done (Finished (WriteResult PermanentFailure), s) w'" "os_malloc w' = os_malloc w"
      using send_answered(4) [OF m] broken by blast
    with here broken show ?thesis by (intro that [of "Finished (WriteResult PermanentFailure)" s w']) simp_all
  next
    case reset_write
    obtain w' where "call_step (Sending m) s (w\<lparr>os_script := [r]\<rparr>) =
        Done (Finished (WriteResult TemporaryFailure), s) w'" "os_malloc w' = os_malloc w"
      using send_answered(5) [OF m] reset_write by blast
    with here reset_write show ?thesis by (intro that [of "Finished (WriteResult TemporaryFailure)" s w']) simp_all
  qed
next
  case (Polling m h)
  with assms(1,6) have c: "c = WriteCall m" "\<not> oversize m" and sc: "sc = PollOut h" by auto
  note here = Polling c assms(2,3,4)
  from assms(7) [unfolded sc] show ?thesis
  proof (cases rule: kernel_step.cases)
    case interrupt
    obtain w' where "call_step (Polling m h) s (w\<lparr>os_script := [r]\<rparr>) = Done (Polling m h, s) w'"
      "os_malloc w' = os_malloc w"
      using poll_answered(1) interrupt by blast
    with here interrupt show ?thesis by (intro that [of "Polling m h" s w']) simp_all
  next
    case writable
    obtain w' where "call_step (Polling m h) s (w\<lparr>os_script := [r]\<rparr>) = Done (Sending m, s) w'"
      "os_malloc w' = os_malloc w"
      using poll_answered(2) writable by blast
    with here writable show ?thesis by (intro that [of "Sending m" s w']) simp_all
  qed
qed (use assms(6) in simp_all)

text \<open>
  An end is in order: its buffers are there, what waits for it can be read, the lock is held by
  the call in progress, if any, and a closed end has none.
\<close>

definition side_ok :: "(handle \<Rightarrow> handle) \<Rightarrow> connection \<Rightarrow> side \<Rightarrow> bool" where
  "side_ok f L x \<longleftrightarrow>
     socket_ready (cn_socket L x) \<and> (\<forall>k. os_malloc (cn_os L x) k) \<and>
     (\<forall>p \<in> set (kn_queue (cn_kernel L) x). good_packet p) \<and>
     (\<forall>(c, cs) \<in> set (calls L x). call_fits c cs \<and> call_allowed f c \<and>
        (call_broken (c, cs) \<longrightarrow> kn_closed (cn_kernel L) (peer x))) \<and>
     (kn_closed (cn_kernel L) x \<longrightarrow> cn_call L x = None) \<and>
     (lk_locked (sk_lock (cn_socket L x)) \<longleftrightarrow> cn_call L x \<noteq> None)"

text \<open>
  The flow from \<open>x\<close> to its peer: what was sent has been received, waits in the queue, or is lost
  because the peer closed before it had read everything. A peer that has seen the end of the
  stream has received everything.
\<close>

definition flow_ok :: "(handle \<Rightarrow> handle) \<Rightarrow> connection \<Rightarrow> side \<Rightarrow> bool" where
  "flow_ok f L x \<longleftrightarrow>
     (\<exists>lost. list_all2 (arrives f) (sent L x)
          (got L (peer x) @ map packet_message (kn_queue (cn_kernel L) (peer x)) @ lost) \<and>
        (lost = [] \<or> kn_closed (cn_kernel L) (peer x) \<and> \<not> ended L (peer x))) \<and>
     (ended L (peer x) \<longrightarrow> kn_closed (cn_kernel L) x \<and> kn_queue (cn_kernel L) (peer x) = [])"

definition connection_inv :: "(handle \<Rightarrow> handle) \<Rightarrow> connection \<Rightarrow> bool" where
  "connection_inv f L \<longleftrightarrow> (\<forall>x. side_ok f L x \<and> flow_ok f L x)"

lemma peer_simps [simp]: "peer (peer x) = x" "peer x \<noteq> x" "x \<noteq> peer x"
  by (cases x; simp)+

lemma side_cases: "(x = z \<Longrightarrow> P) \<Longrightarrow> (x = peer z \<Longrightarrow> P) \<Longrightarrow> P"
  by (cases x; cases z) simp_all

text \<open>Only the calls and the kernel matter for the flow.\<close>

lemma flow_okI:
  assumes "flow_ok f L x" "sent L' x = sent L x" "got L' (peer x) = got L (peer x)" "ended L' (peer x) = ended L (peer x)"
    "kn_queue (cn_kernel L') (peer x) = kn_queue (cn_kernel L) (peer x)"
    "kn_closed (cn_kernel L') (peer x) = kn_closed (cn_kernel L) (peer x)"
    "kn_closed (cn_kernel L) x \<Longrightarrow> kn_closed (cn_kernel L') x"
  shows "flow_ok f L' x"
  using assms by (auto simp: flow_ok_def)

lemma calls_cong:
  assumes "calls L' x = calls L x"
  shows "sent L' x = sent L x" "got L' x = got L x" "ended L' x = ended L x"
  using assms by (simp_all add: sent_def got_def ended_def)

lemma calls_Some:
  assumes "calls L x = H @ [k]"
  shows "sent L x = concat (map call_sent H) @ call_sent k" "got L x = concat (map call_got H) @ call_got k"
    "ended L x \<longleftrightarrow> list_ex call_ended H \<or> call_ended k"
  using assms by (simp_all add: sent_def got_def ended_def)

lemma next_call_open: "next_call cs s = Some sc \<Longrightarrow> \<not> call_ended (c, cs)"
  by (cases cs) simp_all

lemma call_ok:
  assumes "side_ok f L x" "(c, cs) \<in> set (calls L x)"
  shows "call_fits c cs" "call_allowed f c"
  using assms unfolding side_ok_def by blast+

lemma begin_effect:
  assumes "call_step (Start c) s w = Done (cs', s') w'"
  shows "s' = s" "w' = w" "call_fits c cs'" "call_sent (c, cs') = []" "call_got (c, cs') = []"
    "\<not> call_ended (c, cs')" "\<not> call_broken (c, cs')"
proof -
  have "s' = s \<and> w' = w \<and> call_fits c cs' \<and> call_sent (c, cs') = [] \<and> call_got (c, cs') = [] \<and>
      \<not> call_ended (c, cs') \<and> \<not> call_broken (c, cs')"
  proof (cases c)
    case (WriteCall m)
    with assms show ?thesis by (cases "oversize m") (auto simp: oversize_size [symmetric])
  qed (use assms in auto)
  then show "s' = s" "w' = w" "call_fits c cs'" "call_sent (c, cs') = []" "call_got (c, cs') = []"
    "\<not> call_ended (c, cs')" "\<not> call_broken (c, cs')" by blast+
qed

lemma inv_enter:
  assumes "connection_inv f L" "cn_call L z = None" "\<not> kn_closed (cn_kernel L) z" "call_allowed f c"
    "Lock_lock (sk_lock (cn_socket L z)) = Some l"
  shows "connection_inv f (L\<lparr>cn_socket := (cn_socket L)(z := locked_with l (cn_socket L z)),
         cn_call := (cn_call L)(z \<mapsto> (c, Start c))\<rparr>)"
proof -
  let ?L = "L\<lparr>cn_socket := (cn_socket L)(z := locked_with l (cn_socket L z)),
         cn_call := (cn_call L)(z \<mapsto> (c, Start c))\<rparr>"
  have calls: "calls ?L z = calls L z @ [(c, Start c)]" "x \<noteq> z \<Longrightarrow> calls ?L x = calls L x" for x
    using assms(2) by (simp_all add: calls_def)
  then have "sent ?L x = sent L x" "got ?L x = got L x" "ended ?L x = ended L x" for x
    by (cases "x = z"; simp add: sent_def got_def ended_def)+
  then have "flow_ok f ?L x" if "flow_ok f L x" for x
    by (intro flow_okI [OF that]) simp_all
  moreover have "side_ok f ?L x" if "side_ok f L x" for x
    using that assms calls pthread_mutex.acquired_held [OF assms(5)]
    by (cases "x = z") (auto simp: side_ok_def locked_with_def socket_ready_def)
  ultimately show ?thesis using assms(1) by (simp add: connection_inv_def)
qed

text \<open>A call that moves on, with what it sends, gets and sees.\<close>

lemma calls_move:
  assumes "cn_call L z = Some k" "cn_log L' = cn_log L" "cn_call L' = (cn_call L)(z \<mapsto> k')"
  obtains H where "calls L z = H @ [k]" "calls L' z = H @ [k']" "calls L' (peer z) = calls L (peer z)"
  using assms by (intro that [of "map (\<lambda>(c, res). (c, Finished res)) (cn_log L z)"]) (simp_all add: calls_def)

lemma inv_begin:
  assumes "connection_inv f L" "cn_call L z = Some (c, Start c)"
    "call_step (Start c) (cn_socket L z) (cn_os L z) = Done (cs', s') w'"
  shows "connection_inv f (L\<lparr>cn_socket := (cn_socket L)(z := s'), cn_os := (cn_os L)(z := w'),
         cn_call := (cn_call L)(z \<mapsto> (c, cs'))\<rparr>)"
proof -
  define L' where "L' = L\<lparr>cn_socket := (cn_socket L)(z := s'), cn_os := (cn_os L)(z := w'),
         cn_call := (cn_call L)(z \<mapsto> (c, cs'))\<rparr>"
  have L': "cn_socket L' = (cn_socket L)(z := s')" "cn_os L' = (cn_os L)(z := w')"
    "cn_call L' = (cn_call L)(z \<mapsto> (c, cs'))" "cn_log L' = cn_log L" "cn_kernel L' = cn_kernel L"
    by (simp_all add: L'_def)
  obtain H where H: "calls L z = H @ [(c, Start c)]" "calls L' z = H @ [(c, cs')]"
    "calls L' (peer z) = calls L (peer z)"
    by (rule calls_move [OF assms(2) L'(4,3)])
  note new = begin_effect [OF assms(3)]
  have "sent L' x = sent L x \<and> got L' x = got L x \<and> ended L' x = ended L x" for x
  proof (cases x z rule: side_cases)
    case 1
    then show ?thesis using calls_Some [OF H(1)] calls_Some [OF H(2)] new by simp
  next
    case 2
    then show ?thesis using calls_cong [OF H(3)] by simp
  qed
  then have "flow_ok f L' x" if "flow_ok f L x" for x
    by (intro flow_okI [OF that]) (simp_all add: L')
  moreover have "side_ok f L' x" if "side_ok f L x" for x
  proof (cases x z rule: side_cases)
    case 1
    with that H new assms(2) L' show ?thesis by (auto simp: side_ok_def)
  next
    case 2
    with that H new assms(2) L' show ?thesis by (simp add: side_ok_def)
  qed
  ultimately show ?thesis using assms(1) unfolding L'_def [symmetric] by (simp add: connection_inv_def)
qed

lemma inv_work:
  assumes "connection_inv f L" "cn_call L z = Some (c, cs)" "next_call cs (cn_socket L z) = Some sc"
    "kernel_step cap f (cn_kernel L) z sc r K'"
    "call_step cs (cn_socket L z) ((cn_os L z)\<lparr>os_script := [r]\<rparr>) = Done (cs', s') w'"
  shows "connection_inv f (L\<lparr>cn_socket := (cn_socket L)(z := s'), cn_os := (cn_os L)(z := w'),
         cn_call := (cn_call L)(z \<mapsto> (c, cs')), cn_kernel := K'\<rparr>)"
proof -
  define L' where "L' = L\<lparr>cn_socket := (cn_socket L)(z := s'), cn_os := (cn_os L)(z := w'),
         cn_call := (cn_call L)(z \<mapsto> (c, cs')), cn_kernel := K'\<rparr>"
  have L': "cn_socket L' = (cn_socket L)(z := s')" "cn_os L' = (cn_os L)(z := w')"
    "cn_call L' = (cn_call L)(z \<mapsto> (c, cs'))" "cn_log L' = cn_log L" "cn_kernel L' = K'"
    by (simp_all add: L'_def)
  let ?K = "cn_kernel L"
  obtain H where H: "calls L z = H @ [(c, cs)]" "calls L' z = H @ [(c, cs')]"
    "calls L' (peer z) = calls L (peer z)"
    by (rule calls_move [OF assms(2) L'(4,3)])
  have ok: "side_ok f L x" "flow_ok f L x" for x using assms(1) by (simp_all add: connection_inv_def)
  have pre: "call_fits c cs" "call_allowed f c" "socket_ready (cn_socket L z)" "\<forall>k. os_malloc (cn_os L z) k"
    "\<forall>p \<in> set (kn_queue ?K z). good_packet p" "\<not> kn_closed ?K z"
    using ok(1) [of z] H(1) assms(2) by (auto simp: side_ok_def)
  have eff: "call_fits c cs'" "socket_ready s'" "\<forall>k. os_malloc w' k" "kn_closed K' = kn_closed ?K"
    "call_ended (c, cs') \<Longrightarrow> kn_closed ?K (peer z) \<and> kn_queue K' z = []"
    "call_broken (c, cs') \<Longrightarrow> kn_closed ?K (peer z)"
    "K' = ?K \<and> call_sent (c, cs') = call_sent (c, cs) \<and> call_got (c, cs') = call_got (c, cs) \<or>
     (\<exists>p ps. kn_queue ?K z = p # ps \<and> kn_queue K' = (kn_queue ?K)(z := ps) \<and>
        call_sent (c, cs') = call_sent (c, cs) \<and> call_got (c, cs') = call_got (c, cs) @ [packet_message p]) \<or>
     (\<exists>m p. kn_queue K' = (kn_queue ?K)(peer z := kn_queue ?K (peer z) @ [p]) \<and> \<not> kn_closed ?K (peer z) \<and>
        good_packet p \<and> arrives f m (packet_message p) \<and>
        call_sent (c, cs') = call_sent (c, cs) @ [m] \<and> call_got (c, cs') = call_got (c, cs))"
    by (rule work_effect [OF pre(1-5) assms(3,4)]; use assms(5) in auto)+
  have "side_ok f L' x" for x
  proof (cases x z rule: side_cases)
    case 1
    with ok(1) [of z] H eff pre assms(2) call_step_frame [OF assms(5)] L' show ?thesis
      by (auto simp: side_ok_def)
  next
    case 2
    with ok(1) [of "peer z"] H eff L' show ?thesis by (auto simp: side_ok_def)
  qed
  moreover have "flow_ok f L' x" for x
  proof (cases x z rule: side_cases)
    case 1
    from ok(2) [of z] pre(6) obtain lost where
      flow: "list_all2 (arrives f) (sent L z) (got L (peer z) @ map packet_message (kn_queue ?K (peer z)) @ lost)"
      "lost = [] \<or> kn_closed ?K (peer z)" and run: "\<not> ended L (peer z)"
      by (auto simp: flow_ok_def)
    have same: "got L' (peer z) = got L (peer z)" "ended L' (peer z) = ended L (peer z)"
      by (rule calls_cong [OF H(3)])+
    from eff(7) have "list_all2 (arrives f) (sent L' z)
        (got L' (peer z) @ map packet_message (kn_queue K' (peer z)) @ lost)"
    proof (elim disjE exE conjE)
      fix m p
      assume "kn_queue K' = (kn_queue ?K)(peer z := kn_queue ?K (peer z) @ [p])" "\<not> kn_closed ?K (peer z)"
        "arrives f m (packet_message p)" "call_sent (c, cs') = call_sent (c, cs) @ [m]"
      with flow same show ?thesis
        by (auto simp: calls_Some(1) [OF H(1)] calls_Some(1) [OF H(2)] simp flip: append_assoc
            intro!: list_all2_appendI)
    qed (use flow same in \<open>simp_all add: calls_Some(1) [OF H(1)] calls_Some(1) [OF H(2)]\<close>)
    with 1 flow(2) run same eff(4) L' show ?thesis by (auto simp: flow_ok_def)
  next
    case 2
    from ok(2) [of "peer z"] pre(6) have
      flow: "list_all2 (arrives f) (sent L (peer z)) (got L z @ map packet_message (kn_queue ?K z))" and
      over: "ended L z \<Longrightarrow> kn_closed ?K (peer z) \<and> kn_queue ?K z = []"
      by (auto simp: flow_ok_def)
    have same: "sent L' (peer z) = sent L (peer z)" by (rule calls_cong [OF H(3)])
    have "\<not> call_ended (c, cs)" by (rule next_call_open [OF assms(3)])
    then have ended: "ended L' z \<longleftrightarrow> ended L z \<or> call_ended (c, cs')"
      by (auto simp: calls_Some(3) [OF H(1)] calls_Some(3) [OF H(2)])
    from eff(7) have "list_all2 (arrives f) (sent L' (peer z)) (got L' z @ map packet_message (kn_queue K' z)) \<and>
        (ended L z \<longrightarrow> kn_queue K' z = [])"
    proof (elim disjE exE conjE)
      fix p ps
      assume "kn_queue ?K z = p # ps" "kn_queue K' = (kn_queue ?K)(z := ps)"
        "call_got (c, cs') = call_got (c, cs) @ [packet_message p]"
      with flow same over show ?thesis
        by (auto simp: calls_Some(2) [OF H(1)] calls_Some(2) [OF H(2)])
    qed (use flow same over in \<open>auto simp: calls_Some(2) [OF H(1)] calls_Some(2) [OF H(2)]\<close>)
    with ended eff(4,5) over L' show ?thesis
      unfolding flow_ok_def 2 peer_simps(1) by (intro conjI exI [of _ "[]"]) auto
  qed
  ultimately show ?thesis unfolding L'_def [symmetric] by (simp add: connection_inv_def)
qed

lemma inv_leave:
  assumes "connection_inv f L" "cn_call L z = Some (c, Finished res)"
  shows "connection_inv f (L\<lparr>cn_socket := (cn_socket L)(z := locked_with (Lock_unlock (sk_lock (cn_socket L z))) (cn_socket L z)),
         cn_call := (cn_call L)(z := None), cn_log := (cn_log L)(z := cn_log L z @ [(c, res)])\<rparr>)"
    (is "connection_inv f ?L")
proof -
  have calls: "calls ?L x = calls L x" for x
    using assms(2) by (cases "x = z") (simp_all add: calls_def)
  have "flow_ok f ?L x" if "flow_ok f L x" for x
    by (rule flow_okI [OF that]) (simp_all add: calls_cong [OF calls])
  moreover have "side_ok f ?L x" if "side_ok f L x" for x
    using that calls assms(2) pthread_mutex.release_frees [of "sk_lock (cn_socket L z)"]
    by (cases "x = z") (auto simp: side_ok_def locked_with_def socket_ready_def)
  ultimately show ?thesis using assms(1) by (simp add: connection_inv_def)
qed

lemma inv_close:
  assumes "connection_inv f L" "cn_call L z = None"
    "kernel_step cap f (cn_kernel L) z (Close (sk_handle (cn_socket L z))) r K'"
    "Socket_close (cn_socket L z) ((cn_os L z)\<lparr>os_script := [r]\<rparr>) = Done (True, s') w'"
  shows "connection_inv f (L\<lparr>cn_socket := (cn_socket L)(z := s'), cn_os := (cn_os L)(z := w'), cn_kernel := K'\<rparr>)"
    (is "connection_inv f ?L")
proof -
  let ?K = "cn_kernel L"
  have K': "kn_closed K' = (kn_closed ?K)(z := True)" "kn_queue K' = (kn_queue ?K)(z := [])"
    using assms(3) by (cases rule: kernel_step.cases; auto)+
  have s': "socket_ready (cn_socket L z) \<Longrightarrow> socket_ready s'" "sk_lock s' = sk_lock (cn_socket L z)"
    using sock.close_result(3) [OF assms(4)] by (auto simp: socket_ready_def)
  have "forward (\<lambda>_. True) (Socket_close (cn_socket L z))"
    unfolding Socket_close_def by (intro forward_intros) simp_all
  from forward_Done [OF this assms(4)] have w': "os_malloc w' = os_malloc (cn_os L z)"
    by (simp add: os_le_malloc)
  have calls: "calls ?L x = calls L x" for x by (simp add: calls_def)
  have ok: "side_ok f L x" "flow_ok f L x" for x using assms(1) by (simp_all add: connection_inv_def)
  have "side_ok f ?L x" for x
    using ok(1) [of x] calls K' s' w' assms(2) by (cases "x = z") (auto simp: side_ok_def)
  moreover have "flow_ok f ?L x" for x
  proof (cases x z rule: side_cases)
    case 1
    show ?thesis by (rule flow_okI [OF ok(2)]) (simp_all add: calls_cong [OF calls] K' 1)
  next
    case 2
    from ok(2) [of "peer z"] obtain lost where
      "list_all2 (arrives f) (sent L (peer z)) (got L z @ map packet_message (kn_queue ?K z) @ lost)"
      "lost = [] \<or> \<not> ended L z" "ended L z \<longrightarrow> kn_closed ?K (peer z) \<and> kn_queue ?K z = []"
      by (auto simp: flow_ok_def)
    with 2 K' show ?thesis
      by (auto simp: flow_ok_def calls_cong [OF calls]
          intro!: exI [of _ "map packet_message (kn_queue ?K z) @ lost"])
  qed
  ultimately show ?thesis by (simp add: connection_inv_def)
qed

lemma inv_step: "connection_inv f L \<Longrightarrow> connection_step cap f L z L' \<Longrightarrow> connection_inv f L'"
  by (erule connection_stepE) (simp_all add: inv_enter inv_begin inv_work inv_leave inv_close)

lemma inv_start: "ends_ready s w \<Longrightarrow> connection_inv f (connection_start s w)"
  by (simp add: connection_inv_def side_ok_def flow_ok_def ends_ready_def connection_start_def calls_def sent_def
      got_def ended_def)

lemma inv_reach:
  "connection_reach cap f (connection_start s w) L \<Longrightarrow> ends_ready s w \<Longrightarrow> connection_inv f L"
  by (induction rule: connection_reach.induct) (auto intro: inv_start inv_step)

section \<open>Calls that return\<close>

text \<open>The end \<open>x\<close> can bring its call to a return without its peer.\<close>

definition finishes :: "nat \<Rightarrow> (handle \<Rightarrow> handle) \<Rightarrow> connection \<Rightarrow> side \<Rightarrow> bool" where
  "finishes cap f L x \<longleftrightarrow> (\<exists>L'. (\<lambda>A B. connection_step cap f A x B)\<^sup>*\<^sup>* L L' \<and> cn_call L' x = None)"

lemma finishes_step: "connection_step cap f L x L' \<Longrightarrow> finishes cap f L' x \<Longrightarrow> finishes cap f L x"
  unfolding finishes_def by (meson converse_rtranclp_into_rtranclp)

lemma finishes_leave: "cn_call L x = Some (c, Finished res) \<Longrightarrow> finishes cap f L x"
  unfolding finishes_def
  by (rule exI, rule conjI, rule r_into_rtranclp, erule connection_step.leave) simp

lemma finishes_work:
  assumes "connection_inv f L" "cn_call L x = Some (c, cs)" "next_call cs (cn_socket L x) = Some sc"
    "kernel_step cap f (cn_kernel L) x sc r K'"
    "call_step cs (cn_socket L x) ((cn_os L x)\<lparr>os_script := [r]\<rparr>) = Done (cs', s') w'"
    "\<And>L'. connection_inv f L' \<Longrightarrow> cn_call L' x = Some (c, cs') \<Longrightarrow> cn_kernel L' = K' \<Longrightarrow> finishes cap f L' x"
  shows "finishes cap f L x"
  by (rule finishes_step [OF connection_step.work [OF assms(2-5)]], rule assms(6) [OF inv_work [OF assms(1-5)]])
    simp_all

lemma inv_side: "connection_inv f L \<Longrightarrow> side_ok f L x"
  by (simp add: connection_inv_def)

lemma finishes_receiving:
  assumes "connection_inv f L" "cn_call L x = Some (ReadCall, Receiving ms)"
  shows "finishes cap f L x"
  using assms
proof (induction "kn_queue (cn_kernel L) x" arbitrary: L ms)
  case Nil
  note ok = inv_side [OF Nil.prems(1), of x, unfolded side_ok_def]
  have sc: "next_call (Receiving ms) (cn_socket L x) = Some (Recvmsg (sk_handle (cn_socket L x)) MaxBufferSize MaxControlBufferSize)"
    by (simp add: recv_call_def)
  show ?case
  proof (cases "kn_closed (cn_kernel L) (peer x)")
    case True
    obtain w' where "call_step (Receiving ms) (cn_socket L x) ((cn_os L x)\<lparr>os_script := [reply 0 ENONE]\<rparr>) =
        Done (Finished (ReadResult PermanentFailure ms), receive_into (reply 0 ENONE) (cn_socket L x)) w'"
      using receive_answered(4) [of "cn_socket L x"] ok by (metis reply_simps(1))
    from finishes_work [OF Nil.prems sc kernel_step.eof [OF Nil.hyps [symmetric] True] this] show ?thesis
      by (simp add: finishes_leave)
  next
    case False
    have b: "blocks (reply (-1) EAGAIN)" by (simp add: blocks_def)
    obtain w' where "call_step (Receiving ms) (cn_socket L x) ((cn_os L x)\<lparr>os_script := [reply (-1) EAGAIN]\<rparr>) =
        Done (Finished (ReadResult Success ms), receive_into (reply (-1) EAGAIN) (cn_socket L x)) w'"
      using receive_answered(3) [of "cn_socket L x" "cn_os L x", OF _ _ b] ok by blast
    from finishes_work [OF Nil.prems sc kernel_step.empty [OF Nil.hyps [symmetric] False b] this] show ?thesis
      by (simp add: finishes_leave)
  qed
next
  case (Cons p ps)
  note ok = inv_side [OF Cons.prems(1), of x, unfolded side_ok_def]
  have sc: "next_call (Receiving ms) (cn_socket L x) = Some (Recvmsg (sk_handle (cn_socket L x)) MaxBufferSize MaxControlBufferSize)"
    by (simp add: recv_call_def)
  have "good_packet p" using ok Cons.hyps(2) [symmetric] by simp
  then obtain w' where "call_step (Receiving ms) (cn_socket L x) ((cn_os L x)\<lparr>os_script := [p]\<rparr>) =
      Done (Receiving (ms @ [packet_message p]), receive_into p (cn_socket L x)) w'"
    using receive_answered(2) [of "cn_socket L x" "cn_os L x"] ok by blast
  from finishes_work [OF Cons.prems sc kernel_step.deliver [OF Cons.hyps(2) [symmetric]] this] Cons.hyps(1)
  show ?case by simp
qed

lemma sendable_packet:
  assumes "sendable f m"
  shows "\<exists>p. carries f (Message_data m) (attachment_control (m_attachments m)) p"
proof -
  from assms obtain bs where "Message_data m = determined bs" by (auto simp: sendable_def)
  then show ?thesis
    by (intro exI [of _ "(reply (int (length (Message_data m))) ENONE)\<lparr>r_bytes := bs, r_cmsgs :=
          map (\<lambda>c. c\<lparr>cmsg_data := bytes_of_int (f (int_of_bytes (cmsg_data c)))\<rparr>) (attachment_control (m_attachments m))\<rparr>"])
      (simp add: carries_def)
qed

lemma finishes_sending:
  assumes "connection_inv f L" "cn_call L x = Some (WriteCall m, Sending m)" "sendable f m"
    "kn_closed (cn_kernel L) (peer x) \<or> length (kn_queue (cn_kernel L) (peer x)) < cap"
  shows "finishes cap f L x"
proof -
  have sc: "next_call (Sending m) (cn_socket L x) =
      Some (Sendmsg (sk_handle (cn_socket L x)) (Message_data m) (attachment_control (m_attachments m)))"
    by (simp add: sendmsg_call_def)
  show ?thesis
  proof (cases "kn_closed (cn_kernel L) (peer x)")
    case True
    obtain w' where "call_step (Sending m) (cn_socket L x) ((cn_os L x)\<lparr>os_script := [reply (-1) EPIPE]\<rparr>) =
        Done (Finished (WriteResult PermanentFailure), cn_socket L x) w'"
      using send_answered(4) [OF assms(3), of "reply (-1) EPIPE"] by auto
    from finishes_work [OF assms(1,2) sc kernel_step.broken [OF True] this] show ?thesis
      by (simp add: finishes_leave)
  next
    case False
    with assms(4) have room: "length (kn_queue (cn_kernel L) (peer x)) < cap" by simp
    let ?r = "reply (int (length (Message_data m))) ENONE"
    obtain p where p: "carries f (Message_data m) (attachment_control (m_attachments m)) p"
      using sendable_packet [OF assms(3)] by blast
    obtain w' where "call_step (Sending m) (cn_socket L x) ((cn_os L x)\<lparr>os_script := [?r]\<rparr>) =
        Done (Finished (WriteResult Success), cn_socket L x) w'"
      using send_answered(2) [OF assms(3), of ?r] by (metis reply_simps(1))
    from finishes_work [OF assms(1,2) sc kernel_step.accept [OF False room p] this] show ?thesis
      by (simp add: finishes_leave)
  qed
qed

lemma finishes_polling:
  assumes "connection_inv f L" "cn_call L x = Some (WriteCall m, Polling m h)" "sendable f m"
    "kn_closed (cn_kernel L) (peer x) \<or> length (kn_queue (cn_kernel L) (peer x)) < cap"
  shows "finishes cap f L x"
proof -
  obtain w' where "call_step (Polling m h) (cn_socket L x) ((cn_os L x)\<lparr>os_script := [reply 1 ENONE]\<rparr>) =
      Done (Sending m, cn_socket L x) w'"
    using poll_answered(2) [of "reply 1 ENONE"] by (metis reply_simps(1))
  from finishes_work [OF assms(1,2) next_call.simps(3) kernel_step.writable [OF assms(4)] this] show ?thesis
    using finishes_sending [OF _ _ assms(3)] assms(4) by simp
qed

lemma finishes_start:
  assumes "connection_inv f L" "cn_call L x = Some (c, Start c)" "call_allowed f c"
    "\<And>m. c = WriteCall m \<Longrightarrow> \<not> oversize m \<Longrightarrow>
       kn_closed (cn_kernel L) (peer x) \<or> length (kn_queue (cn_kernel L) (peer x)) < cap"
  shows "finishes cap f L x"
proof -
  obtain cs' where begin_step: "call_step (Start c) (cn_socket L x) (cn_os L x) = Done (cs', cn_socket L x) (cn_os L x)"
    and cs': "cs' = (case c of ReadCall \<Rightarrow> Receiving []
      | WriteCall m \<Rightarrow> if oversize m then Finished (WriteResult TemporaryFailure) else Sending m)"
    by (cases c) (simp_all add: oversize_size)
  note go = connection_step.begin_call [OF assms(2) begin_step]
    and inv = inv_begin [OF assms(1,2) begin_step]
  show ?thesis
  proof (cases c)
    case ReadCall
    show ?thesis by (rule finishes_step [OF go], rule finishes_receiving [OF inv]) (simp add: cs' ReadCall)
  next
    case (WriteCall m)
    show ?thesis
    proof (cases "oversize m")
      case True
      show ?thesis by (rule finishes_step [OF go], rule finishes_leave) (simp add: cs' WriteCall True)
    next
      case False
      show ?thesis
        by (rule finishes_step [OF go], rule finishes_sending [OF inv])
          (use assms(3,4) WriteCall False in \<open>simp_all add: cs'\<close>)
    qed
  qed
qed

text \<open>A write of a message that is not too large and has no room, towards a peer that is there.\<close>

definition blocked :: "nat \<Rightarrow> connection \<Rightarrow> side \<Rightarrow> bool" where
  "blocked cap L x \<longleftrightarrow>
     (\<exists>m cs. cn_call L x = Some (WriteCall m, cs) \<and> \<not> oversize m \<and> (\<forall>res. cs \<noteq> Finished res)) \<and>
     \<not> kn_closed (cn_kernel L) (peer x) \<and> cap \<le> length (kn_queue (cn_kernel L) (peer x))"

lemma blocked_call:
  assumes "connection_inv f L" "blocked cap L x"
  obtains m cs where "cn_call L x = Some (WriteCall m, cs)" "sendable f m"
    "cs = Start (WriteCall m) \<or> cs = Sending m \<or> (\<exists>h. cs = Polling m h)"
proof -
  from assms(2) obtain m cs where c: "cn_call L x = Some (WriteCall m, cs)" "\<not> oversize m" "\<forall>res. cs \<noteq> Finished res"
    by (auto simp: blocked_def)
  then have "(WriteCall m, cs) \<in> set (calls L x)" by (simp add: calls_def)
  note ok = call_ok [OF inv_side [OF assms(1)] this]
  then have m: "sendable f m" using c(2) by simp
  show ?thesis using ok(1) c by (cases cs) (auto intro: that [OF c(1) m])
qed

lemma blocked_step:
  assumes "connection_inv f L" "blocked cap L x" "connection_step cap f L x L'"
  shows "blocked cap L' x"
proof -
  from assms(1,2) obtain m cs where c: "cn_call L x = Some (WriteCall m, cs)" "sendable f m"
    "cs = Start (WriteCall m) \<or> cs = Sending m \<or> (\<exists>h. cs = Polling m h)"
    by (rule blocked_call)
  note full = assms(2) [unfolded blocked_def] and small = sendable_not_oversize [OF c(2)]
  from assms(3) show ?thesis
  proof (cases rule: connection_step.cases)
    case (enter c' l)
    with c show ?thesis by simp
  next
    case (begin_call c' cs' s' w')
    with c full small show ?thesis by (auto simp: blocked_def oversize_size)
  next
    case (work c' cs1 sc r K' cs' s' w')
    with c have cs: "cs1 = cs" "c' = WriteCall m" by simp_all
    from c(3) show ?thesis
    proof (elim disjE exE)
      assume "cs = Start (WriteCall m)"
      with work cs show ?thesis by simp
    next
      assume S: "cs = Sending m"
      with work cs have "kernel_step cap f (cn_kernel L) x (sendmsg_call m (cn_socket L x)) r K'" by simp
      then have "K' = cn_kernel L \<and> (interrupted r \<or> blocks r)"
        unfolding sendmsg_call_def by (cases rule: kernel_step.cases) (use full in auto)
      with work cs S full small send_answered(1,3) [OF c(2), of r "cn_socket L x" "cn_os L x"] show ?thesis
        by (auto simp: blocked_def simp del: call_step.simps)
    next
      fix h assume P: "cs = Polling m h"
      with work cs have "kernel_step cap f (cn_kernel L) x (PollOut h) r K'" by simp
      then have "K' = cn_kernel L \<and> interrupted r"
        by (cases rule: kernel_step.cases) (use full in auto)
      with work cs P full small poll_answered(1) [of r m h "cn_socket L x" "cn_os L x"] show ?thesis
        by (auto simp: blocked_def simp del: call_step.simps)
    qed
  next
    case (leave c' res)
    with c show ?thesis by auto
  next
    case (close r K' s' w')
    with c show ?thesis by simp
  qed
qed

lemma blocked_steps:
  assumes "(\<lambda>A B. connection_step cap f A x B)\<^sup>*\<^sup>* L L'" "connection_inv f L" "blocked cap L x"
  shows "connection_inv f L' \<and> blocked cap L' x"
  using assms by (induction rule: rtranclp_induct) (blast intro: inv_step blocked_step)+

lemma finishes_iff:
  assumes "connection_inv f L"
  shows "finishes cap f L x \<longleftrightarrow> \<not> blocked cap L x"
proof
  assume "finishes cap f L x"
  then obtain L' where L': "(\<lambda>A B. connection_step cap f A x B)\<^sup>*\<^sup>* L L'" "cn_call L' x = None"
    by (auto simp: finishes_def)
  show "\<not> blocked cap L x"
  proof
    assume "blocked cap L x"
    from blocked_steps [OF L'(1) assms this] L'(2) show False by (simp add: blocked_def)
  qed
next
  assume free: "\<not> blocked cap L x"
  show "finishes cap f L x"
  proof (cases "cn_call L x")
    case None
    then show ?thesis by (auto simp: finishes_def)
  next
    case (Some k)
    obtain c cs where k: "k = (c, cs)" by (cases k)
    then have "(c, cs) \<in> set (calls L x)" using Some by (simp add: calls_def)
    with inv_side [OF assms, of x] have fits: "call_fits c cs" "call_allowed f c" by (auto simp: side_ok_def)
    have room: "kn_closed (cn_kernel L) (peer x) \<or> length (kn_queue (cn_kernel L) (peer x)) < cap"
      if "c = WriteCall m" "\<not> oversize m" "\<forall>res. cs \<noteq> Finished res" for m
      using free that Some k by (auto simp: blocked_def)
    show ?thesis
    proof (cases cs)
      case (Start c')
      with fits Some k room show ?thesis by (intro finishes_start [OF assms, of x c]) auto
    next
      case (Receiving ms)
      with fits Some k show ?thesis by (intro finishes_receiving [OF assms]) auto
    next
      case (Sending m)
      with fits Some k room show ?thesis by (intro finishes_sending [OF assms]) auto
    next
      case (Polling m h)
      with fits Some k room show ?thesis by (intro finishes_polling [OF assms]) auto
    next
      case (Finished res)
      with Some k show ?thesis by (intro finishes_leave) simp
    qed
  qed
qed

section \<open>Results\<close>

lemma logged_result:
  assumes "connection_inv f L"
  shows "\<forall>(c, res) \<in> set (cn_log L x).
      (case res of
         ReadResult st ms \<Rightarrow> c = ReadCall \<and> (st = Success \<or> kn_closed (cn_kernel L) (peer x))
       | WriteResult st \<Rightarrow> (\<exists>m. c = WriteCall m \<and>
           (if oversize m then st = TemporaryFailure else st = Success \<or> kn_closed (cn_kernel L) (peer x))))"
proof
  fix k assume k: "k \<in> set (cn_log L x)"
  obtain c res where cr: "k = (c, res)" by (cases k)
  with k have mem: "(c, Finished res) \<in> set (calls L x)" by (force simp: calls_def)
  with inv_side [OF assms, of x, unfolded side_ok_def]
  have fits: "call_fits c (Finished res)" "call_broken (c, Finished res) \<Longrightarrow> kn_closed (cn_kernel L) (peer x)"
    by auto
  have "flow_ok f L (peer x)" using assms by (simp add: connection_inv_def)
  then have "ended L x \<Longrightarrow> kn_closed (cn_kernel L) (peer x)" by (simp add: flow_ok_def)
  with mem have over: "call_ended (c, Finished res) \<Longrightarrow> kn_closed (cn_kernel L) (peer x)"
    by (auto simp: ended_def list_ex_iff)
  show "case k of (c, res) \<Rightarrow> case res of
         ReadResult st ms \<Rightarrow> c = ReadCall \<and> (st = Success \<or> kn_closed (cn_kernel L) (peer x))
       | WriteResult st \<Rightarrow> (\<exists>m. c = WriteCall m \<and>
           (if oversize m then st = TemporaryFailure else st = Success \<or> kn_closed (cn_kernel L) (peer x)))"
  proof (cases res)
    case (ReadResult st ms)
    with cr fits over show ?thesis by (cases st) simp_all
  next
    case (WriteResult st)
    with cr fits show ?thesis by (cases st) auto
  qed
qed

section \<open>Properties\<close>

text \<open>
  C3: A connection is a reliable queue, for messages that are sendable (see there). However the calls of the two processes interleave, down to
  their system calls, the messages one end has received, then those that wait in the kernel,
  are the messages the other end has sent, in the same order, each once and with the same bytes
  and descriptors; only an end that closes with messages unread loses them. An end that was
  told that its peer is gone has received everything the peer sent.
\<close>

theorem Connection_fifo:
  assumes "ends_ready s w" "connection_reach cap f (connection_start s w) L"
  shows "(\<exists>lost. list_all2 (arrives f) (sent L x)
        (got L (peer x) @ map packet_message (kn_queue (cn_kernel L) (peer x)) @ lost) \<and>
      (lost = [] \<or> kn_closed (cn_kernel L) (peer x))) \<and>
    (ended L (peer x) \<longrightarrow> kn_closed (cn_kernel L) x \<and> list_all2 (arrives f) (sent L x) (got L (peer x)))"
  using inv_reach [OF assms(2,1)] by (fastforce simp: connection_inv_def flow_ok_def)

text \<open>
  C17: The results of the calls mean what they say, for reads and for writes of messages that are
  either larger than 4096 bytes or not empty, initialised and with at most one descriptor. A write
  of a message that is too large is a temporary failure, always, and makes no system call. Any other
  write, and any read, reports a failure only when the peer is closed, so while both ends are open
  every such call that returns has succeeded; and no answer of the kernel makes a call fail an
  assertion or touch memory it should not.
\<close>

theorem Connection_results:
  assumes "ends_ready s w" "connection_reach cap f (connection_start s w) L"
  shows "(\<forall>(c, res) \<in> set (cn_log L x).
      (case res of
         ReadResult st ms \<Rightarrow> c = ReadCall \<and> (st = Success \<or> kn_closed (cn_kernel L) (peer x))
       | WriteResult st \<Rightarrow> (\<exists>m. c = WriteCall m \<and>
           (if oversize m then st = TemporaryFailure else st = Success \<or> kn_closed (cn_kernel L) (peer x))))) \<and>
    (\<forall>m cs. cn_call L x = Some (WriteCall m, cs) \<longrightarrow> oversize m \<longrightarrow> next_call cs (cn_socket L x) = None) \<and>
    (\<forall>c cs sc r K'. cn_call L x = Some (c, cs) \<longrightarrow> next_call cs (cn_socket L x) = Some sc \<longrightarrow>
      kernel_step cap f (cn_kernel L) x sc r K' \<longrightarrow>
      (\<exists>a w'. call_step cs (cn_socket L x) ((cn_os L x)\<lparr>os_script := [r]\<rparr>) = Done a w'))"
proof (intro conjI allI impI)
  have inv: "connection_inv f L" by (rule inv_reach [OF assms(2,1)])
  note ok = inv_side [OF inv, of x, unfolded side_ok_def]
  show "\<forall>(c, res) \<in> set (cn_log L x).
      (case res of
         ReadResult st ms \<Rightarrow> c = ReadCall \<and> (st = Success \<or> kn_closed (cn_kernel L) (peer x))
       | WriteResult st \<Rightarrow> (\<exists>m. c = WriteCall m \<and>
           (if oversize m then st = TemporaryFailure else st = Success \<or> kn_closed (cn_kernel L) (peer x))))"
    using logged_result [OF inv] by blast
  show "next_call cs (cn_socket L x) = None" if "cn_call L x = Some (WriteCall m, cs)" "oversize m" for m cs
  proof -
    have "(WriteCall m, cs) \<in> set (calls L x)" using that(1) by (simp add: calls_def)
    with ok have "call_fits (WriteCall m) cs" by auto
    with that(2) show ?thesis by (cases cs) auto
  qed
  fix c cs sc r K'
  assume a: "cn_call L x = Some (c, cs)" "next_call cs (cn_socket L x) = Some sc"
    "kernel_step cap f (cn_kernel L) x sc r K'"
  then have "(c, cs) \<in> set (calls L x)" by (simp add: calls_def)
  then have pre: "call_fits c cs" "call_allowed f c" "socket_ready (cn_socket L x)"
    "\<forall>k. os_malloc (cn_os L x) k" "\<forall>p \<in> set (kn_queue (cn_kernel L) x). good_packet p"
    using ok by auto
  show "\<exists>a w'. call_step cs (cn_socket L x) ((cn_os L x)\<lparr>os_script := [r]\<rparr>) = Done a w'"
    by (rule work_effect [OF pre a(2,3)]) blast
qed

text \<open>
  C15: Calls return. A call in progress can be brought to its return by its own end alone, whatever
  the peer is doing, unless it is a write, of a message that is not too large, to an open peer whose queue is full; that write cannot
  return until the peer reads or closes. In particular every read returns.
\<close>

theorem Connection_calls_return:
  assumes "ends_ready s w" "connection_reach cap f (connection_start s w) L"
  shows "finishes cap f L x \<longleftrightarrow> \<not> blocked cap L x"
  by (rule finishes_iff [OF inv_reach [OF assms(2,1)]])

section \<open>Examples of the properties\<close>

definition two_ends :: connection where
  "two_ends = connection_start (\<lambda>_. open_socket 5) (\<lambda>_. start_os False [])"

lemma two_ends_ready: "ends_ready (\<lambda>_. open_socket 5) (\<lambda>_. start_os False [])"
  by (simp add: ends_ready_def)

lemma tiny_sendable: "sendable (\<lambda>_. 9) (tiny_message [4])"
  by (auto simp: sendable_def MaxBufferSize_def valid_handle_def Attachment_ctor_def intro: exI [of _ "[65]"])

text \<open>The near end about to send its message.\<close>

lemma near_sending:
  obtains L where "connection_reach cap (\<lambda>_. 9) two_ends L"
    "cn_call L Near = Some (WriteCall (tiny_message [4]), Sending (tiny_message [4]))"
    "cn_kernel L = cn_kernel two_ends" "cn_log L = (\<lambda>_. [])" "cn_call L Far = None"
proof -
  let ?c = "WriteCall (tiny_message [4])" and ?s = "locked_with \<lparr>lk_locked = True\<rparr> (open_socket 5)"
  let ?L1 = "two_ends\<lparr>cn_socket := (cn_socket two_ends)(Near := locked_with \<lparr>lk_locked = True\<rparr> (cn_socket two_ends Near)),
    cn_call := (cn_call two_ends)(Near \<mapsto> (?c, Start ?c))\<rparr>"
  have "connection_step cap (\<lambda>_. 9) two_ends Near ?L1"
    by (rule connection_step.enter)
      (simp_all add: two_ends_def connection_start_def tiny_sendable open_socket_def Lock_ctor_def Lock_lock_def)
  moreover have "call_step (Start ?c) (cn_socket ?L1 Near) (cn_os ?L1 Near) =
      Done (Sending (tiny_message [4]), cn_socket ?L1 Near) (cn_os ?L1 Near)"
    using tiny_sendable by (simp add: sendable_def MaxBufferSize_def word_less_nat_alt)
  note second = connection_step.begin_call [where cap = cap and f = "\<lambda>_. 9", OF _ this]
  ultimately show ?thesis
    by (intro that [OF connection_reach.step [OF connection_reach.step [OF connection_reach.start] second]])
      (simp_all add: two_ends_def connection_start_def)
qed

text \<open>The near end after its message was taken.\<close>

lemma near_sent:
  obtains L where "connection_reach 4 (\<lambda>_. 9) two_ends L" "sent L Near = [tiny_message [4]]"
    "cn_log L Near = [(WriteCall (tiny_message [4]), WriteResult Success)]" "got L Far = []"
    "kn_queue (cn_kernel L) Far = [tiny_reply [4]]" "\<not> kn_closed (cn_kernel L) Far"
proof -
  obtain L where L: "connection_reach 4 (\<lambda>_. 9) two_ends L"
    "cn_call L Near = Some (WriteCall (tiny_message [4]), Sending (tiny_message [4]))"
    "cn_kernel L = cn_kernel two_ends" "cn_log L = (\<lambda>_. [])" "cn_call L Far = None"
    by (rule near_sending)
  let ?m = "tiny_message [4]" and ?r = "reply 1 ENONE"
  have K: "kn_queue (cn_kernel L) Far = []" "\<not> kn_closed (cn_kernel L) (peer Near)"
    by (simp_all add: L two_ends_def connection_start_def)
  have "carries (\<lambda>_. 9) (Message_data ?m) (attachment_control (m_attachments ?m)) (tiny_reply [4])"
    by (simp add: carries_def tiny_reply_def packet_def attachment_control_def Attachment_ctor_def)
  then have accept: "kernel_step 4 (\<lambda>_. 9) (cn_kernel L) Near (sendmsg_call ?m (cn_socket L Near)) ?r
      ((cn_kernel L)\<lparr>kn_queue := (kn_queue (cn_kernel L))(peer Near := kn_queue (cn_kernel L) (peer Near) @ [tiny_reply [4]])\<rparr>)"
    unfolding sendmsg_call_def by (intro kernel_step.accept K(2)) (simp_all add: K)
  obtain w' where "call_step (Sending ?m) (cn_socket L Near) ((cn_os L Near)\<lparr>os_script := [?r]\<rparr>) =
      Done (Finished (WriteResult Success), cn_socket L Near) w'"
    using send_answered(2) [OF tiny_sendable, of ?r] by auto
  note step1 = connection_step.work [OF L(2) next_call.simps(2) accept this]
  note step2 = connection_step.leave [of _ Near, where cap = 4 and f = "\<lambda>_. 9"]
  show ?thesis
    by (rule that [OF connection_reach.step [OF connection_reach.step [OF L(1) step1] step2]])
      (simp_all add: L(2,4,5) K [simplified] sent_def got_def calls_def)
qed

theorem Connection_fifo_witness:
  "\<exists>L. connection_reach 4 (\<lambda>_. 9) two_ends L \<and> sent L Near = [tiny_message [4]] \<and>
    arrives (\<lambda>_. 9) (tiny_message [4]) (packet_message (tiny_reply [4]))"
proof -
  obtain L where L: "connection_reach 4 (\<lambda>_. 9) two_ends L" "sent L Near = [tiny_message [4]]" "got L Far = []"
    "kn_queue (cn_kernel L) Far = [tiny_reply [4]]" "\<not> kn_closed (cn_kernel L) Far"
    by (rule near_sent)
  from Connection_fifo [OF two_ends_ready L(1) [unfolded two_ends_def], of Near] L show ?thesis by auto
qed

text \<open>A message of 4097 bytes, and the near end after it has tried to write it.\<close>

definition big_message :: message where
  "big_message = \<lparr>m_buffer = Some (replicate 8192 (Some 65)), m_bufferLength = 8192, m_dataLength = 4097,
                  m_sizeRead = 0, m_attachments = []\<rparr>"

lemma big_message_simps: "Message_wf big_message" "oversize big_message"
  by (simp_all add: big_message_def Message_wf_def oversize_def Message_size_def MaxBufferSize_def)

lemma near_refused:
  obtains L where "connection_reach 4 (\<lambda>_. 9) two_ends L" "cn_kernel L = cn_kernel two_ends"
    "cn_log L Near = [(WriteCall big_message, WriteResult TemporaryFailure)]"
proof -
  let ?c = "WriteCall big_message" and ?l = "\<lparr>lk_locked = True\<rparr>"
  let ?L1 = "two_ends\<lparr>cn_socket := (cn_socket two_ends)(Near := locked_with ?l (cn_socket two_ends Near)),
    cn_call := (cn_call two_ends)(Near \<mapsto> (?c, Start ?c))\<rparr>"
  have "connection_step 4 (\<lambda>_. 9) two_ends Near ?L1"
    by (rule connection_step.enter)
      (simp_all add: two_ends_def connection_start_def big_message_simps open_socket_def Lock_ctor_def Lock_lock_def)
  moreover have "call_step (Start ?c) (cn_socket ?L1 Near) (cn_os ?L1 Near) =
      Done (Finished (WriteResult TemporaryFailure), cn_socket ?L1 Near) (cn_os ?L1 Near)"
    using big_message_simps(2) by (simp add: oversize_size)
  note second = connection_step.begin_call [where cap = 4 and f = "\<lambda>_. 9", OF _ this]
  note third = connection_step.leave [of _ Near, where cap = 4 and f = "\<lambda>_. 9"]
  ultimately show ?thesis
    by (intro that [OF connection_reach.step [OF connection_reach.step [OF connection_reach.step
            [OF connection_reach.start] second] third]])
      (simp_all add: two_ends_def connection_start_def)
qed

theorem Connection_results_witness:
  "(\<exists>L. connection_reach 4 (\<lambda>_. 9) two_ends L \<and>
      cn_log L Near = [(WriteCall (tiny_message [4]), WriteResult Success)] \<and>
      list_all (\<lambda>(c, res). res \<noteq> WriteResult TemporaryFailure) (cn_log L Near)) \<and>
    (\<exists>L st. connection_reach 4 (\<lambda>_. 9) two_ends L \<and> \<not> kn_closed (cn_kernel L) Far \<and>
      cn_log L Near = [(WriteCall big_message, WriteResult st)] \<and> st = TemporaryFailure)"
proof
  obtain L where L: "connection_reach 4 (\<lambda>_. 9) two_ends L"
    "cn_log L Near = [(WriteCall (tiny_message [4]), WriteResult Success)]"
    by (rule near_sent)
  from Connection_results [OF two_ends_ready L(1) [unfolded two_ends_def], of Near, THEN conjunct1] L
  show "\<exists>L. connection_reach 4 (\<lambda>_. 9) two_ends L \<and>
      cn_log L Near = [(WriteCall (tiny_message [4]), WriteResult Success)] \<and>
      list_all (\<lambda>(c, res). res \<noteq> WriteResult TemporaryFailure) (cn_log L Near)" by auto
  obtain L st where L: "connection_reach 4 (\<lambda>_. 9) two_ends L" "cn_kernel L = cn_kernel two_ends"
    "cn_log L Near = [(WriteCall big_message, WriteResult st)]"
    by (rule near_refused)
  from Connection_results [OF two_ends_ready L(1) [unfolded two_ends_def], of Near, THEN conjunct1] L(3)
    big_message_simps(2)
  have "st = TemporaryFailure" by simp
  with L show "\<exists>L st. connection_reach 4 (\<lambda>_. 9) two_ends L \<and> \<not> kn_closed (cn_kernel L) Far \<and>
      cn_log L Near = [(WriteCall big_message, WriteResult st)] \<and> st = TemporaryFailure"
    by (auto simp: two_ends_def connection_start_def)
qed

theorem Connection_calls_return_witness:
  "\<exists>A B. connection_reach 4 (\<lambda>_. 9) two_ends A \<and> cn_call A Near \<noteq> None \<and> finishes 4 (\<lambda>_. 9) A Near \<and>
    connection_reach 0 (\<lambda>_. 9) two_ends B \<and> \<not> finishes 0 (\<lambda>_. 9) B Near \<and> finishes 0 (\<lambda>_. 9) B Far"
proof -
  obtain A where A: "connection_reach 4 (\<lambda>_. 9) two_ends A"
    "cn_call A Near = Some (WriteCall (tiny_message [4]), Sending (tiny_message [4]))"
    "cn_kernel A = cn_kernel two_ends" by (rule near_sending)
  obtain B where B: "connection_reach 0 (\<lambda>_. 9) two_ends B"
    "cn_call B Near = Some (WriteCall (tiny_message [4]), Sending (tiny_message [4]))"
    "cn_kernel B = cn_kernel two_ends" "cn_call B Far = None" by (rule near_sending)
  note returns = Connection_calls_return [OF two_ends_ready, folded two_ends_def]
  have "finishes 4 (\<lambda>_. 9) A Near" unfolding returns [OF A(1)]
    by (simp add: blocked_def A two_ends_def connection_start_def)
  moreover have "\<not> finishes 0 (\<lambda>_. 9) B Near" unfolding returns [OF B(1)]
    by (simp add: blocked_def B two_ends_def connection_start_def sendable_not_oversize [OF tiny_sendable])
  moreover have "finishes 0 (\<lambda>_. 9) B Far" unfolding returns [OF B(1)]
    by (simp add: blocked_def B)
  ultimately show ?thesis using A B by blast
qed

end
