(* ===== verification/CL_Timers.thy ===== *)
theory CL_Timers
  imports CL_Session
begin

text \<open>
  Timers on a running loop, for both platforms: \<^verbatim>\<open>LooperSource::AsTimer\<close>, added to a fresh looper,
  with a wake function that counts and ends the loop, as a client (and \<^verbatim>\<open>LooperTest.cpp\<close>) uses it.
\<close>

section \<open>The timer of each platform\<close>

definition AsTimer :: "platform \<Rightarrow> int \<Rightarrow> looperSource" where
  "AsTimer pf interval = (case pf of Linux \<Rightarrow> AsTimer_Linux interval | Apple \<Rightarrow> AsTimer_Apple interval)"

text \<open>Its handles, when the kernel gives Linux the descriptor \<open>d\<close>; Apple needs none.\<close>

definition timer_handles :: "platform \<Rightarrow> handle \<Rightarrow> handles" where
  "timer_handles pf d = (case pf of Linux \<Rightarrow> (d, -1) | Apple \<Rightarrow> (-1, -1))"

definition timer_added :: "platform \<Rightarrow> handle \<Rightarrow> nat \<Rightarrow> handle \<Rightarrow> int \<Rightarrow> (syscall \<times> sysres) list" where
  "timer_added pf q p d interval =
     (case pf of
        Linux \<Rightarrow>
          [(TimerfdCreate, reply d ENONE),
           (TimerfdSettime d (timer_seconds interval) (timer_nanoseconds interval)
              (timer_seconds interval) (timer_nanoseconds interval), granted),
           (EpollCtl q EPOLL_CTL_ADD d p, granted)]
      | Apple \<Rightarrow> [(KeventChange q (-1) EVFILT_TIMER EV_ADD True interval p, granted)])"

text \<open>An expiry: the calls that are interrupted before the report and before the read of Linux.\<close>

record expiry =
  ex_waits :: "sysres list"
  ex_reads :: "sysres list"

definition expiry_ok :: "expiry \<Rightarrow> bool" where
  "expiry_ok e \<longleftrightarrow> (\<forall>i \<in> set (ex_waits e @ ex_reads e). interrupted i)"

definition expiry_calls :: "platform \<Rightarrow> handle \<Rightarrow> nat \<Rightarrow> handle \<Rightarrow> expiry \<Rightarrow> (syscall \<times> sysres) list" where
  "expiry_calls pf q p d e =
     map (Pair ((case pf of Linux \<Rightarrow> EpollWait | Apple \<Rightarrow> KeventWait) q)) (ex_waits e @ [report p]) @
     (case pf of Linux \<Rightarrow> map (Pair (Read d 8)) (ex_reads e @ [reply 8 ENONE]) | Apple \<Rightarrow> [])"

text \<open>The world after calls that were answered as listed.\<close>

definition performed :: "(syscall \<times> sysres) list \<Rightarrow> os \<Rightarrow> os" where
  "performed cs w = fold (\<lambda>(c, r). answered c [r]) cs w"

lemma performed_simps [simp]:
  "performed [] w = w" "performed ((c, r) # cs) w = performed cs (answered c [r] w)"
  "performed (cs @ ds) w = performed ds (performed cs w)"
  by (simp_all add: performed_def)

lemma performed_script [simp]: "os_script (performed cs w) = drop (length cs) (os_script w)"
  by (induction cs arbitrary: w) (auto simp: drop_Suc tl_drop)

lemma performed_trace [simp]: "os_trace (performed cs w) = os_trace w @ map (\<lambda>(c, r). Sys c r) cs"
  by (induction cs arbitrary: w) auto

lemma performed_same: "rs \<noteq> [] \<Longrightarrow> performed (map (Pair c) rs) w = answered c rs w"
proof (induction rs rule: rev_induct)
  case (snoc r rs)
  then show ?case by (cases "rs = []") (simp_all add: answered_answered)
qed simp

section \<open>Running the loop\<close>

text \<open>A thread whose loop has a timer at \<open>p\<close> and its trivial source at \<open>t\<close>.\<close>

definition ticking :: "platform \<Rightarrow> nat \<Rightarrow> nat \<Rightarrow> handle \<Rightarrow> nat \<Rightarrow> handle \<Rightarrow> 'c thread_state \<Rightarrow> bool" where
  "ticking pf f p d t wr ts \<longleftrightarrow>
     p \<noteq> 0 \<and> lp_trivialSource (ts_looper ts) = t \<and> t \<noteq> 0 \<and>
     (\<exists>s. sr_objects (ts_sources ts) p = Some s \<and> so_handlesAllocated s \<and> so_handles s = timer_handles pf d \<and>
        so_readHandler s = (case pf of Linux \<Rightarrow> Some TimerReader | Apple \<Rightarrow> None) \<and> so_wakeFunction s = Some f) \<and>
     (\<exists>s. sr_objects (ts_sources ts) t = Some s \<and> so_handlesAllocated s \<and> snd (so_handles s) = wr \<and>
        so_writeHandler s = Some WakeWriter)"

text \<open>
  A wake function that counts the expiries in the client's state and calls \<^verbatim>\<open>terminate\<close> at the
  last one.
\<close>

definition counting_wake :: "user_code \<Rightarrow> nat \<Rightarrow> nat thread_state \<Rightarrow> os \<Rightarrow> nat thread_state outcome" where
  "counting_wake u limit ts =
     (let ts' = ts\<lparr>ts_client := Suc (ts_client ts)\<rparr> in
      if ts_client ts' = limit then Looper_terminate u ts' else returnM ts')"

lemma terminate_ticking:
  fixes ts :: "'c thread_state"
  assumes "ticking pf f p d t wr ts" "os_script w = js @ reply 2 ENONE # rest" "\<forall>j \<in> set js. interrupted j"
  shows "Looper_terminate u ts w =
    Done (ts\<lparr>ts_looper := Looper_request (ts_looper ts)\<rparr>)
      (performed (map (Pair (Write wr LooperWakeMessage)) (js @ [reply 2 ENONE])) w)"
proof -
  from assms(1) obtain s where s: "sr_objects (ts_sources ts) (lp_trivialSource (ts_looper ts)) = Some s"
    "so_handlesAllocated s" "snd (so_handles s) = wr" "so_writeHandler s = Some WakeWriter"
    by (auto simp: ticking_def)
  from Looper_terminate_evaluated [OF s(1,2,4) assms(2,3)] s(3) show ?thesis
    by (simp add: performed_same del: map_append)
qed

lemma expiry_served:
  fixes ts :: "nat thread_state"
  assumes "ticking pf f p d t wr ts" "expiry_ok e" "os_script w = map snd (expiry_calls pf q p d e) @ rest"
    "q = ws_handle (lp_waitSet (ts_looper ts))" "hd_wake hs f = counting_wake u limit"
  obtains w1 where "WaitSet_wait pf (lp_waitSet (ts_looper ts)) w = Done p w1"
    "Looper_dispatch u hs p ts w1 = counting_wake u limit ts (performed (expiry_calls pf q p d e) w)"
proof -
  from assms(1) obtain s where s: "p \<noteq> 0" "sr_objects (ts_sources ts) p = Some s" "so_handlesAllocated s"
    "so_handles s = timer_handles pf d" "so_wakeFunction s = Some f"
    "so_readHandler s = (case pf of Linux \<Rightarrow> Some TimerReader | Apple \<Rightarrow> None)"
    by (auto simp: ticking_def)
  have ok: "\<forall>i \<in> set (ex_waits e). interrupted i" "\<forall>i \<in> set (ex_reads e). interrupted i"
    using assms(2) by (auto simp: expiry_ok_def)
  let ?w1 = "answered (wait_call_of pf ts) (ex_waits e @ [report p]) w"
  have script: "os_script w = ex_waits e @ report p #
      (case pf of Linux \<Rightarrow> ex_reads e @ [reply 8 ENONE] | Apple \<Rightarrow> []) @ rest"
    using assms(3) by (cases pf) (simp_all add: expiry_calls_def comp_def)
  have "WaitSet_wait pf (lp_waitSet (ts_looper ts)) w = Done p ?w1"
    using WaitSet_wait_report [OF script ok(1)] by (simp add: report_def)
  moreover have "Looper_dispatch u hs p ts ?w1 = counting_wake u limit ts (performed (expiry_calls pf q p d e) w)"
  proof (cases pf)
    case Apple
    with s assms(4,5) show ?thesis
      by (simp add: Looper_dispatch_def onAwoken_def deref_def expiry_calls_def wait_call_of_def performed_same
          del: map_append)
  next
    case Linux
    have "timer_read d ?w1 = Done () (answered (Read d 8) (ex_reads e @ [reply 8 ENONE]) ?w1)"
      using retry_interrupted [of ?w1 "ex_reads e" "reply 8 ENONE" rest "Read d 8"] script ok(2) Linux
      by (simp add: timer_read_def interrupted_def CL_ASSERT_holds int_to_size_def)
    with Linux s assms(4,5) show ?thesis
      by (simp add: Looper_dispatch_def onAwoken_def deref_def expiry_calls_def wait_call_of_def performed_same
          readHandle_allocated timer_handles_def store_put_same del: map_append)
  qed
  ultimately show ?thesis by (rule that)
qed

text \<open>The last call of the loop's run: the wake message that \<^verbatim>\<open>terminate\<close> writes.\<close>

definition wake_calls :: "handle \<Rightarrow> sysres list \<Rightarrow> (syscall \<times> sysres) list" where
  "wake_calls wr js = map (Pair (Write wr LooperWakeMessage)) (js @ [reply 2 ENONE])"

lemma while_ticks:
  fixes ts :: "nat thread_state"
  assumes "ticking pf f p d t wr ts" "\<not> lp_shouldTerminate (ts_looper ts)" "es \<noteq> []"
    "limit = ts_client ts + length es" "\<forall>e \<in> set es. expiry_ok e" "\<forall>j \<in> set js. interrupted j"
    "os_script w = map snd (concat (map (expiry_calls pf q p d) es) @ wake_calls wr js) @ rest"
    "q = ws_handle (lp_waitSet (ts_looper ts))" "hd_wake hs f = counting_wake u limit" "length es < fuel"
  shows "Looper_while pf u hs fuel ts w =
    Done (ts\<lparr>ts_client := limit\<rparr>) (performed (concat (map (expiry_calls pf q p d) es) @ wake_calls wr js) w)"
  using assms
proof (induction es arbitrary: fuel ts w)
  case (Cons e es)
  from Cons.prems(10) obtain n where n: "fuel = Suc n" "length es < n" by (cases fuel) auto
  let ?ts = "ts\<lparr>ts_client := Suc (ts_client ts)\<rparr>" and ?w = "performed (expiry_calls pf q p d e) w"
  have ticking': "ticking pf f p d t wr ?ts" using Cons.prems(1) by (simp add: ticking_def)
  have script: "os_script w = map snd (expiry_calls pf q p d e) @
      map snd (concat (map (expiry_calls pf q p d) es) @ wake_calls wr js) @ rest"
    using Cons.prems(7) by simp
  have e: "expiry_ok e" using Cons.prems(5) by simp
  obtain w1 where w1: "WaitSet_wait pf (lp_waitSet (ts_looper ts)) w = Done p w1"
    "Looper_dispatch u hs p ts w1 = counting_wake u limit ts ?w"
    by (rule expiry_served [OF Cons.prems(1) e script Cons.prems(8,9)])
  have script1: "os_script ?w = map snd (concat (map (expiry_calls pf q p d) es) @ wake_calls wr js) @ rest"
    using script by simp
  show ?case
  proof (cases "es = []")
    case True
    have "os_script ?w = js @ reply 2 ENONE # rest"
      using script1 True by (simp add: wake_calls_def comp_def)
    from terminate_ticking [OF ticking' this Cons.prems(6)]
    have run: "counting_wake u limit ts ?w =
        Done (?ts\<lparr>ts_looper := Looper_request (ts_looper ts)\<rparr>) (performed (wake_calls wr js) ?w)"
      using True Cons.prems(4) by (simp add: counting_wake_def wake_calls_def)
    have "Looper_reset (Looper_request (ts_looper ts)) = ts_looper ts"
      using Cons.prems(2) by (simp add: Looper_reset_def Looper_request_def)
    moreover obtain k where "n = Suc k" using n by (cases n) auto
    ultimately show ?thesis
      using w1 run n True Cons.prems(2,4) by (simp add: Looper_request_def Looper_reset_def)
  next
    case False
    then have "counting_wake u limit ts ?w = Done ?ts ?w"
      using Cons.prems(4) by (simp add: counting_wake_def)
    with w1 n Cons.prems(2) have "Looper_while pf u hs fuel ts w = Looper_while pf u hs n ?ts ?w"
      by simp
    also have "\<dots> = Done (?ts\<lparr>ts_client := limit\<rparr>)
        (performed (concat (map (expiry_calls pf q p d) es) @ wake_calls wr js) ?w)"
      by (rule Cons.IH [OF ticking' _ False]) (use Cons.prems n script1 in simp_all)
    finally show ?thesis by simp
  qed
qed simp

section \<open>Setting up\<close>

lemma timer_scheduled:
  fixes ts :: "'c thread_state"
  assumes "p \<notin> set (ws_sources (lp_waitSet (ts_looper ts)))" "q = ws_handle (lp_waitSet (ts_looper ts))"
    "sr_objects (ts_sources ts) p = Some (LooperSource_setWakeFunction (Some f) (AsTimer pf interval))"
    "os_script w = map snd (timer_added pf q p d interval) @ rest"
  shows "Looper_addSource pf u p ts w =
    Done (True, ts\<lparr>ts_looper := (ts_looper ts)\<lparr>lp_waitSet := (lp_waitSet (ts_looper ts))\<lparr>ws_sources :=
          insort p (ws_sources (lp_waitSet (ts_looper ts)))\<rparr>\<rparr>,
        ts_sources := store_put p ((LooperSource_setWakeFunction (Some f) (AsTimer pf interval))
          \<lparr>so_handles := timer_handles pf d, so_handlesAllocated := True\<rparr>) (ts_sources ts)\<rparr>)
      (performed (timer_added pf q p d interval) w)"
proof (cases pf)
  case Linux
  let ?s = "timer_seconds interval" and ?n = "timer_nanoseconds interval"
  have script: "os_script w = reply d ENONE # granted # granted # rest"
    using assms(4) Linux by (simp add: timer_added_def)
  have "updateInWaitSetHandle Linux u p q True (LooperSource_setWakeFunction (Some f) (AsTimer Linux interval)) w =
      Done ((LooperSource_setWakeFunction (Some f) (AsTimer Linux interval))
          \<lparr>so_handles := (d, -1), so_handlesAllocated := True\<rparr>) (performed (timer_added Linux q p d interval) w)"
    using script
    by (simp add: updateInWaitSetHandle_def updateInWaitSetHandle_Linux_def LooperSource_readHandle_def
        LooperSource_handles_def AsTimer_def AsTimer_Linux_def LooperSource_ctor_def LooperSource_setWakeFunction_def
        timer_allocate_def sys_Cons CL_CHECK_success granted_def LooperSource_UpdateEpollSource_def retry_step
        interrupted_def timer_added_def Let_def)
  with assms Linux show ?thesis
    by (simp add: Looper_addSource_def WaitSet_addSource_def update_source_def deref_def set_contains_def
        set_insert_def timer_handles_def)
next
  case Apple
  have script: "os_script w = granted # rest" using assms(4) Apple by (simp add: timer_added_def)
  have "updateInWaitSetHandle Apple u p q True (LooperSource_setWakeFunction (Some f) (AsTimer Apple interval)) w =
      Done ((LooperSource_setWakeFunction (Some f) (AsTimer Apple interval))
          \<lparr>so_handles := (-1, -1), so_handlesAllocated := True\<rparr>) (performed (timer_added Apple q p d interval) w)"
    using script
    by (simp add: updateInWaitSetHandle_def updateInWaitSetHandle_Apple_def LooperSource_readHandle_def
        LooperSource_handles_def AsTimer_def AsTimer_Apple_def LooperSource_ctor_def LooperSource_setWakeFunction_def
        LooperSource_setCustomWaitSetUpdateHandler_def kevent_timer_update_def granted_def
        LooperSource_UpdateKeventSource_def retry_step interrupted_def timer_added_def)
  with assms Apple show ?thesis
    by (simp add: Looper_addSource_def WaitSet_addSource_def update_source_def deref_def set_contains_def
        set_insert_def timer_handles_def)
qed

text \<open>The first \<^verbatim>\<open>loop\<close> of a looper makes its trivial source, over a pipe \<open>(rd, wr)\<close>.\<close>

definition pipe_reply :: "handle \<Rightarrow> handle \<Rightarrow> sysres" where
  "pipe_reply rd wr = granted\<lparr>r_fds := (rd, wr)\<rparr>"

definition prepare_calls :: "platform \<Rightarrow> handle \<Rightarrow> nat \<Rightarrow> handle \<Rightarrow> handle \<Rightarrow> (syscall \<times> sysres) list" where
  "prepare_calls pf q t rd wr = [(Pipe, pipe_reply rd wr), (control_call pf q True rd t, granted)]"

lemma first_prepare:
  fixes ts :: "'c thread_state"
  assumes "lp_trivialSource (ts_looper ts) = 0" "t = sr_next (ts_sources ts)"
    "t \<notin> set (ws_sources (lp_waitSet (ts_looper ts)))" "q = ws_handle (lp_waitSet (ts_looper ts))"
    "os_script w = map snd (prepare_calls pf q t rd wr) @ rest"
  shows "Looper_prepare pf u ts w =
    Done (ts\<lparr>ts_looper := (ts_looper ts)\<lparr>lp_trivialSource := t, lp_waitSet := (lp_waitSet (ts_looper ts))\<lparr>ws_sources :=
          insort t (ws_sources (lp_waitSet (ts_looper ts)))\<rparr>\<rparr>,
        ts_sources := \<lparr>sr_next = Suc t, sr_objects = (sr_objects (ts_sources ts))(t \<mapsto>
          LooperSource_AsTrivial\<lparr>so_handles := (rd, wr), so_handlesAllocated := True\<rparr>)\<rparr>\<rparr>)
      (performed (prepare_calls pf q t rd wr) w)"
proof -
  have script: "os_script w = pipe_reply rd wr # granted # rest"
    using assms(5) by (simp add: prepare_calls_def)
  have "updateInWaitSetHandle pf u t q True LooperSource_AsTrivial w =
      Done (LooperSource_AsTrivial\<lparr>so_handles := (rd, wr), so_handlesAllocated := True\<rparr>)
        (performed (prepare_calls pf q t rd wr) w)"
    using script
    by (cases pf) (simp_all add: updateInWaitSetHandle_def updateInWaitSetHandle_Linux_def
        updateInWaitSetHandle_Apple_def LooperSource_readHandle_def LooperSource_handles_def LooperSource_AsTrivial_def
        LooperSource_ctor_def pipe_allocate_def CL_CHECK_success pipe_reply_def granted_def prepare_calls_def
        LooperSource_UpdateEpollSource_def LooperSource_UpdateKeventSource_def control_call_def epoll_control_def
        kqueue_control_def retry_step interrupted_def)
  with assms show ?thesis
    by (simp add: Looper_prepare_def store_new_def Looper_addSource_def WaitSet_addSource_def update_source_def
        deref_def set_contains_def set_insert_def store_put_def)
qed

text \<open>Added, and then run until the wake function has ended the loop.\<close>

definition timer_in_place :: "platform \<Rightarrow> nat \<Rightarrow> int \<Rightarrow> handle \<Rightarrow> looperSource" where
  "timer_in_place pf f interval d = (LooperSource_setWakeFunction (Some f) (AsTimer pf interval))
     \<lparr>so_handles := timer_handles pf d, so_handlesAllocated := True\<rparr>"

lemma timer_in_place_simps:
  "so_handlesAllocated (timer_in_place pf f interval d)" "so_handles (timer_in_place pf f interval d) = timer_handles pf d"
  "so_wakeFunction (timer_in_place pf f interval d) = Some f"
  "so_readHandler (timer_in_place pf f interval d) = (case pf of Linux \<Rightarrow> Some TimerReader | Apple \<Rightarrow> None)"
  "so_customWaitSetUpdateHandler (timer_in_place pf f interval d) =
     (case pf of Linux \<Rightarrow> None | Apple \<Rightarrow> Some (KeventTimerUpdater interval))"
  "so_handlesDeallocator (timer_in_place pf f interval d) =
     (case pf of Linux \<Rightarrow> Some TimerDeallocator | Apple \<Rightarrow> None)"
  by (cases pf; simp add: timer_in_place_def AsTimer_def AsTimer_Linux_def AsTimer_Apple_def LooperSource_ctor_def
      LooperSource_setWakeFunction_def LooperSource_setCustomWaitSetUpdateHandler_def)+

definition trivial_in_place :: "handle \<Rightarrow> handle \<Rightarrow> looperSource" where
  "trivial_in_place rd wr = LooperSource_AsTrivial\<lparr>so_handles := (rd, wr), so_handlesAllocated := True\<rparr>"

lemma timer_repeats:
  fixes ts :: "nat thread_state"
  assumes "ts = \<lparr>ts_looper = \<lparr>lp_waitSet = \<lparr>ws_handle = q, ws_sources = []\<rparr>, lp_trivialSource = 0, lp_shouldTerminate = False\<rparr>,
      ts_sources = \<lparr>sr_next = t, sr_objects = [p \<mapsto> LooperSource_setWakeFunction (Some f) (AsTimer pf interval)]\<rparr>,
      ts_client = 0\<rparr>" "0 < p" "p < t"
    "hd_wake hs f = counting_wake u limit" "length es = limit" "0 < limit" "limit < fuel"
    "\<forall>e \<in> set es. expiry_ok e" "\<forall>j \<in> set js. interrupted j"
    "running = prepare_calls pf q t rd wr @ concat (map (expiry_calls pf q p d) es) @ wake_calls wr js"
    "os_script w = map snd (timer_added pf q p d interval @ running) @ rest"
  obtains ts1 where "Looper_addSource pf u p ts w = Done (True, ts1) (performed (timer_added pf q p d interval) w)"
    "Looper_loop pf u hs fuel ts1 (performed (timer_added pf q p d interval) w) =
      Done \<lparr>ts_looper = \<lparr>lp_waitSet = \<lparr>ws_handle = q, ws_sources = [p, t]\<rparr>, lp_trivialSource = t, lp_shouldTerminate = False\<rparr>,
        ts_sources = \<lparr>sr_next = Suc t, sr_objects = [p \<mapsto> timer_in_place pf f interval d, t \<mapsto> trivial_in_place rd wr]\<rparr>,
        ts_client = limit\<rparr> (performed (timer_added pf q p d interval @ running) w)"
proof -
  let ?w1 = "performed (timer_added pf q p d interval) w"
  let ?w2 = "performed (prepare_calls pf q t rd wr) ?w1"
  let ?w3 = "\<lambda>w. performed (concat (map (expiry_calls pf q p d) es) @ wake_calls wr js) w"
  define ts1 :: "nat thread_state" where "ts1 = \<lparr>ts_looper = \<lparr>lp_waitSet = \<lparr>ws_handle = q, ws_sources = [p]\<rparr>, lp_trivialSource = 0,
      lp_shouldTerminate = False\<rparr>,
    ts_sources = \<lparr>sr_next = t, sr_objects = [p \<mapsto> timer_in_place pf f interval d]\<rparr>, ts_client = 0\<rparr>"
  define ts2 :: "nat thread_state" where "ts2 = \<lparr>ts_looper = \<lparr>lp_waitSet = \<lparr>ws_handle = q, ws_sources = [p, t]\<rparr>, lp_trivialSource = t,
      lp_shouldTerminate = False\<rparr>,
    ts_sources = \<lparr>sr_next = Suc t, sr_objects = [p \<mapsto> timer_in_place pf f interval d, t \<mapsto> trivial_in_place rd wr]\<rparr>,
    ts_client = 0\<rparr>"
  have script: "os_script w = map snd (timer_added pf q p d interval) @ map snd running @ rest"
    using assms(11) by simp
  have added: "Looper_addSource pf u p ts w = Done (True, ts1) ?w1"
  proof -
    have "ts\<lparr>ts_looper := (ts_looper ts)\<lparr>lp_waitSet := (lp_waitSet (ts_looper ts))\<lparr>ws_sources :=
          insort p (ws_sources (lp_waitSet (ts_looper ts)))\<rparr>\<rparr>,
        ts_sources := store_put p ((LooperSource_setWakeFunction (Some f) (AsTimer pf interval))
          \<lparr>so_handles := timer_handles pf d, so_handlesAllocated := True\<rparr>) (ts_sources ts)\<rparr> = ts1"
      unfolding assms(1) ts1_def timer_in_place_def [symmetric] by (simp add: store_put_def)
    moreover have "p \<notin> set (ws_sources (lp_waitSet (ts_looper ts)))" "q = ws_handle (lp_waitSet (ts_looper ts))"
      "sr_objects (ts_sources ts) p = Some (LooperSource_setWakeFunction (Some f) (AsTimer pf interval))"
      unfolding assms(1) by simp_all
    note timer_scheduled [OF this script, of u]
    ultimately show ?thesis by simp
  qed
  have script1: "os_script ?w1 = map snd (prepare_calls pf q t rd wr) @
      map snd (concat (map (expiry_calls pf q p d) es) @ wake_calls wr js) @ rest"
    using script assms(10) by simp
  have prepared: "Looper_prepare pf u ts1 ?w1 = Done ts2 ?w2"
  proof -
    have "ts1\<lparr>ts_looper := (ts_looper ts1)\<lparr>lp_trivialSource := t, lp_waitSet := (lp_waitSet (ts_looper ts1))\<lparr>ws_sources :=
          insort t (ws_sources (lp_waitSet (ts_looper ts1)))\<rparr>\<rparr>,
        ts_sources := \<lparr>sr_next = Suc t, sr_objects = (sr_objects (ts_sources ts1))(t \<mapsto>
          LooperSource_AsTrivial\<lparr>so_handles := (rd, wr), so_handlesAllocated := True\<rparr>)\<rparr>\<rparr> = ts2"
      unfolding ts1_def ts2_def trivial_in_place_def [symmetric] using assms(3) by simp
    moreover have "lp_trivialSource (ts_looper ts1) = 0" "t = sr_next (ts_sources ts1)"
      "t \<notin> set (ws_sources (lp_waitSet (ts_looper ts1)))" "q = ws_handle (lp_waitSet (ts_looper ts1))"
      unfolding ts1_def using assms(3) by simp_all
    note first_prepare [OF this script1, of u]
    ultimately show ?thesis by simp
  qed
  have tick: "ticking pf f p d t wr ts2"
    using assms(2,3) timer_in_place_simps [of pf f interval d]
    by (simp add: ticking_def ts2_def trivial_in_place_def LooperSource_AsTrivial_def LooperSource_ctor_def)
  have script2: "os_script ?w2 = map snd (concat (map (expiry_calls pf q p d) es) @ wake_calls wr js) @ rest"
    using script1 by simp
  have "Looper_while pf u hs fuel ts2 ?w2 = Done (ts2\<lparr>ts_client := limit\<rparr>) (?w3 ?w2)"
    by (rule while_ticks [OF tick _ _ _ assms(8,9) script2 _ assms(4)])
      (use assms(5-7) in \<open>auto simp: ts2_def\<close>)
  with prepared have "Looper_loop pf u hs fuel ts1 ?w1 = Done (ts2\<lparr>ts_client := limit\<rparr>) (performed (timer_added pf q p d interval @ running) w)"
    by (simp add: Looper_loop_def assms(10))
  with added show ?thesis by (intro that [of ts1]) (simp_all add: ts2_def)
qed

section \<open>Taking down\<close>

definition timer_removed :: "platform \<Rightarrow> handle \<Rightarrow> nat \<Rightarrow> handle \<Rightarrow> int \<Rightarrow> (syscall \<times> sysres) list" where
  "timer_removed pf q p d interval =
     (case pf of
        Linux \<Rightarrow> [(EpollCtl q EPOLL_CTL_DEL d p, granted), (Close d, granted)]
      | Apple \<Rightarrow> [(KeventChange q (-1) EVFILT_TIMER EV_DELETE True interval p, granted)])"

definition looper_closed :: "platform \<Rightarrow> handle \<Rightarrow> nat \<Rightarrow> handle \<Rightarrow> handle \<Rightarrow> (syscall \<times> sysres) list" where
  "looper_closed pf q t rd wr =
     [(control_call pf q False rd t, granted), (Close q, granted), (Close rd, granted), (Close wr, granted)]"

text \<open>The client removes its timer and lets go of it, then of the looper.\<close>

definition take_down :: "platform \<Rightarrow> user_code \<Rightarrow> nat \<Rightarrow> nat thread_state \<Rightarrow> os \<Rightarrow> nat outcome" where
  "take_down pf u p ts =
     bindM (Looper_removeSource pf u p ts) (\<lambda>(_, ts').
     bindM (deref (ts_sources ts') p) (\<lambda>s.
     seqM (LooperSource_dtor u s) (
     seqM (Looper_dtor pf u ts') (
     returnM (ts_client ts')))))"

lemma timer_update_removed:
  assumes "os_script w = map snd (timer_removed pf q p d interval) @ rest"
  obtains w' where "updateInWaitSetHandle pf u p q False (timer_in_place pf f interval d) w =
      Done (timer_in_place pf f interval d) w'"
    "LooperSource_dtor u (timer_in_place pf f interval d) w' = Done () (performed (timer_removed pf q p d interval) w)"
proof (cases pf)
  case Linux
  note simps = timer_in_place_simps [of Linux f interval d, simplified]
  have script: "os_script w = granted # granted # rest" using assms Linux by (simp add: timer_removed_def)
  show ?thesis
    by (rule that [of "answered (EpollCtl q EPOLL_CTL_DEL d p) [granted] w"])
      (use script simps Linux in \<open>simp_all add: updateInWaitSetHandle_def updateInWaitSetHandle_Linux_def
        readHandle_allocated timer_handles_def LooperSource_UpdateEpollSource_def retry_step interrupted_def granted_def
        LooperSource_dtor_def timer_deallocate_def CL_ASSERT_holds CL_CHECK_success timer_removed_def\<close>)
next
  case Apple
  note simps = timer_in_place_simps [of Apple f interval d, simplified]
  have script: "os_script w = granted # rest" using assms Apple by (simp add: timer_removed_def)
  show ?thesis
    by (rule that [of "answered (KeventChange q (-1) EVFILT_TIMER EV_DELETE True interval p) [granted] w"])
      (use script simps Apple in \<open>simp_all add: updateInWaitSetHandle_def updateInWaitSetHandle_Apple_def
        readHandle_allocated timer_handles_def kevent_timer_update_def LooperSource_UpdateKeventSource_def retry_step
        interrupted_def granted_def LooperSource_dtor_def timer_removed_def\<close>)
qed

lemma looper_taken_down:
  assumes "0 < t" "lp_waitSet (ts_looper ts) = \<lparr>ws_handle = q, ws_sources = [t]\<rparr>" "lp_trivialSource (ts_looper ts) = t"
    "sr_objects (ts_sources ts) t = Some (trivial_in_place rd wr)"
    "os_script w = map snd (looper_closed pf q t rd wr) @ rest"
  shows "Looper_dtor pf u ts w = Done () (performed (looper_closed pf q t rd wr) w)"
proof -
  have script: "os_script w = granted # granted # granted # granted # rest"
    using assms(5) by (simp add: looper_closed_def)
  have plain: "plain_source (trivial_in_place rd wr)" "fst (so_handles (trivial_in_place rd wr)) = rd"
    "so_handles (trivial_in_place rd wr) = (rd, wr)"
    "so_handlesAllocated (trivial_in_place rd wr)" "so_handlesDeallocator (trivial_in_place rd wr) = Some PipeDeallocator"
    by (simp_all add: plain_source_def trivial_in_place_def LooperSource_AsTrivial_def LooperSource_ctor_def)
  have "updateInWaitSetHandle pf u t q False (trivial_in_place rd wr) w =
      Done (trivial_in_place rd wr) (answered (control_call pf q False rd t) [granted] w)"
    using script plain
    by (cases pf) (simp_all add: epoll.update_plain kqueue.update_plain retry_step interrupted_def granted_def control_call_def)
  then have "WaitSet_dtor pf u \<lparr>ws_handle = q, ws_sources = [t]\<rparr> (ts_sources ts) w =
      Done (ts_sources ts) (answered (Close q) [granted] (answered (control_call pf q False rd t) [granted] w))"
    using script assms(4)
    by (cases pf) (simp_all add: WaitSet_dtor_def update_source_def deref_def store_put_same epoll.destroy_call
        kqueue.destroy_call CL_CHECK_success granted_def)
  then show ?thesis
    using assms(1-4) script plain
    by (simp add: Looper_dtor_def deref_def LooperSource_dtor_def pipe_deallocate_def CL_CHECK_success granted_def
        looper_closed_def)
qed

lemma taken_down:
  assumes "p \<noteq> t" "0 < t" "os_script w = map snd (timer_removed pf q p d interval @ looper_closed pf q t rd wr) @ rest"
  shows "take_down pf u p \<lparr>ts_looper = \<lparr>lp_waitSet = \<lparr>ws_handle = q, ws_sources = [p, t]\<rparr>, lp_trivialSource = t,
        lp_shouldTerminate = False\<rparr>,
      ts_sources = \<lparr>sr_next = Suc t, sr_objects = [p \<mapsto> timer_in_place pf f interval d, t \<mapsto> trivial_in_place rd wr]\<rparr>,
      ts_client = n\<rparr> w =
    Done n (performed (timer_removed pf q p d interval @ looper_closed pf q t rd wr) w)"
proof -
  let ?st = "\<lparr>sr_next = Suc t, sr_objects = [p \<mapsto> timer_in_place pf f interval d, t \<mapsto> trivial_in_place rd wr]\<rparr>"
  define ts :: "nat thread_state" where "ts = \<lparr>ts_looper = \<lparr>lp_waitSet = \<lparr>ws_handle = q, ws_sources = [t]\<rparr>,
    lp_trivialSource = t, lp_shouldTerminate = False\<rparr>, ts_sources = ?st, ts_client = n\<rparr>"
  obtain w' where w': "updateInWaitSetHandle pf u p q False (timer_in_place pf f interval d) w =
      Done (timer_in_place pf f interval d) w'"
    "LooperSource_dtor u (timer_in_place pf f interval d) w' = Done () (performed (timer_removed pf q p d interval) w)"
    by (rule timer_update_removed [of w pf q p d interval "map snd (looper_closed pf q t rd wr) @ rest" u f])
      (use assms(3) in simp)
  have "sr_objects ?st p = Some (timer_in_place pf f interval d)" using assms(1) by simp
  note same = store_put_same [OF this]
  have "Looper_removeSource pf u p \<lparr>ts_looper = \<lparr>lp_waitSet = \<lparr>ws_handle = q, ws_sources = [p, t]\<rparr>, lp_trivialSource = t,
        lp_shouldTerminate = False\<rparr>, ts_sources = ?st, ts_client = n\<rparr> w = Done (True, ts) w'"
    using w'(1) assms(1)
    by (simp add: Looper_removeSource_def WaitSet_removeSource_def set_contains_def update_source_def deref_def
        same set_erase_def ts_def)
  moreover have "Looper_dtor pf u ts (performed (timer_removed pf q p d interval) w) =
      Done () (performed (looper_closed pf q t rd wr) (performed (timer_removed pf q p d interval) w))"
    by (rule looper_taken_down [where rest = rest]) (use assms(2,3) in \<open>simp_all add: ts_def\<close>)
  moreover have "sr_objects (ts_sources ts) p = Some (timer_in_place pf f interval d)" "ts_client ts = n"
    using assms(1) by (simp_all add: ts_def)
  ultimately show ?thesis using w'(2) by (simp add: take_down_def deref_def)
qed

section \<open>Properties\<close>

text \<open>
  A whole life of a looper: made, given a timer, run, and taken down. The addresses are those of
  an empty store: the timer's is 1, the trivial source's 2.
\<close>

definition timer_life :: "platform \<Rightarrow> user_code \<Rightarrow> nat handlers \<Rightarrow> nat \<Rightarrow> nat \<Rightarrow> int \<Rightarrow> os \<Rightarrow> nat outcome" where
  "timer_life pf u hs fuel f interval =
     bindM (Looper_ctor pf) (\<lambda>l.
       let (p, st) = store_new (LooperSource_setWakeFunction (Some f) (AsTimer pf interval)) store_empty in
       bindM (Looper_addSource pf u p \<lparr>ts_looper = l, ts_sources = st, ts_client = 0\<rparr>) (\<lambda>(_, ts).
       bindM (Looper_loop pf u hs fuel ts) (take_down pf u p)))"

definition created :: "platform \<Rightarrow> handle \<Rightarrow> (syscall \<times> sysres) list" where
  "created pf q = [(case pf of Linux \<Rightarrow> EpollCreate | Apple \<Rightarrow> Kqueue, reply q ENONE)]"

text \<open>
  C10: Timers repeat and a looper leaves nothing behind, on both platforms. A looper with a timer
  whose wake function counts, and calls \<^verbatim>\<open>terminate\<close> at the count \<open>limit\<close>, is made, run and taken down.
  The wake function runs once for each expiry the kernel reports, through any interruptions; the
  loop returns right after the expiry that reaches the limit; and the system calls are exactly
  these: the queue, the timer and the wake pipe are set up, each expiry is waited for (and on Linux
  read), one wake message is written, and everything set up is removed and closed once, in the
  order timer, registration of the wake pipe, queue, pipe.
\<close>

theorem Looper_timer_life:
  assumes "hd_wake hs f = counting_wake u limit" "length es = limit" "0 < limit" "limit < fuel" "q \<noteq> -1"
    "\<forall>e \<in> set es. expiry_ok e" "\<forall>j \<in> set js. interrupted j"
    "calls = created pf q @ timer_added pf q 1 d interval @ prepare_calls pf q 2 rd wr @
       concat (map (expiry_calls pf q 1 d) es) @ wake_calls wr js @ timer_removed pf q 1 d interval @
       looper_closed pf q 2 rd wr"
    "os_script w = map snd calls @ rest"
  shows "\<exists>w'. timer_life pf u hs fuel f interval w = Done limit w' \<and> os_script w' = rest \<and>
    os_trace w' = os_trace w @ map (\<lambda>(c, r). Sys c r) calls"
proof -
  let ?src = "LooperSource_setWakeFunction (Some f) (AsTimer pf interval)"
  let ?run = "prepare_calls pf q 2 rd wr @ concat (map (expiry_calls pf q 1 d) es) @ wake_calls wr js"
  let ?down = "timer_removed pf q 1 d interval @ looper_closed pf q 2 rd wr"
  let ?w0 = "performed (created pf q) w"
  define ts :: "nat thread_state" where "ts = \<lparr>ts_looper = \<lparr>lp_waitSet = \<lparr>ws_handle = q, ws_sources = []\<rparr>, lp_trivialSource = 0, lp_shouldTerminate = False\<rparr>,
      ts_sources = \<lparr>sr_next = 2, sr_objects = [1 \<mapsto> ?src]\<rparr>, ts_client = 0\<rparr>"
  have script: "os_script ?w0 = map snd (timer_added pf q 1 d interval @ ?run) @ map snd ?down @ rest"
    using assms(8,9) by (simp add: created_def)
  have made: "Looper_ctor pf w = Done (ts_looper ts) ?w0"
    using assms(5,8,9)
    by (cases pf) (simp_all add: Looper_ctor_def WaitSet_ctor_def platformHandleCreate_def platformHandleCreate_Linux_def
        platformHandleCreate_Apple_def created_def retry_step interrupted_def CL_ASSERT_holds ts_def)
  obtain ts1 where ran: "Looper_addSource pf u 1 ts ?w0 = Done (True, ts1) (performed (timer_added pf q 1 d interval) ?w0)"
    "Looper_loop pf u hs fuel ts1 (performed (timer_added pf q 1 d interval) ?w0) =
      Done \<lparr>ts_looper = \<lparr>lp_waitSet = \<lparr>ws_handle = q, ws_sources = [1, 2]\<rparr>, lp_trivialSource = 2, lp_shouldTerminate = False\<rparr>,
        ts_sources = \<lparr>sr_next = Suc 2, sr_objects = [1 \<mapsto> timer_in_place pf f interval d, 2 \<mapsto> trivial_in_place rd wr]\<rparr>,
        ts_client = limit\<rparr> (performed (timer_added pf q 1 d interval @ ?run) ?w0)"
    by (rule timer_repeats [OF ts_def _ _ assms(1-4,6,7) refl script]) auto
  have "os_script (performed (timer_added pf q 1 d interval @ ?run) ?w0) = map snd ?down @ rest"
    using script by simp
  from taken_down [OF _ _ this, of u f limit]
  have "timer_life pf u hs fuel f interval w = Done limit (performed ?down (performed (timer_added pf q 1 d interval @ ?run) ?w0))"
    using made ran by (simp add: timer_life_def store_new_def store_empty_def ts_def numeral_2_eq_2 eval_nat_numeral)
  moreover have "performed ?down (performed (timer_added pf q 1 d interval @ ?run) ?w0) = performed calls w"
    unfolding assms(8) by simp
  ultimately show ?thesis using assms(9) by simp
qed

section \<open>Examples of the properties\<close>

text \<open>Ten expiries of a millisecond timer, the first of them after an interrupted wait.\<close>

definition ten_expiries :: "expiry list" where
  "ten_expiries = \<lparr>ex_waits = [reply (-1) EINTR], ex_reads = []\<rparr> # replicate 9 \<lparr>ex_waits = [], ex_reads = []\<rparr>"

definition ten_calls :: "platform \<Rightarrow> (syscall \<times> sysres) list" where
  "ten_calls pf = created pf 3 @ timer_added pf 3 1 4 1000000 @ prepare_calls pf 3 2 5 6 @
     concat (map (expiry_calls pf 3 1 4) ten_expiries) @ wake_calls 6 [] @ timer_removed pf 3 1 4 1000000 @
     looper_closed pf 3 2 5 6"

definition counting_handlers :: "nat handlers" where
  "counting_handlers = \<lparr>hd_reader = (\<lambda>_ _ ts. returnM ts), hd_wake = (\<lambda>_. counting_wake no_user_code 10)\<rparr>"

theorem Looper_timer_life_witness:
  "\<exists>w'. timer_life Linux no_user_code counting_handlers 11 7 1000000
      (start_os False (map snd (ten_calls Linux) @ [report 2])) = Done 10 w' \<and> os_script w' = [report 2] \<and>
    os_trace w' = os_trace (start_os False (map snd (ten_calls Linux) @ [report 2])) @ map (\<lambda>(c, r). Sys c r) (ten_calls Linux)"
  by (rule Looper_timer_life [where js = "[]" and es = ten_expiries, OF _ _ _ _ _ _ _ ten_calls_def])
    (auto simp: counting_handlers_def ten_expiries_def expiry_ok_def interrupted_def)

end
