(* ===== verification/CL_Safety.thy ===== *)
theory CL_Safety
  imports CL_Session
begin

text \<open>
  Type soundness of the event loop: the pointers, callbacks and buffers that the library uses
  are always there. A thread whose objects refer to each other properly (\<open>thread_ok\<close>) runs its
  loop without ever touching memory it should not, provided the client's code keeps it so and
  the kernel does not break its contract; each operation of the library preserves the typing.
\<close>

section \<open>The contract of the kernel\<close>

text \<open>The pointer that a call hands to the kernel for a later report.\<close>

fun registers :: "event \<Rightarrow> nat option" where
  "registers (Sys (EpollCtl q EPOLL_CTL_ADD fd p) r) = Some p"
| "registers (Sys (KeventChange q fd filt EV_ADD ns data p) r) = Some p"
| "registers e = None"

definition registered :: "nat \<Rightarrow> event list \<Rightarrow> bool" where
  "registered p es \<longleftrightarrow> Some p \<in> registers ` set es"

text \<open>
  A breach of it: a report of a pointer that was never registered, more bytes than there is room
  for, a control message that is too short for a descriptor.
\<close>

fun breach :: "event list \<Rightarrow> event \<Rightarrow> bool" where
  "breach es (Sys (EpollWait q) r) \<longleftrightarrow> r_rc r > 0 \<and> r_ptr r \<noteq> 0 \<and> \<not> registered (r_ptr r) es"
| "breach es (Sys (KeventWait q) r) \<longleftrightarrow> r_rc r > 0 \<and> r_ptr r \<noteq> 0 \<and> \<not> registered (r_ptr r) es"
| "breach es (Sys (Recvmsg h n k) r) \<longleftrightarrow>
     int n < to_int (r_rc r) \<or> (\<exists>c \<in> set (r_cmsgs r). length (cmsg_data c) < ControlBufferItemSize)"
| "breach es e \<longleftrightarrow> False"

text \<open>An event, with those before it, that is of the kind \<open>b\<close>.\<close>

fun happens :: "(event list \<Rightarrow> event \<Rightarrow> bool) \<Rightarrow> event list \<Rightarrow> event list \<Rightarrow> bool" where
  "happens b es [] \<longleftrightarrow> False"
| "happens b es (e # es') \<longleftrightarrow> b es e \<or> happens b (es @ [e]) es'"

definition breached :: "os \<Rightarrow> bool" where
  "breached w \<longleftrightarrow> happens breach [] (os_trace w)"

lemma registered_append [simp]: "registered p (es @ es') \<longleftrightarrow> registered p es \<or> registered p es'"
  by (auto simp: registered_def)

lemma happens_append: "happens b es (xs @ ys) \<longleftrightarrow> happens b es xs \<or> happens b (es @ xs) ys"
  by (induction xs arbitrary: es) simp_all

lemma breachedI: "os_trace w = es @ e # es' \<Longrightarrow> breach es e \<Longrightarrow> breached w"
  by (simp add: breached_def happens_append)

lemma breached_mono: "breached w \<Longrightarrow> os_le P w w' \<Longrightarrow> breached w'"
  by (auto simp: breached_def os_le_def happens_append)

section \<open>Operations that keep to their types\<close>

text \<open>
  \<open>sound P m Q\<close>: started in a world with \<open>P\<close>, the operation never ends in a memory fault and
  leaves a result with \<open>Q\<close>, unless the kernel breaks its contract.
\<close>

definition safe_outcome :: "('a \<Rightarrow> os \<Rightarrow> bool) \<Rightarrow> 'a outcome \<Rightarrow> bool" where
  "safe_outcome Q r \<longleftrightarrow> breached (outcome_world r) \<or>
     (case r of Done a w \<Rightarrow> Q a w | Fail e w \<Rightarrow> e \<noteq> MemoryFault)"

definition sound :: "(os \<Rightarrow> bool) \<Rightarrow> (os \<Rightarrow> 'a outcome) \<Rightarrow> ('a \<Rightarrow> os \<Rightarrow> bool) \<Rightarrow> bool" where
  "sound P m Q \<longleftrightarrow> forward (\<lambda>_. True) m \<and> (\<forall>w. P w \<longrightarrow> safe_outcome Q (m w))"

lemma soundD: "sound P m Q \<Longrightarrow> P w \<Longrightarrow> safe_outcome Q (m w)"
  by (simp add: sound_def)

lemma sound_forward: "sound P m Q \<Longrightarrow> forward (\<lambda>_. True) m"
  by (simp add: sound_def)

lemma sound_bindM:
  assumes "sound P m Q" "\<And>a. sound (Q a) (f a) R"
  shows "sound P (bindM m f) R"
proof -
  have "safe_outcome R (bindM m f w)" if "P w" for w
  proof (cases "m w")
    case (Done a w')
    show ?thesis
    proof (cases "breached w'")
      case True
      from breached_mono [OF this forwardD [OF sound_forward [OF assms(2)]]] Done show ?thesis
        by (simp add: safe_outcome_def)
    next
      case False
      with soundD [OF assms(1) that] Done have "Q a w'" by (simp add: safe_outcome_def)
      from soundD [OF assms(2) this] Done show ?thesis by simp
    qed
  next
    case (Fail e w')
    with soundD [OF assms(1) that] show ?thesis by (simp add: safe_outcome_def)
  qed
  with assms show ?thesis
    by (auto simp: sound_def intro: forward_bindM)
qed

lemma sound_seqM: "sound P m (\<lambda>_. Q) \<Longrightarrow> sound Q n R \<Longrightarrow> sound P (seqM m n) R"
  unfolding seqM_def by (rule sound_bindM)

lemma sound_returnM: "(\<And>w. P w \<Longrightarrow> Q a w) \<Longrightarrow> sound P (returnM a) Q"
  by (auto simp: sound_def safe_outcome_def forward_intros)

lemma sound_failM: "e \<noteq> MemoryFault \<Longrightarrow> sound P (failM e) Q"
  unfolding sound_def by (rule conjI [OF forward_basic(2)]) (simp add: safe_outcome_def)

lemma sound_weaken:
  "sound P m Q \<Longrightarrow> (\<And>w. P' w \<Longrightarrow> P w) \<Longrightarrow> (\<And>a w. Q a w \<Longrightarrow> Q' a w) \<Longrightarrow> sound P' m Q'"
  unfolding sound_def safe_outcome_def by (fastforce split: outcome.splits)

lemma sound_impossible: "(\<And>w. \<not> P w) \<Longrightarrow> forward (\<lambda>_. True) m \<Longrightarrow> sound P m Q"
  by (simp add: sound_def)

lemma sound_if:
  "(b \<Longrightarrow> sound P m Q) \<Longrightarrow> (\<not> b \<Longrightarrow> sound P n Q) \<Longrightarrow> sound P (if b then m else n) Q"
  by simp

text \<open>Operations of the library that touch no memory through pointers.\<close>

definition faultless :: "(os \<Rightarrow> 'a outcome) \<Rightarrow> bool" where
  "faultless m \<longleftrightarrow> (\<forall>w w'. m w \<noteq> Fail MemoryFault w')"

named_theorems faultless_intros "operations that cannot end in a memory fault"

lemma faultless_bindM [faultless_intros]:
  "faultless m \<Longrightarrow> (\<And>a. faultless (f a)) \<Longrightarrow> faultless (bindM m f)"
  unfolding faultless_def bindM_apply by (metis bind_out.elims outcome.distinct(1) outcome.inject(2))

lemma faultless_seqM [faultless_intros]: "faultless m \<Longrightarrow> faultless n \<Longrightarrow> faultless (seqM m n)"
  unfolding seqM_def by (rule faultless_bindM)

lemma faultless_basic [faultless_intros]:
  "faultless (returnM a)" "faultless (CL_ASSERT b)" "faultless (sys c)" "faultless CL_LOG_ERRNO"
  "faultless malloc" "faultless (emit e)"
  by (auto simp: faultless_def CL_ASSERT_def sys_def CL_LOG_ERRNO_def emit_def malloc_def split: list.splits)

lemma faultless_retry [faultless_intros]: "faultless (CL_TEMP_FAILURE_RETRY c)"
  unfolding faultless_def using retry_FailE by fastforce

lemma faultless_if [faultless_intros]:
  "(b \<Longrightarrow> faultless m) \<Longrightarrow> (\<not> b \<Longrightarrow> faultless n) \<Longrightarrow> faultless (if b then m else n)"
  by simp

lemma faultless_check [faultless_intros]: "faultless (CL_CHECK c)"
  unfolding CL_CHECK_def CL_CHECK_EXPECT_def by (intro faultless_intros)

section \<open>Well-typed threads\<close>

text \<open>
  A channel has its buffers. In a well-typed thread memory can be allocated, every pointer the
  kernel was given is that of a source, and every reader leads to an object that exists.
\<close>

definition channel_ok :: "channel \<Rightarrow> bool" where
  "channel_ok c \<longleftrightarrow> socket_ready (ch_socket c)"

fun reader_ok :: "objects \<Rightarrow> reader option \<Rightarrow> bool" where
  "reader_ok obs (Some (ChannelReader cid)) \<longleftrightarrow> ob_channels obs cid \<noteq> None"
| "reader_ok obs (Some (ServerReader sid)) \<longleftrightarrow> ob_servers obs sid \<noteq> None"
| "reader_ok obs r \<longleftrightarrow> True"

definition objects_ok :: "thread \<Rightarrow> bool" where
  "objects_ok ts \<longleftrightarrow>
     (\<forall>p s. sr_objects (ts_sources ts) p = Some s \<longrightarrow> reader_ok (ts_client ts) (so_readHandler s)) \<and>
     (\<forall>cid c. ob_channels (ts_client ts) cid = Some c \<longrightarrow> channel_ok c)"

definition thread_ok :: "thread \<Rightarrow> os \<Rightarrow> bool" where
  "thread_ok ts w \<longleftrightarrow>
     (\<forall>k. os_malloc w k) \<and> objects_ok ts \<and>
     (\<forall>p. registered p (os_trace w) \<longrightarrow> sr_objects (ts_sources ts) p \<noteq> None)"

definition keeps_sources :: "thread \<Rightarrow> thread \<Rightarrow> bool" where
  "keeps_sources ts ts' \<longleftrightarrow> dom (sr_objects (ts_sources ts)) \<subseteq> dom (sr_objects (ts_sources ts'))"

lemma keeps_sources_refl [simp]: "keeps_sources ts ts"
  by (simp add: keeps_sources_def)

lemma keeps_sources_trans: "keeps_sources ts ts' \<Longrightarrow> keeps_sources ts' ts'' \<Longrightarrow> keeps_sources ts ts''"
  by (auto simp: keeps_sources_def)

lemma thread_ok_le:
  assumes "thread_ok ts w" "os_le (\<lambda>e. registers e = None) w w'"
  shows "thread_ok ts w'"
proof -
  from assms(2) obtain evs where "os_trace w' = os_trace w @ evs" "\<forall>e \<in> set evs. registers e = None"
    "os_malloc w' = os_malloc w"
    by (auto simp: os_le_def)
  with assms(1) show ?thesis by (auto simp: thread_ok_def registered_def)
qed

text \<open>What moves the world forward without registering anything keeps a thread well-typed.\<close>

lemma sound_quiet:
  assumes "forward (\<lambda>e. registers e = None) m" "faultless m"
  shows "sound (thread_ok ts) m (\<lambda>_. thread_ok ts)"
proof -
  have "safe_outcome (\<lambda>_. thread_ok ts) (m w)" if "thread_ok ts w" for w
    using thread_ok_le [OF that forwardD [OF assms(1)]] assms(2)
    by (cases "m w") (auto simp: safe_outcome_def faultless_def)
  with forward_mono [OF assms(1)] show ?thesis by (simp add: sound_def)
qed

lemma thread_ok_put_channel:
  assumes "thread_ok ts w" "channel_ok c"
  shows "thread_ok (put_channel cid c ts) w" "keeps_sources ts (put_channel cid c ts)"
proof -
  have "reader_ok (ts_client ts) r \<Longrightarrow> reader_ok (ts_client (put_channel cid c ts)) r" for r
    by (cases "(ts_client ts, r)" rule: reader_ok.cases) (auto simp: put_channel_def)
  with assms show "thread_ok (put_channel cid c ts) w"
    by (fastforce simp: thread_ok_def objects_ok_def put_channel_def split: if_splits)
  show "keeps_sources ts (put_channel cid c ts)"
    by (simp add: keeps_sources_def put_channel_def)
qed

lemma thread_ok_put_server:
  assumes "thread_ok ts w"
  shows "thread_ok (put_server sid sv ts) w" "keeps_sources ts (put_server sid sv ts)"
proof -
  have "reader_ok (ts_client ts) r \<Longrightarrow> reader_ok (ts_client (put_server sid sv ts)) r" for r
    by (cases "(ts_client ts, r)" rule: reader_ok.cases) (auto simp: put_server_def)
  with assms show "thread_ok (put_server sid sv ts) w"
    by (fastforce simp: thread_ok_def objects_ok_def put_server_def split: if_splits)
  show "keeps_sources ts (put_server sid sv ts)"
    by (simp add: keeps_sources_def put_server_def)
qed

section \<open>Code of the client\<close>

lemma sound_frame:
  assumes "sound A m Q'" "\<And>a w. B \<Longrightarrow> Q' a w \<Longrightarrow> Q a w"
  shows "sound (\<lambda>w. A w \<and> B) m Q"
proof (cases B)
  case True
  with assms show ?thesis by (intro sound_weaken [OF assms(1)]) auto
next
  case False
  then show ?thesis by (intro sound_impossible sound_forward [OF assms(1)]) simp
qed

text \<open>
  Client code that keeps the thread well-typed and the sources it knows: closures of sources,
  callbacks (which leave the message callback of the channel they are called on in its place),
  readers and wake functions.
\<close>

definition closures_ok :: "user_code \<Rightarrow> bool" where
  "closures_ok u \<longleftrightarrow>
     (\<forall>ts n. sound (thread_ok ts) (uc_allocator u n) (\<lambda>_. thread_ok ts)) \<and>
     (\<forall>ts n p q h b. sound (thread_ok ts) (uc_updater u n p q h b) (\<lambda>_. thread_ok ts))"

definition client_ok :: "client \<Rightarrow> bool" where
  "client_ok cl \<longleftrightarrow>
     (\<forall>f m c ts. sound (\<lambda>w. channel_ok c \<and> thread_ok ts w) (cb_message (cl_callbacks cl) f m (c, ts))
        (\<lambda>(c', ts') w. channel_ok c' \<and> thread_ok ts' w \<and> keeps_sources ts ts' \<and>
           (ch_messageReceivedCallback c \<noteq> None \<longrightarrow> ch_messageReceivedCallback c' \<noteq> None))) \<and>
     (\<forall>f c ts. sound (\<lambda>w. channel_ok c \<and> thread_ok ts w) (cb_terminate (cl_callbacks cl) f (c, ts))
        (\<lambda>(c', ts') w. channel_ok c' \<and> thread_ok ts' w \<and> keeps_sources ts ts')) \<and>
     (\<forall>f c sv ts. sound (\<lambda>w. channel_ok c \<and> ch_source c = 0 \<and> thread_ok ts w) (cl_availability cl f c (sv, ts))
        (\<lambda>(sv', ts') w. thread_ok ts' w \<and> keeps_sources ts ts')) \<and>
     (\<forall>n h ts. sound (thread_ok ts) (cl_reader cl n h ts) (\<lambda>ts' w. thread_ok ts' w \<and> keeps_sources ts ts')) \<and>
     (\<forall>f ts. sound (thread_ok ts) (cl_wake cl f ts) (\<lambda>ts' w. thread_ok ts' w \<and> keeps_sources ts ts'))"

text \<open>The states of a channel that is being read, together with its thread.\<close>

definition reading_ok :: "thread \<Rightarrow> channel \<times> thread \<Rightarrow> os \<Rightarrow> bool" where
  "reading_ok ts cx w \<longleftrightarrow> channel_ok (fst cx) \<and> thread_ok (snd cx) w \<and> keeps_sources ts (snd cx)"

lemma client_okD:
  assumes "client_ok cl"
  shows
    "sound (\<lambda>w. reading_ok ts cx w \<and> ch_messageReceivedCallback (fst cx) \<noteq> None)
       (cb_message (cl_callbacks cl) f m cx)
       (\<lambda>cx' w. reading_ok ts cx' w \<and> ch_messageReceivedCallback (fst cx') \<noteq> None)"
    "sound (reading_ok ts cx) (cb_terminate (cl_callbacks cl) f cx) (reading_ok ts)"
    "sound (\<lambda>w. channel_ok c \<and> ch_source c = 0 \<and> thread_ok (snd sx) w \<and> keeps_sources ts (snd sx)) (cl_availability cl f c sx)
       (\<lambda>sx' w. thread_ok (snd sx') w \<and> keeps_sources ts (snd sx'))"
    "sound (thread_ok ts) (cl_reader cl n h ts) (\<lambda>ts' w. thread_ok ts' w \<and> keeps_sources ts ts')"
    "sound (thread_ok ts) (cl_wake cl g ts) (\<lambda>ts' w. thread_ok ts' w \<and> keeps_sources ts ts')"
proof -
  note cl = assms [unfolded client_ok_def]
  obtain c' ts' where cx: "cx = (c', ts')" by (cases cx)
  have message: "sound (\<lambda>w. channel_ok c' \<and> thread_ok ts' w) (cb_message (cl_callbacks cl) f m (c', ts'))
        (\<lambda>(c'', ts'') w. channel_ok c'' \<and> thread_ok ts'' w \<and> keeps_sources ts' ts'' \<and>
           (ch_messageReceivedCallback c' \<noteq> None \<longrightarrow> ch_messageReceivedCallback c'' \<noteq> None))"
    using cl by blast
  show "sound (\<lambda>w. reading_ok ts cx w \<and> ch_messageReceivedCallback (fst cx) \<noteq> None)
       (cb_message (cl_callbacks cl) f m cx)
       (\<lambda>cx' w. reading_ok ts cx' w \<and> ch_messageReceivedCallback (fst cx') \<noteq> None)"
    unfolding cx
    by (rule sound_weaken [OF sound_frame [where B = "keeps_sources ts ts' \<and> ch_messageReceivedCallback c' \<noteq> None", OF message]])
      (auto simp: reading_ok_def intro: keeps_sources_trans)
  have terminate: "sound (\<lambda>w. channel_ok c' \<and> thread_ok ts' w) (cb_terminate (cl_callbacks cl) f (c', ts'))
        (\<lambda>(c'', ts'') w. channel_ok c'' \<and> thread_ok ts'' w \<and> keeps_sources ts' ts'')"
    using cl by blast
  show "sound (reading_ok ts cx) (cb_terminate (cl_callbacks cl) f cx) (reading_ok ts)"
    unfolding cx
    by (rule sound_weaken [OF sound_frame [where B = "keeps_sources ts ts'", OF terminate]])
      (auto simp: reading_ok_def intro: keeps_sources_trans)
  obtain sv ts' where sx: "sx = (sv, ts')" by (cases sx)
  have available: "sound (\<lambda>w. channel_ok c \<and> ch_source c = 0 \<and> thread_ok ts' w) (cl_availability cl f c (sv, ts'))
        (\<lambda>(sv', ts'') w. thread_ok ts'' w \<and> keeps_sources ts' ts'')"
    using cl by blast
  show "sound (\<lambda>w. channel_ok c \<and> ch_source c = 0 \<and> thread_ok (snd sx) w \<and> keeps_sources ts (snd sx)) (cl_availability cl f c sx)
       (\<lambda>sx' w. thread_ok (snd sx') w \<and> keeps_sources ts (snd sx'))"
    unfolding sx
    by (rule sound_weaken [OF sound_frame [where B = "keeps_sources ts ts'", OF available]])
      (auto intro: keeps_sources_trans)
qed (use assms in \<open>auto simp: client_ok_def\<close>)

section \<open>Reading a socket\<close>

lemma recv_call_breach:
  "breach es (Sys (recv_call s) r) \<longleftrightarrow>
     int MaxBufferSize < to_int (r_rc r) \<or> (\<exists>c \<in> set (r_cmsgs r). length (cmsg_data c) < ControlBufferItemSize)"
  by (simp add: recv_call_def)

lemma addAttachment_faultless: "liftE (Message_addAttachment dbg a m) w \<noteq> Fail MemoryFault w'"
  by (auto simp: Message_addAttachment_def liftE_def)

lemma read_descriptors_faultless:
  assumes "\<forall>c \<in> set cs. \<not> length (cmsg_data c) < ControlBufferItemSize"
  shows "faultless (read_descriptors cs m)"
  using assms
proof (induction cs arbitrary: m)
  case (Cons c cs)
  have "faultless (\<lambda>w. liftE (Message_addAttachment (\<not> os_ndebug w) a m) w)" for a
    using addAttachment_faultless by (simp add: faultless_def)
  moreover have "\<not> length (cmsg_data c) < ControlBufferItemSize" "\<And>m. faultless (read_descriptors cs m)"
    using Cons by simp_all
  ultimately show ?case
    unfolding read_descriptors.simps Let_def by (intro faultless_intros) blast+
qed (simp add: faultless_intros)

lemma read_message_faultless:
  assumes "socket_ready s" "\<forall>k. os_malloc w k" "\<not> breach es (Sys (recv_call s) r)" "0 < to_int (r_rc r)"
  shows "read_message (receive_into r s) r (nat (to_int (r_rc r))) w \<noteq> Fail MemoryFault w'"
proof -
  from assms(1) obtain b cs where b: "sk_buffer s = Some b" "length b = MaxBufferSize"
      "sk_controlBuffer s = Some cs"
    by (auto simp: socket_ready_def split: option.splits)
  have len: "nat (to_int (r_rc r)) \<le> MaxBufferSize" "\<forall>c \<in> set (r_cmsgs r). \<not> length (cmsg_data c) < ControlBufferItemSize"
    using assms(3) by (auto simp: recv_call_breach)
  have buf: "sk_buffer (receive_into r s) = Some (determined (take (length b) (r_bytes r)) @ drop (length (r_bytes r)) b)"
    "sk_controlBuffer (receive_into r s) = Some (r_cmsgs r)"
    using b by (simp_all add: receive_into_def)
  have "length (determined (take (length b) (r_bytes r)) @ drop (length (r_bytes r)) b) = MaxBufferSize"
    using b(2) by (simp add: min_def)
  then obtain src where src: "Option.bind (sk_buffer (receive_into r s)) (\<lambda>b. region_read b 0 (nat (to_int (r_rc r)))) = Some src"
    using len(1) by (simp add: buf(1) region_read_def del: length_append)
  have fl: "faultless (read_descriptors (r_cmsgs r) m)" for m
    using read_descriptors_faultless [OF len(2)] .
  have "faultless (bindM (if r_cmsgs r = [] then returnM m else read_descriptors (r_cmsgs r) m)
      (\<lambda>m'. seqM (CL_ASSERT (\<not> r_ctrunc r)) (returnM m')))" for m
    by (intro faultless_intros fl)
  then show ?thesis
    unfolding read_message_def src buf(2) option.case bindM_apply [of malloc] using assms(2)
    by (simp add: malloc_def Message_of_buffer_def faultless_def)
qed

lemma read_loop_sound:
  assumes "socket_ready s" "\<forall>k. os_malloc w k"
  shows "safe_outcome (\<lambda>(_, s') _. socket_ready s') (read_loop ms s w)"
  using assms
proof (induction ms s w rule: read_loop.induct)
  case (1 ms s w)
  show ?case
  proof (cases "CL_TEMP_FAILURE_RETRY (recv_call s) w")
    case (Fail e w')
    with retry_FailE [OF this] show ?thesis by (subst read_loop.simps) (simp add: safe_outcome_def)
  next
    case (Done r w1)
    from Done obtain "is" where w1: "w1 = answered (recv_call s) (is @ [r]) w" by (rule retry_DoneE)
    have malloc: "\<forall>k. os_malloc w1 k" using "1.prems"(2) w1 by simp
    have ready: "socket_ready (receive_into r s)" using "1.prems"(1) by simp
    show ?thesis
    proof (cases "breach (os_trace w @ map (Sys (recv_call s)) is) (Sys (recv_call s) r)")
      case True
      have "os_trace w1 = (os_trace w @ map (Sys (recv_call s)) is) @ Sys (recv_call s) r # []" by (simp add: w1)
      from breachedI [OF this True] have broken: "breached w1" .
      have "forward (\<lambda>_. True) (bindM (read_message (receive_into r s) r n) (\<lambda>m. read_loop (ms @ [m]) (receive_into r s)))" for n
        by (intro forward_intros forward_mono [OF read_loop_forward]) simp
      note f1 = breached_mono [OF broken forwardD [OF this], unfolded bindM_apply]
      note f2 = breached_mono [OF broken forwardD [OF read_loop_forward]]
      from Done broken f1 f2 show ?thesis
        by (subst read_loop.simps) (simp add: safe_outcome_def Let_def)
    next
      case False
      show ?thesis
      proof (cases "0 < to_int (r_rc r)")
        case pos: True
        show ?thesis
        proof (cases "read_message (receive_into r s) r (nat (to_int (r_rc r))) w1")
          case (Fail e w')
          with read_message_faultless [OF "1.prems"(1) malloc False pos, of w'] Done pos show ?thesis
            by (subst read_loop.simps) (auto simp: safe_outcome_def Let_def)
        next
          case m: (Done m w2)
          from forward_Done [OF read_message_forward m, of "\<lambda>_. True"] malloc have "\<forall>k. os_malloc w2 k"
            by (simp add: os_le_malloc)
          from "1.IH"(1) [OF Done refl refl pos m ready this] Done pos m show ?thesis
            by (subst read_loop.simps) (simp add: Let_def)
        qed
      next
        case neg: False
        with Done ready "1.IH"(2) [OF Done refl refl neg _ _ ready malloc] show ?thesis
          by (subst read_loop.simps) (auto simp: safe_outcome_def Let_def)
      qed
    qed
  qed
qed

section \<open>Channels and servers\<close>

lemma sound_stable:
  assumes "forward (\<lambda>e. registers e = None) m" "faultless m"
    "\<And>w w'. P w \<Longrightarrow> os_le (\<lambda>e. registers e = None) w w' \<Longrightarrow> P w'"
  shows "sound P m (\<lambda>_. P)"
proof -
  have "safe_outcome (\<lambda>_. P) (m w)" if "P w" for w
    using assms(3) [OF that forwardD [OF assms(1)]] assms(2)
    by (cases "m w") (auto simp: safe_outcome_def faultless_def)
  with forward_mono [OF assms(1)] show ?thesis by (simp add: sound_def)
qed

lemma reading_ok_le:
  "reading_ok ts cx w \<Longrightarrow> os_le (\<lambda>e. registers e = None) w w' \<Longrightarrow> reading_ok ts cx w'"
  using thread_ok_le by (auto simp: reading_ok_def)

lemma only_on_registers: "only_on h e \<Longrightarrow> registers e = None"
  by (cases e rule: registers.cases) (auto simp: only_on_def)

lemma ReadMessages_sound:
  "sound (reading_ok ts (c, x)) (Socket_ReadMessages (ch_socket c))
     (\<lambda>(_, s) w. reading_ok ts (c\<lparr>ch_socket := s\<rparr>, x) w)"
proof -
  let ?s = "ch_socket c"
  have f: "forward (\<lambda>e. registers e = None) (Socket_ReadMessages ?s)"
    by (rule forward_mono [OF ReadMessages_forward only_on_registers])
  have "safe_outcome (\<lambda>(_, s) w. reading_ok ts (c\<lparr>ch_socket := s\<rparr>, x) w) (Socket_ReadMessages ?s w)"
    if ok: "reading_ok ts (c, x) w" for w
  proof (cases "lk_locked (sk_lock ?s)")
    case True
    then show ?thesis by (simp add: Socket_ReadMessages_def with_AutoLock_held safe_outcome_def)
  next
    case False
    let ?l = "?s\<lparr>sk_lock := (sk_lock ?s)\<lparr>lk_locked := True\<rparr>\<rparr>"
    have "socket_ready ?l" "\<forall>k. os_malloc w k"
      using ok by (simp_all add: reading_ok_def channel_ok_def thread_ok_def socket_ready_def)
    note safe = read_loop_sound [OF this, of "[]"]
    have after: "reading_ok ts (c\<lparr>ch_socket := s\<rparr>, x) w'" if "socket_ready s"
      "Socket_ReadMessages ?s w = Done (a, s) w'" for a s w'
      using reading_ok_le [OF ok forward_Done [OF f that(2)]] that(1)
      by (simp add: reading_ok_def channel_ok_def)
    show ?thesis
    proof (cases "read_loop [] ?l w")
      case (Fail e w')
      with safe False show ?thesis
        by (simp add: Socket_ReadMessages_def with_AutoLock_free safe_outcome_def)
    next
      case (Done y w')
      obtain a s where y: "y = (a, s)" by (cases y)
      let ?s' = "s\<lparr>sk_lock := Lock_unlock (sk_lock s)\<rparr>"
      have run: "Socket_ReadMessages ?s w = Done (a, ?s') w'"
        using Done y False by (simp add: Socket_ReadMessages_def with_AutoLock_free)
      have "socket_ready s \<Longrightarrow> socket_ready ?s'" by (simp add: socket_ready_def)
      with safe Done y after [OF _ run] run show ?thesis by (auto simp: safe_outcome_def)
    qed
  qed
  with forward_mono [OF f] show ?thesis by (simp add: sound_def)
qed

lemma dispatch_messages_sound:
  assumes "client_ok cl"
  shows "sound (\<lambda>w. reading_ok ts cx w \<and> ch_messageReceivedCallback (fst cx) \<noteq> None)
     (dispatch_messages (cl_callbacks cl) ms cx) (reading_ok ts)"
proof (induction ms arbitrary: cx)
  case Nil
  show ?case unfolding dispatch_messages.simps by (rule sound_returnM) simp
next
  case (Cons m ms)
  show ?case
  proof (cases "ch_messageReceivedCallback (fst cx)")
    case None
    show ?thesis
      unfolding dispatch_messages.simps None option.case
      by (rule sound_impossible) (use None in \<open>simp_all only: forward_basic simp_thms\<close>)
  next
    case (Some f)
    have "sound (\<lambda>w. reading_ok ts cx w \<and> ch_messageReceivedCallback (fst cx) \<noteq> None)
      (emit (MessageReceived f (Message_data m) (map att_handle (m_attachments m))))
      (\<lambda>_ w. reading_ok ts cx w \<and> ch_messageReceivedCallback (fst cx) \<noteq> None)"
      by (rule sound_stable) (auto intro: forward_emit faultless_basic reading_ok_le)
    note run = sound_seqM [OF this sound_bindM [OF client_okD(1) [OF assms] Cons]]
    have "dispatch_messages (cl_callbacks cl) (m # ms) cx =
        seqM (emit (MessageReceived f (Message_data m) (map att_handle (m_attachments m))))
          (bindM (cb_message (cl_callbacks cl) f m cx) (dispatch_messages (cl_callbacks cl) ms))"
      by (simp only: dispatch_messages.simps Some option.case)
    with run show ?thesis by (simp only:)
  qed
qed

lemma Channel_terminate_sound:
  assumes "client_ok cl"
  shows "sound (reading_ok ts cx) (Channel_terminate (cl_callbacks cl) cx) (reading_ok ts)"
proof -
  obtain c x where cx: "cx = (c, x)" by (cases cx)
  let ?c = "\<lambda>s. c\<lparr>ch_socket := s, ch_connected := False, ch_ready := False\<rparr>"
  have f: "forward (\<lambda>e. registers e = None) (Socket_close (ch_socket c))"
    by (intro forward_intros) simp_all
  have fl: "faultless (Socket_close (ch_socket c))"
    unfolding Socket_close_def by (intro faultless_intros)
  have "safe_outcome (\<lambda>(_, s) w. reading_ok ts (?c s, x) w) (Socket_close (ch_socket c) w)"
    if "reading_ok ts (c, x) w" for w
  proof (cases "Socket_close (ch_socket c) w")
    case (Fail e w')
    with fl show ?thesis by (auto simp: safe_outcome_def faultless_def)
  next
    case (Done y w')
    obtain b s where y: "y = (b, s)" by (cases y)
    from sock.close_result(3) [OF Done [unfolded y]]
    have "socket_ready (ch_socket c) \<Longrightarrow> socket_ready s" by (auto simp: socket_ready_def)
    with reading_ok_le [OF that forward_Done [OF f Done]] y Done show ?thesis
      by (simp add: safe_outcome_def reading_ok_def channel_ok_def)
  qed
  with forward_mono [OF f] have close: "sound (reading_ok ts (c, x)) (Socket_close (ch_socket c))
      (\<lambda>(_, s) w. reading_ok ts (?c s, x) w)"
    by (simp add: sound_def)
  have tell: "sound (reading_ok ts cx') (seqM (emit (Terminated g)) (cb_terminate (cl_callbacks cl) g cx')) (reading_ok ts)"
    for g cx'
    by (rule sound_seqM [OF sound_stable client_okD(2) [OF assms]])
      (auto intro: forward_emit faultless_basic reading_ok_le)
  have "sound (case r of (_, s) \<Rightarrow> reading_ok ts (?c s, x))
    (case r of (closed, s) \<Rightarrow> let c' = ?c s in
        (case ch_terminationCallback c' of None \<Rightarrow> returnM (c', x)
         | Some g \<Rightarrow> if closed then seqM (emit (Terminated g)) (cb_terminate (cl_callbacks cl) g (c', x))
             else returnM (c', x))) (reading_ok ts)" for r
    by (cases r) (auto simp: Let_def intro!: sound_returnM tell split: option.split)
  note rest = this
  show ?thesis
    unfolding cx Channel_terminate_def Let_def [of "(c, x)"] prod.case
    by (rule sound_bindM [OF close rest])
qed

lemma Channel_readMessageOnHandle_sound:
  assumes "client_ok cl"
  shows "sound (reading_ok ts cx) (Channel_readMessageOnHandle (cl_callbacks cl) h cx) (reading_ok ts)"
proof -
  obtain c x where cx: "cx = (c, x)" by (cases cx)
  let ?c = "\<lambda>s. c\<lparr>ch_socket := s\<rparr>"
  have dispatch: "sound (reading_ok ts (?c s, x))
      (if ch_messageReceivedCallback (?c s) \<noteq> None then dispatch_messages (cl_callbacks cl) ms (?c s, x)
       else returnM (?c s, x)) (reading_ok ts)" for s ms
    by (rule sound_if) (auto intro: sound_weaken [OF dispatch_messages_sound [OF assms]] sound_returnM)
  have finish: "sound (reading_ok ts cx')
      (if st = PermanentFailure then Channel_terminate (cl_callbacks cl) cx' else returnM cx') (reading_ok ts)"
    for st cx'
    by (rule sound_if) (auto intro: Channel_terminate_sound [OF assms] sound_returnM)
  have "sound (case r of (_, s) \<Rightarrow> reading_ok ts (?c s, x))
      ((\<lambda>((st, ms), s). let c' = ?c s in
        bindM (if ch_messageReceivedCallback c' \<noteq> None then dispatch_messages (cl_callbacks cl) ms (c', x)
               else returnM (c', x))
          (\<lambda>cx'. if st = PermanentFailure then Channel_terminate (cl_callbacks cl) cx' else returnM cx')) r)
      (reading_ok ts)" for r
    unfolding case_prod_unfold Let_def by (rule sound_bindM [OF dispatch finish])
  note rest = this
  show ?thesis
    unfolding cx Channel_readMessageOnHandle_def Let_def [of "(c, x)"] prod.case
    by (rule sound_bindM [OF ReadMessages_sound [of ts c x] rest])
qed

lemma malloc_sound: "sound (thread_ok ts) malloc (\<lambda>b w. b \<and> thread_ok ts w)"
  by (auto simp: sound_def safe_outcome_def malloc_def thread_ok_def forward_intros)

lemma Channel_of_handle_sound:
  "sound (thread_ok ts) (Channel_of_handle h) (\<lambda>c w. channel_ok c \<and> ch_source c = 0 \<and> thread_ok ts w)"
proof -
  let ?open = "if h = 0 then bindM (sys SocketCreate) (\<lambda>r.
      seqM (CL_ASSERT (r_rc r \<noteq> -1)) (returnM (r_rc r))) else returnM h"
  have "sound (thread_ok ts) ?open (\<lambda>_. thread_ok ts)"
    by (rule sound_quiet) (intro forward_intros faultless_intros; simp)+
  moreover have quiet: "sound (thread_ok ts) (CL_CHECK c) (\<lambda>_. thread_ok ts)"
    if "\<And>r. registers (Sys c r) = None" for c
    by (rule sound_quiet) (intro forward_intros faultless_intros; simp add: that)+
  moreover have "sound (thread_ok ts) (CL_ASSERT b) (\<lambda>_. thread_ok ts)" for b
    by (rule sound_quiet) (intro forward_intros faultless_intros)+
  moreover have "sound (\<lambda>w. b \<and> thread_ok ts w) malloc (\<lambda>b' w. b \<and> b' \<and> thread_ok ts w)" for b
    using malloc_sound [of ts] by (cases b) (auto simp: sound_def)
  ultimately have "sound (thread_ok ts) (Socket_ctor h) (\<lambda>s w. socket_ready s \<and> thread_ok ts w)"
    unfolding Socket_ctor_def
    by (intro sound_bindM [where Q = "\<lambda>_. thread_ok ts"] sound_seqM [where Q = "thread_ok ts"]
          sound_bindM [OF malloc_sound] sound_bindM [where Q = "\<lambda>b' w. b \<and> b' \<and> thread_ok ts w" for b]
          sound_returnM quiet)
      (auto simp: socket_ready_def)
  then show ?thesis
    unfolding Channel_of_handle_def Socket_Create_def
    by (rule sound_bindM) (auto intro!: sound_returnM simp: channel_ok_def Channel_of_socket_def)
qed

lemma Server_accept_sound:
  assumes "client_ok cl"
  shows "sound (thread_ok ts) (Server_onConnectionAvailableForAccept (cl_availability cl) h (sv, ts))
     (\<lambda>sx w. thread_ok (snd sx) w \<and> keeps_sources ts (snd sx))"
proof -
  let ?Q = "\<lambda>sx w. thread_ok (snd sx) w \<and> keeps_sources ts (snd sx)"
  have quiet: "sound (thread_ok ts) m (\<lambda>_. thread_ok ts)"
    if "forward (\<lambda>e. registers e = None) m" "faultless m" for m :: "os \<Rightarrow> 'b outcome"
    by (rule sound_quiet [OF that])
  have stay: "sound (thread_ok ts) (returnM (sv, ts)) ?Q"
    by (rule sound_returnM) simp
  have refused: "sound (thread_ok ts) (seqM CL_LOG_ERRNO (seqM (CL_ASSERT False) (returnM (sv, ts)))) ?Q"
    by (intro sound_seqM [OF quiet] stay; intro forward_intros faultless_intros; simp)
  have closed: "sound (thread_ok ts) (seqM (CL_CHECK (Close k)) (returnM (sv, ts))) ?Q" for k
    by (intro sound_seqM [OF quiet] stay; intro forward_intros faultless_intros; simp)
  have hand: "sound (\<lambda>w. channel_ok c \<and> ch_source c = 0 \<and> thread_ok ts w)
      (seqM (emit (ChannelAvailable f k)) (cl_availability cl f c (sv, ts))) ?Q" for c f k
  proof (rule sound_seqM)
    show "sound (\<lambda>w. channel_ok c \<and> ch_source c = 0 \<and> thread_ok ts w) (emit (ChannelAvailable f k)) (\<lambda>_ w. channel_ok c \<and> ch_source c = 0 \<and> thread_ok ts w)"
      by (rule sound_stable) (auto intro: forward_emit faultless_basic thread_ok_le)
    show "sound (\<lambda>w. channel_ok c \<and> ch_source c = 0 \<and> thread_ok ts w) (cl_availability cl f c (sv, ts)) ?Q"
      using client_okD(3) [OF assms, of c "(sv, ts)" ts f] by simp
  qed
  have made: "sound (thread_ok ts) (bindM (Channel_of_handle k) (\<lambda>c.
      seqM (emit (ChannelAvailable f (sk_handle (ch_socket c)))) (cl_availability cl f c (sv, ts)))) ?Q" for k f
    by (rule sound_bindM [OF Channel_of_handle_sound hand])
  have called: "sound (thread_ok ts) (sys (Accept k)) (\<lambda>_. thread_ok ts)" for k
    by (rule quiet; intro forward_intros faultless_intros; simp)
  have asserted: "sound (thread_ok ts) (CL_ASSERT b) (\<lambda>_. thread_ok ts)" for b
    by (rule quiet; intro forward_intros faultless_intros)
  show ?thesis
    unfolding Server_onConnectionAvailableForAccept_def Let_def fst_conv
    by (intro sound_seqM [OF asserted] sound_bindM [OF called] sound_if refused)
      (auto split: option.split intro: closed made)
qed

section \<open>The loop\<close>

lemma readHandle_sound:
  assumes "closures_ok u"
  shows "sound (thread_ok ts) (LooperSource_readHandle u s) (\<lambda>(_, s') w. thread_ok ts w \<and>
     so_readHandler s' = so_readHandler s \<and> so_wakeFunction s' = so_wakeFunction s)"
proof -
  have alloc: "sound (thread_ok ts) (run_allocator u a) (\<lambda>_. thread_ok ts)" for a
  proof (cases a)
    case (UserAllocator n)
    with assms show ?thesis by (simp add: closures_ok_def)
  qed (auto simp: pipe_allocate_def timer_allocate_def Let_def
      intro!: sound_quiet forward_intros faultless_intros)
  have "sound (thread_ok ts) (case so_handlesAllocator s of None \<Rightarrow> returnM (so_handles s) | Some a \<Rightarrow> run_allocator u a)
      (\<lambda>_. thread_ok ts)"
    by (auto split: option.split intro: alloc sound_returnM)
  note from_allocator = this
  have "sound (thread_ok ts) (LooperSource_handles u s) (\<lambda>(_, s') w. thread_ok ts w \<and>
     so_readHandler s' = so_readHandler s \<and> so_wakeFunction s' = so_wakeFunction s)"
    unfolding LooperSource_handles_def
    by (intro sound_if sound_bindM [OF from_allocator] sound_returnM) simp_all
  then show ?thesis
    unfolding LooperSource_readHandle_def
    by (rule sound_bindM) (auto intro!: sound_returnM)
qed

text \<open>A report leads to a source that exists, or to none.\<close>

lemma WaitSet_wait_sound:
  "sound (thread_ok ts) (WaitSet_wait pf ws)
     (\<lambda>p w. thread_ok ts w \<and> (p = 0 \<or> sr_objects (ts_sources ts) p \<noteq> None))"
proof -
  let ?c = "(case pf of Linux \<Rightarrow> EpollWait | Apple \<Rightarrow> KeventWait) (ws_handle ws)"
  let ?Q = "\<lambda>p w. thread_ok ts w \<and> (p = 0 \<or> sr_objects (ts_sources ts) p \<noteq> None)"
  have wait: "WaitSet_wait pf ws w = bind_out (CL_TEMP_FAILURE_RETRY ?c w) (\<lambda>r w'.
      bind_out (CL_ASSERT (r_rc r = 1) w') (\<lambda>_. Done (if r_rc r > 0 then r_ptr r else 0)))" for w
    by (cases pf) (simp_all add: WaitSet_wait_def epoll.wait_call kqueue.wait_call)
  have quiet: "registers (Sys ?c r) = None" for r by (cases pf) simp_all
  have breach: "breach es (Sys ?c r) \<longleftrightarrow> r_rc r > 0 \<and> r_ptr r \<noteq> 0 \<and> \<not> registered (r_ptr r) es" for es r
    by (cases pf) simp_all
  have "forward (\<lambda>_. True) (WaitSet_wait pf ws)" by (rule tame_forward [OF tame_wait])
  moreover have "safe_outcome ?Q (WaitSet_wait pf ws w)" if ok: "thread_ok ts w" for w
  proof (cases "CL_TEMP_FAILURE_RETRY ?c w")
    case (Fail e w')
    with retry_FailE [OF this] show ?thesis by (simp add: wait safe_outcome_def)
  next
    case (Done r w1)
    from Done obtain "is" where w1: "w1 = answered ?c (is @ [r]) w" by (rule retry_DoneE)
    have le: "forward (\<lambda>e. registers e = None) (CL_TEMP_FAILURE_RETRY ?c)"
      by (intro forward_intros) (rule quiet)
    have ok1: "thread_ok ts w1" by (rule thread_ok_le [OF ok forward_Done [OF le Done]])
    show ?thesis
    proof (cases "breach (os_trace w @ map (Sys ?c) is) (Sys ?c r)")
      case True
      have "os_trace w1 = (os_trace w @ map (Sys ?c) is) @ Sys ?c r # []" by (simp add: w1)
      from breachedI [OF this True] have "breached w1" .
      with Done show ?thesis by (auto simp: wait safe_outcome_def CL_ASSERT_def)
    next
      case False
      have "\<not> registered p (map (Sys ?c) is)" for p
        using quiet by (auto simp: registered_def)
      with False breach ok have "r_rc r > 0 \<Longrightarrow> r_ptr r = 0 \<or> sr_objects (ts_sources ts) (r_ptr r) \<noteq> None"
        unfolding thread_ok_def by auto
      with Done ok1 show ?thesis by (auto simp: wait safe_outcome_def CL_ASSERT_def)
    qed
  qed
  ultimately show ?thesis by (simp add: sound_def)
qed

text \<open>Handing a pointer to the kernel.\<close>

lemma sound_register:
  assumes "forward (\<lambda>e. registers e \<in> {None, Some p}) m" "faultless m"
  shows "sound (\<lambda>w. thread_ok ts w \<and> sr_objects (ts_sources ts) p \<noteq> None) m (\<lambda>_. thread_ok ts)"
proof -
  have "thread_ok ts w'" if "thread_ok ts w \<and> sr_objects (ts_sources ts) p \<noteq> None"
    "os_le (\<lambda>e. registers e \<in> {None, Some p}) w w'" for w w'
  proof -
    from that(2) obtain evs where "os_trace w' = os_trace w @ evs" "\<forall>e \<in> set evs. registers e \<in> {None, Some p}"
      "os_malloc w' = os_malloc w"
      by (auto simp: os_le_def)
    with that(1) show ?thesis by (fastforce simp: thread_ok_def registered_def)
  qed
  note keep = this [OF _ forwardD [OF assms(1)]]
  have "safe_outcome (\<lambda>_. thread_ok ts) (m w)" if "thread_ok ts w \<and> sr_objects (ts_sources ts) p \<noteq> None" for w
    using keep [OF that] assms(2) by (cases "m w") (auto simp: safe_outcome_def faultless_def)
  with forward_mono [OF assms(1)] show ?thesis by (simp add: sound_def)
qed

lemma thread_ok_looper [simp]:
  "thread_ok (ts\<lparr>ts_looper := l\<rparr>) w = thread_ok ts w"
  "thread_ok (ts\<lparr>ts_looper := l, ts_sources := st\<rparr>) w = thread_ok (ts\<lparr>ts_sources := st\<rparr>) w"
  "keeps_sources ts (ts'\<lparr>ts_looper := l\<rparr>) = keeps_sources ts ts'"
  "keeps_sources ts (ts'\<lparr>ts_looper := l, ts_sources := st\<rparr>) = keeps_sources ts (ts'\<lparr>ts_sources := st\<rparr>)"
  by (simp_all add: thread_ok_def objects_ok_def keeps_sources_def)

lemma thread_ok_put:
  assumes "thread_ok ts w" "sr_objects (ts_sources ts) p = Some s" "so_readHandler s' = so_readHandler s"
  shows "thread_ok (ts\<lparr>ts_sources := store_put p s' (ts_sources ts)\<rparr>) w"
    "keeps_sources ts (ts\<lparr>ts_sources := store_put p s' (ts_sources ts)\<rparr>)"
proof -
  have "reader_ok (ts_client ts) (so_readHandler s')" using assms by (auto simp: thread_ok_def objects_ok_def)
  with assms(1) show "thread_ok (ts\<lparr>ts_sources := store_put p s' (ts_sources ts)\<rparr>) w"
    by (auto simp: thread_ok_def objects_ok_def store_put_def)
  show "keeps_sources ts (ts\<lparr>ts_sources := store_put p s' (ts_sources ts)\<rparr>)"
    by (auto simp: keeps_sources_def store_put_def)
qed

lemma thread_ok_new:
  assumes "thread_ok ts w" "reader_ok (ts_client ts) (so_readHandler s)" "store_new s (ts_sources ts) = (p, st)"
  shows "thread_ok (ts\<lparr>ts_sources := st\<rparr>) w" "keeps_sources ts (ts\<lparr>ts_sources := st\<rparr>)" "sr_objects st p = Some s"
  using assms by (auto simp: thread_ok_def objects_ok_def store_new_def keeps_sources_def split: if_splits)

text \<open>A pointer that is dereferenced first.\<close>

lemma bind_deref:
  "bindM (deref st p) f = (case sr_objects st p of None \<Rightarrow> failM MemoryFault | Some s \<Rightarrow> f s)"
  by (intro ext) (simp add: deref_def split: option.split)

lemma sound_deref:
  assumes "\<And>s. sr_objects st p = Some s \<Longrightarrow> sound P (f s) Q"
  shows "sound (\<lambda>w. P w \<and> sr_objects st p \<noteq> None) (bindM (deref st p) f) Q"
proof (cases "sr_objects st p")
  case None
  show ?thesis
    unfolding bind_deref None option.case by (rule sound_impossible) (simp_all add: forward_basic)
next
  case (Some s)
  show ?thesis
    unfolding bind_deref Some option.case by (rule sound_weaken [OF assms [OF Some]]) simp_all
qed

lemma update_sound:
  assumes "closures_ok u"
  shows "sound (\<lambda>w. thread_ok ts w \<and> sr_objects (ts_sources ts) p \<noteq> None) (updateInWaitSetHandle pf u p q b s)
     (\<lambda>s' w. thread_ok ts w \<and> so_readHandler s' = so_readHandler s)"
proof -
  let ?P = "\<lambda>w. thread_ok ts w \<and> sr_objects (ts_sources ts) p \<noteq> None"
  have kernel: "sound ?P (seqM m (returnM s')) (\<lambda>s'' w. thread_ok ts w \<and> s'' = s')"
    if "sound ?P m (\<lambda>_. thread_ok ts)" for m :: "os \<Rightarrow> unit outcome" and s' :: looperSource
    using that by (rule sound_seqM) (rule sound_returnM, simp)
  have control: "sound ?P (seqM (CL_TEMP_FAILURE_RETRY c) (returnM ())) (\<lambda>_. thread_ok ts)"
    if "\<And>r. registers (Sys c r) \<in> {None, Some p}" for c
    by (rule sound_seqM [OF sound_register], intro forward_intros that, rule faultless_retry,
        rule sound_returnM) simp
  have updater: "sound ?P (run_updater u f p q h b) (\<lambda>_. thread_ok ts)" for f h
  proof (cases f)
    case (UserUpdater n)
    have "sound (thread_ok ts) (uc_updater u n p q h b) (\<lambda>_. thread_ok ts)"
      using assms by (simp add: closures_ok_def)
    then show ?thesis
      unfolding UserUpdater run_updater.simps by (rule sound_weaken) simp_all
  next
    case (KeventTimerUpdater i)
    then show ?thesis
      unfolding KeventTimerUpdater run_updater.simps kevent_timer_update_def LooperSource_UpdateKeventSource_def
      by (intro control) (cases b; simp)
  qed
  have read: "sound ?P (LooperSource_readHandle u s) (\<lambda>(_, s') w. ?P w \<and> so_readHandler s' = so_readHandler s)"
    by (rule sound_weaken [OF sound_frame [OF readHandle_sound [OF assms],
          where B = "sr_objects (ts_sources ts) p \<noteq> None"
            and Q = "\<lambda>(_, s') w. ?P w \<and> so_readHandler s' = so_readHandler s"]]) auto
  have rest: "sound (case r of (_, s') \<Rightarrow> \<lambda>w. ?P w \<and> so_readHandler s' = so_readHandler s)
      (case r of (h, s') \<Rightarrow> case so_customWaitSetUpdateHandler s of
         Some f \<Rightarrow> seqM (run_updater u f p q h b) (returnM s')
       | None \<Rightarrow> seqM (k h) (returnM s'))
      (\<lambda>s' w. thread_ok ts w \<and> so_readHandler s' = so_readHandler s)"
    if "\<And>h. sound ?P (k h) (\<lambda>_. thread_ok ts)" for r :: "handle \<times> looperSource" and k :: "handle \<Rightarrow> os \<Rightarrow> unit outcome"
  proof -
    have "sound (\<lambda>w. ?P w \<and> so_readHandler s' = so_readHandler s) (seqM m (returnM s'))
        (\<lambda>s' w. thread_ok ts w \<and> so_readHandler s' = so_readHandler s)"
      if "sound ?P m (\<lambda>_. thread_ok ts)" for m :: "os \<Rightarrow> unit outcome" and s' :: looperSource
    proof (cases "so_readHandler s' = so_readHandler s")
      case True
      show ?thesis by (rule sound_weaken [OF kernel [OF that, of s']]) (use True in auto)
    next
      case False
      then show ?thesis by (intro sound_impossible sound_forward [OF kernel [OF that]]) simp
    qed
    note each = this
    obtain h s' where r: "r = (h, s')" by (cases r)
    show ?thesis
      unfolding r prod.case
      by (cases "so_customWaitSetUpdateHandler s") (simp_all only: option.case each [OF that] each [OF updater])
  qed
  show ?thesis
    unfolding updateInWaitSetHandle_def
    by (cases pf; simp only: platform.case updateInWaitSetHandle_Linux_def updateInWaitSetHandle_Apple_def
        LooperSource_UpdateEpollSource_def LooperSource_UpdateKeventSource_def)
      (rule sound_bindM [OF read rest], rule control, cases b; simp)+
qed

lemma addSource_sound:
  assumes "closures_ok u"
  shows "sound (\<lambda>w. thread_ok ts w \<and> sr_objects (ts_sources ts) p \<noteq> None) (Looper_addSource pf u p ts)
     (\<lambda>(_, ts') w. thread_ok ts' w \<and> keeps_sources ts ts')"
proof -
  let ?P = "\<lambda>w. thread_ok ts w \<and> sr_objects (ts_sources ts) p \<noteq> None"
  let ?Q = "\<lambda>st w. thread_ok (ts\<lparr>ts_sources := st\<rparr>) w \<and> keeps_sources ts (ts\<lparr>ts_sources := st\<rparr>)"
  have "sound (thread_ok ts) (bindM (updateInWaitSetHandle pf u p q True s)
      (\<lambda>s'. returnM (store_put p s' (ts_sources ts)))) ?Q" if s: "sr_objects (ts_sources ts) p = Some s" for q s
    by (rule sound_bindM [OF sound_weaken [OF update_sound [OF assms],
          where Q' = "\<lambda>s' w. thread_ok ts w \<and> so_readHandler s' = so_readHandler s"]])
      (use s in \<open>auto intro!: sound_returnM thread_ok_put [OF _ s]\<close>)
  then have update: "sound ?P (update_source pf u q True p (ts_sources ts)) ?Q" for q
    unfolding update_source_def by (rule sound_deref)
  have add: "sound ?P (WaitSet_addSource pf u p ws (ts_sources ts)) (\<lambda>(_, _, st). ?Q st)" for ws
    unfolding WaitSet_addSource_def
    by (intro sound_if sound_bindM [OF update] sound_returnM) auto
  show ?thesis
    unfolding Looper_addSource_def
    by (rule sound_bindM [OF add]) (auto intro!: sound_returnM)
qed

lemma prepare_sound:
  assumes "closures_ok u"
  shows "sound (thread_ok ts) (Looper_prepare pf u ts) thread_ok"
proof (cases "lp_trivialSource (ts_looper ts) = 0")
  case False
  then show ?thesis
    unfolding Looper_prepare_def by (simp only: if_False) (rule sound_returnM)
next
  case True
  obtain p st where new: "store_new LooperSource_AsTrivial (ts_sources ts) = (p, st)" by force
  let ?ts = "ts\<lparr>ts_looper := (ts_looper ts)\<lparr>lp_trivialSource := p\<rparr>, ts_sources := st\<rparr>"
  have "?ts = ts\<lparr>ts_sources := st\<rparr>\<lparr>ts_looper := (ts_looper ts)\<lparr>lp_trivialSource := p\<rparr>\<rparr>" by simp
  moreover have "reader_ok (ts_client ts) (so_readHandler LooperSource_AsTrivial)"
    by (simp add: LooperSource_AsTrivial_def LooperSource_ctor_def)
  ultimately have "thread_ok ?ts w \<and> sr_objects (ts_sources ?ts) p \<noteq> None" if "thread_ok ts w" for w
    using thread_ok_new [OF that _ new] by (simp only: thread_ok_looper) simp
  then have "sound (thread_ok ts) (Looper_addSource pf u p ?ts) (\<lambda>(_, ts') w. thread_ok ts' w)"
    by (intro sound_weaken [OF addSource_sound [OF assms]]) auto
  then have "sound (thread_ok ts) (bindM (Looper_addSource pf u p ?ts) (\<lambda>(_, ts''). returnM ts'')) thread_ok"
    by (rule sound_bindM) (auto intro!: sound_returnM)
  with True show ?thesis
    unfolding Looper_prepare_def new Let_def prod.case by simp
qed

lemma run_reader_sound:
  assumes "client_ok cl"
  shows "sound (\<lambda>w. thread_ok ts w \<and> reader_ok (ts_client ts) (Some r)) (run_reader (library_handlers cl) r h ts)
     (\<lambda>ts' w. thread_ok ts' w \<and> keeps_sources ts ts')"
proof -
  let ?Q = "\<lambda>ts' w. thread_ok ts' w \<and> keeps_sources ts ts'"
  have quiet: "sound (thread_ok ts) (seqM m (returnM ts)) ?Q"
    if "forward (\<lambda>e. registers e = None) m" "faultless m" for m :: "os \<Rightarrow> unit outcome"
    by (rule sound_seqM [OF sound_quiet [OF that]]) (rule sound_returnM, simp)
  have channel: "sound (thread_ok ts) (bindM (Channel_readMessageOnHandle (cl_callbacks cl) h (c, ts))
      (\<lambda>(c', ts'). returnM (put_channel cid c' ts'))) ?Q" if "ob_channels (ts_client ts) cid = Some c" for cid c
    by (rule sound_bindM [OF sound_weaken [OF Channel_readMessageOnHandle_sound [OF assms]], where Q = "reading_ok ts"])
      (use that in \<open>auto simp: reading_ok_def thread_ok_def [of ts] objects_ok_def [of ts] intro!: sound_returnM
        thread_ok_put_channel intro: keeps_sources_trans\<close>)
  have server: "sound (thread_ok ts) (bindM (Server_onConnectionAvailableForAccept (cl_availability cl) h (s, ts))
      (\<lambda>(s', ts'). returnM (put_server sid s' ts'))) ?Q" for sid s
    by (rule sound_bindM [OF Server_accept_sound [OF assms]])
      (auto intro!: sound_returnM thread_ok_put_server intro: keeps_sources_trans)
  show ?thesis
  proof (cases r)
    case WakeReader
    have "sound (thread_ok ts) (run_reader (library_handlers cl) r h ts) ?Q"
      unfolding WakeReader run_reader.simps wake_read_def
      by (rule quiet; intro forward_intros faultless_intros; simp)
    then show ?thesis by (rule sound_weaken) simp_all
  next
    case TimerReader
    have "sound (thread_ok ts) (run_reader (library_handlers cl) r h ts) ?Q"
      unfolding TimerReader run_reader.simps timer_read_def
      by (rule quiet; intro forward_intros faultless_intros; simp)
    then show ?thesis by (rule sound_weaken) simp_all
  next
    case (ChannelReader cid)
    show ?thesis
    proof (cases "ob_channels (ts_client ts) cid")
      case None
      then show ?thesis
        by (intro sound_impossible) (simp_all add: ChannelReader library_handlers_def forward_basic)
    next
      case (Some c)
      from channel [OF Some] Some show ?thesis
        by (simp add: ChannelReader library_handlers_def)
    qed
  next
    case (ServerReader sid)
    show ?thesis
    proof (cases "ob_servers (ts_client ts) sid")
      case None
      then show ?thesis
        by (intro sound_impossible) (simp_all add: ServerReader library_handlers_def forward_basic)
    next
      case (Some s)
      with server [of s sid] show ?thesis by (simp add: ServerReader library_handlers_def)
    qed
  next
    case (UserReader n)
    then show ?thesis using client_okD(4) [OF assms] by (simp add: library_handlers_def)
  qed
qed

lemma onAwoken_sound:
  assumes "client_ok cl"
  shows "sound (\<lambda>w. thread_ok ts w \<and> sr_objects (ts_sources ts) p \<noteq> None) (onAwoken (library_handlers cl) p ts) thread_ok"
  unfolding onAwoken_def
  by (rule sound_deref)
    (auto simp: library_handlers_def split: option.split intro!: sound_returnM
      intro: sound_weaken [OF client_okD(5) [OF assms]])

lemma dispatch_sound:
  assumes "client_ok cl" "closures_ok u"
  shows "sound (\<lambda>w. thread_ok ts w \<and> (p = 0 \<or> sr_objects (ts_sources ts) p \<noteq> None))
     (Looper_dispatch u (library_handlers cl) p ts) thread_ok"
proof (cases "p = 0")
  case True
  have "Looper_dispatch u (library_handlers cl) p ts = returnM ts"
    using True by (simp add: Looper_dispatch_def)
  then show ?thesis by (simp only:) (rule sound_returnM, simp)
next
  case False
  let ?put = "\<lambda>s'. ts\<lparr>ts_sources := store_put p s' (ts_sources ts)\<rparr>"
  let ?Q = "\<lambda>ts' w. thread_ok ts' w \<and> sr_objects (ts_sources ts') p \<noteq> None"
  let ?read = "\<lambda>s. case so_readHandler s of None \<Rightarrow> returnM ts
      | Some r \<Rightarrow> bindM (LooperSource_readHandle u s) (\<lambda>(h, s'). run_reader (library_handlers cl) r h (?put s'))"
  have read: "sound (thread_ok ts) (?read s) ?Q" if s: "sr_objects (ts_sources ts) p = Some s" for s
  proof (cases "so_readHandler s")
    case None
    show ?thesis unfolding None option.case by (rule sound_returnM) (simp add: s)
  next
    case (Some r)
    have "reader_ok (ts_client ts) (Some r)" if "thread_ok ts w" for w
      using that s Some by (metis thread_ok_def objects_ok_def)
    then have handle: "sound (thread_ok ts) (LooperSource_readHandle u s)
        (\<lambda>(_, s') w. thread_ok (?put s') w \<and> reader_ok (ts_client (?put s')) (Some r))"
      by (intro sound_weaken [OF readHandle_sound [OF assms(2)]]) (auto intro: thread_ok_put [OF _ s])
    have run: "sound (\<lambda>w. thread_ok (?put s') w \<and> reader_ok (ts_client (?put s')) (Some r))
        (run_reader (library_handlers cl) r h (?put s')) ?Q" for h s'
      by (rule sound_weaken [OF run_reader_sound [OF assms(1)]]) (auto simp: keeps_sources_def store_put_def)
    show ?thesis
      unfolding Some option.case by (rule sound_bindM [OF handle]) (use run in auto)
  qed
  have "sound (\<lambda>w. thread_ok ts w \<and> sr_objects (ts_sources ts) p \<noteq> None) (Looper_dispatch u (library_handlers cl) p ts) thread_ok"
    unfolding Looper_dispatch_def if_not_P [OF False]
    by (rule sound_deref) (rule sound_bindM [OF read onAwoken_sound [OF assms(1)]])
  with False show ?thesis by (simp add: sound_def)
qed

lemma while_sound:
  assumes "client_ok cl" "closures_ok u"
  shows "sound (thread_ok ts) (Looper_while pf u (library_handlers cl) n ts) thread_ok"
proof (induction n arbitrary: ts)
  case 0
  show ?case unfolding Looper_while.simps by (rule sound_failM) simp
next
  case (Suc n)
  show ?case
    unfolding Looper_while.simps
    by (intro sound_if sound_bindM [OF WaitSet_wait_sound] sound_bindM [OF dispatch_sound [OF assms]] Suc
        sound_returnM) simp
qed

lemma loop_sound:
  assumes "client_ok cl" "closures_ok u"
  shows "sound (thread_ok ts) (Looper_loop pf u (library_handlers cl) n ts) thread_ok"
  unfolding Looper_loop_def by (rule sound_bindM [OF prepare_sound [OF assms(2)] while_sound [OF assms]])

section \<open>Properties\<close>

text \<open>
  C6: Type soundness. A well-typed thread whose client keeps it well-typed runs its loop without a
  null dereference, a dangling reader, an empty callback or an access outside a buffer: the
  loop ends in a memory fault only after the kernel has reported a pointer that was never
  registered, returned more bytes than there is room for, or a truncated control message. A
  loop that returns leaves the thread well-typed.
\<close>

theorem Program_memory_safe:
  assumes "thread_ok ts w" "client_ok cl" "closures_ok u"
  shows "case Looper_loop pf u (library_handlers cl) n ts w of
      Done ts' w' \<Rightarrow> thread_ok ts' w' \<or> breached w'
    | Fail e w' \<Rightarrow> e \<noteq> MemoryFault \<or> breached w'"
  using soundD [OF loop_sound [OF assms(2,3)] assms(1), of pf n]
  by (auto simp: safe_outcome_def split: outcome.splits)

section \<open>Examples of the properties\<close>

lemma program_client_ok: "client_ok program_client"
proof -
  have "sound P (Done a) Q" if "\<And>w. P w \<Longrightarrow> Q a w" for P :: "os \<Rightarrow> bool" and a :: 'a and Q
    using sound_returnM [of P Q a] that by (simp add: returnM_eta)
  then show ?thesis
    unfolding client_ok_def program_client_def
    by (auto intro!: sound_returnM simp: returnM_eta [symmetric])
qed

text \<open>The client that adopts the connections it is offered uses the library's own operations.\<close>

lemma put_channel_addSource:
  "bindM (Looper_addSource pf u p ts) (\<lambda>(b, ts'). f (put_channel cid c ts')) =
   bindM (Looper_addSource pf u p (put_channel cid c ts)) (\<lambda>(b, ts'). f ts')"
proof (cases ts)
  case (fields l st obs)
  show ?thesis
  proof
    fix w
    show "bindM (Looper_addSource pf u p ts) (\<lambda>(b, ts'). f (put_channel cid c ts')) w =
        bindM (Looper_addSource pf u p (put_channel cid c ts)) (\<lambda>(b, ts'). f ts') w"
      by (cases "WaitSet_addSource pf u p (lp_waitSet l) st w") (auto simp: fields Looper_addSource_def put_channel_def)
  qed
qed

lemma adopting_addSource:
  assumes "ch_connected c" "if ch_source c = 0 then store_new (LooperSource_ctor
      (Some (FixedHandles (sk_handle (ch_socket c)) (sk_handle (ch_socket c)))) None (Some (ChannelReader cid)) None)
      (ts_sources ts) = (p, st) else p = ch_source c \<and> st = ts_sources ts"
  shows "adopting pf u cid mf f c (sv, ts) =
    bindM (Looper_addSource pf u p (ts\<lparr>ts_sources := st\<rparr>)) (\<lambda>(b, ts').
      returnM (sv, put_channel cid (c\<lparr>ch_messageReceivedCallback := Some mf, ch_source := p\<rparr>) ts'))"
  using assms
  by (intro ext, case_tac "Looper_addSource pf u p (ts\<lparr>ts_sources := st\<rparr>) x")
    (auto simp: adopting_def Channel_scheduleInLooper_def Channel_source_def CL_ASSERT_holds
      Channel_setMessageReceivedCallback_def Let_def split: if_splits)

lemma adopting_sound:
  assumes "closures_ok u"
  shows "sound (\<lambda>w. channel_ok c \<and> ch_source c = 0 \<and> thread_ok ts w) (adopting pf u cid mf f c (sv, ts))
     (\<lambda>(sv', ts') w. thread_ok ts' w \<and> keeps_sources ts ts')"
proof (cases "ch_connected c")
  case False
  then have "adopting pf u cid mf f c (sv, ts) = returnM (sv, put_channel cid (c\<lparr>ch_messageReceivedCallback := Some mf\<rparr>) ts)"
    by (intro ext) (simp add: adopting_def Channel_scheduleInLooper_def Channel_setMessageReceivedCallback_def)
  then show ?thesis
    by (simp only:) (rule sound_returnM, auto simp: channel_ok_def intro!: thread_ok_put_channel)
next
  case True
  let ?src = "LooperSource_ctor (Some (FixedHandles (sk_handle (ch_socket c)) (sk_handle (ch_socket c)))) None
    (Some (ChannelReader cid)) None"
  obtain p st where p: "if ch_source c = 0 then store_new ?src (ts_sources ts) = (p, st)
      else p = ch_source c \<and> st = ts_sources ts"
    by (cases "ch_source c = 0") force+
  let ?c = "c\<lparr>ch_messageReceivedCallback := Some mf, ch_source := p\<rparr>"
  let ?ts = "(put_channel cid ?c ts)\<lparr>ts_sources := st\<rparr>"
  have comm: "put_channel cid ?c (ts\<lparr>ts_sources := st\<rparr>) = ?ts" by (cases ts) (simp add: put_channel_def)
  have "thread_ok ?ts w \<and> sr_objects (ts_sources ?ts) p \<noteq> None \<and> keeps_sources ts ?ts"
    if "channel_ok c" "ch_source c = 0" "thread_ok ts w" for w
  proof -
    have put: "thread_ok (put_channel cid ?c ts) w" "keeps_sources ts (put_channel cid ?c ts)"
      using thread_ok_put_channel [OF that(3), of ?c cid] that(1) by (auto simp: channel_ok_def)
    have "reader_ok (ts_client (put_channel cid ?c ts)) (so_readHandler ?src)"
      by (simp add: LooperSource_ctor_def put_channel_def)
    moreover have "store_new ?src (ts_sources (put_channel cid ?c ts)) = (p, st)"
      using p that(2) by (simp add: put_channel_def)
    ultimately show ?thesis
      using thread_ok_new [OF put(1)] keeps_sources_trans [OF put(2)] by fastforce
  qed
  note ok = this
  have "sound (\<lambda>w. channel_ok c \<and> ch_source c = 0 \<and> thread_ok ts w) (Looper_addSource pf u p ?ts)
      (\<lambda>(_, ts') w. thread_ok ts' w \<and> keeps_sources ts ts')"
  proof (cases "keeps_sources ts ?ts")
    case True
    with ok show ?thesis
      by (intro sound_weaken [OF addSource_sound [OF assms]]) (auto intro: keeps_sources_trans)
  next
    case False
    with ok show ?thesis
      by (intro sound_impossible sound_forward [OF addSource_sound [OF assms]]) blast
  qed
  then show ?thesis
    unfolding adopting_addSource [OF True p] put_channel_addSource [where f = "\<lambda>ts'. returnM (sv, ts')"] comm
    by (rule sound_bindM) (auto intro!: sound_returnM)
qed

lemma no_user_code_ok: "closures_ok no_user_code"
  unfolding closures_ok_def no_user_code_def user_code.simps by (auto intro!: sound_returnM)

lemma session_client_ok: "client_ok session_client"
  unfolding client_ok_def session_client_def client.simps callbacks.simps
  by (auto intro!: sound_returnM adopting_sound no_user_code_ok)

text \<open>The thread of the client, its source registered; a message ends the loop.\<close>

definition registered_os :: os where
  "registered_os = (start_os False [report 5, packet [4] [], reply (-1) EAGAIN])
     \<lparr>os_trace := [Sys (EpollCtl 3 EPOLL_CTL_ADD 7 5) (reply 0 ENONE)]\<rparr>"

lemma program_thread_ok:
  "thread_ok (program_thread (open_channel 7)) registered_os" "channel_ok (open_channel 7)"
  by (auto simp: thread_ok_def objects_ok_def program_thread_def registered_os_def registered_def channel_ok_def
      source_on_def LooperSource_AsTrivial_def LooperSource_ctor_def split: if_splits)

lemma program_run:
  "\<exists>ts w. Looper_loop Linux no_user_code (library_handlers program_client) 2 (program_thread (open_channel 7))
     registered_os = Done ts w \<and> \<not> breached w"
proof -
  let ?c = "open_channel 7"
  let ?ts = "program_thread ?c"
  let ?w1 = "answered (wait_call_of Linux ?ts) ([] @ [report 5]) registered_os"
  have script: "os_script registered_os = [] @ report 5 # [packet [4] [], reply (-1) EAGAIN]"
    by (simp add: registered_os_def)
  have wait: "WaitSet_wait Linux (lp_waitSet (ts_looper ?ts)) registered_os = Done 5 ?w1"
    using WaitSet_wait_report [OF script] by (simp add: report_def)
  have script1: "os_script ?w1 = rounds [([], packet [4] [])] @ [] @ reply (-1) EAGAIN # []"
    using script by (simp add: rounds_def)
  obtain s1 w2 where rd: "Socket_ReadMessages (ch_socket ?c) ?w1 =
      Done ((Success, map (\<lambda>(_, p). packet_message p) [([], packet [4] [])]), s1) w2"
    "os_trace w2 = os_trace ?w1 @ map (Sys (recv_call (ch_socket ?c))) (rounds [([], packet [4] [])] @ [] @ [reply (-1) EAGAIN])"
    by (rule ReadMessages_drains [OF script1, of Success "ch_socket ?c"])
      (auto simp: good_rounds_def good_packet_def packet_def read_end_def MaxBufferSize_def registered_os_def)
  let ?m = "packet_message (packet [4] [])"
  let ?w3 = "w2\<lparr>os_trace := os_trace w2 @ [MessageReceived 1 (Message_data ?m) (map att_handle (m_attachments ?m))]\<rparr>"
  let ?ts' = "?ts\<lparr>ts_looper := Looper_request (ts_looper ?ts)\<rparr>"
  have "Channel_readMessageOnHandle (cl_callbacks program_client) h (?c, ?ts) ?w1 = Done (?c\<lparr>ch_socket := s1\<rparr>, ?ts') ?w3" for h
    using rd(1) by (simp add: Channel_readMessageOnHandle_def Let_def emit_def program_client_def)
  from dispatch_channel [OF program_thread_simps(1) this]
  have "Looper_dispatch no_user_code (library_handlers program_client) 5 ?ts ?w1 =
      Done (put_channel 2 (?c\<lparr>ch_socket := s1\<rparr>) ?ts') ?w3" by simp
  moreover have "\<not> breached ?w3"
    by (simp add: breached_def rd(2) registered_os_def program_thread_def wait_call_of_def report_def packet_def
        recv_call_breach registered_def MaxBufferSize_def rounds_def to_int_small)
  ultimately show ?thesis
    using wait by (simp add: Looper_loop_def Looper_prepare_def numeral_2_eq_2 put_channel_def)
qed

theorem Program_memory_safe_witness:
  "\<exists>ts w. Looper_loop Linux no_user_code (library_handlers program_client) 2 (program_thread (open_channel 7))
     registered_os = Done ts w \<and> \<not> breached w \<and> thread_ok ts w"
proof -
  from program_run obtain ts w where "Looper_loop Linux no_user_code (library_handlers program_client) 2
      (program_thread (open_channel 7)) registered_os = Done ts w" "\<not> breached w" by blast
  with Program_memory_safe [OF program_thread_ok(1) program_client_ok no_user_code_ok, of Linux 2]
  show ?thesis by auto
qed

end
