(* ===== verification/CL_Unschedule.thy ===== *)
theory CL_Unschedule
  imports CL_Safety
begin

text \<open>
  Unscheduling a channel. Once its source has left the looper, the loop never runs its reader
  again, whatever else is ready, as long as the kernel reports only what is registered at the
  time of the report and the client does not register that source again.
\<close>

section \<open>Reports of what is no longer registered\<close>

fun stale :: "handle \<Rightarrow> event list \<Rightarrow> event \<Rightarrow> bool" where
  "stale q es (Sys (EpollWait q') r) \<longleftrightarrow>
     q' = q \<and> r_rc r > 0 \<and> r_ptr r \<noteq> 0 \<and> r_ptr r \<notin> ran (interest q es)"
| "stale q es (Sys (KeventWait q') r) \<longleftrightarrow>
     q' = q \<and> r_rc r > 0 \<and> r_ptr r \<noteq> 0 \<and> r_ptr r \<notin> ran (interest q es)"
| "stale q es e \<longleftrightarrow> False"

definition stale_report :: "handle \<Rightarrow> os \<Rightarrow> bool" where
  "stale_report q w \<longleftrightarrow> happens (stale q) [] (os_trace w)"

lemma stale_report_mono: "stale_report q w \<Longrightarrow> os_le P w w' \<Longrightarrow> stale_report q w'"
  by (auto simp: stale_report_def os_le_def happens_append)

lemma stale_reportI: "os_trace w = es @ e # es' \<Longrightarrow> stale q es e \<Longrightarrow> stale_report q w"
  by (simp add: stale_report_def happens_append)

lemma interest_event_ran: "ran (interest_event q m e) \<subseteq> ran m \<union> {p. registers e = Some p}"
  by (cases "(q, m, e)" rule: interest_event.cases) (auto simp: ran_def split: if_splits)

lemma interest_unregistered:
  assumes "p \<notin> ran (interest q (os_trace w))" "os_le (\<lambda>e. registers e \<noteq> Some p) w w'"
  shows "p \<notin> ran (interest q (os_trace w'))"
proof -
  have "p \<notin> ran (foldl (interest_event q) m es)" if "p \<notin> ran m" "\<forall>e \<in> set es. registers e \<noteq> Some p" for m es
    using that
  proof (induction es arbitrary: m)
    case (Cons e es)
    have "p \<notin> ran (interest_event q m e)" using interest_event_ran [of q m e] Cons.prems by auto
    from Cons.IH [OF this] Cons.prems(2) show ?case by simp
  qed simp
  with assms show ?thesis by (auto simp: os_le_def interest_append)
qed

section \<open>Operations that leave a source alone\<close>

text \<open>\<open>leaves p I m\<close>: the operation does not hand \<open>p\<close> to the kernel, and its results have \<open>I\<close>.\<close>

definition leaves :: "nat \<Rightarrow> ('a \<Rightarrow> bool) \<Rightarrow> (os \<Rightarrow> 'a outcome) \<Rightarrow> bool" where
  "leaves p I m \<longleftrightarrow> forward (\<lambda>e. registers e \<noteq> Some p) m \<and> (\<forall>w a w'. m w = Done a w' \<longrightarrow> I a)"

named_theorems leaves_intros "operations that leave a source alone"

lemma leaves_forward: "leaves p I m \<Longrightarrow> forward (\<lambda>e. registers e \<noteq> Some p) m"
  by (simp add: leaves_def)

lemma leaves_Done: "leaves p I m \<Longrightarrow> m w = Done a w' \<Longrightarrow> I a"
  unfolding leaves_def by blast

lemma leaves_bindM [leaves_intros]:
  assumes "leaves p I m" "\<And>a. I a \<Longrightarrow> leaves p J (f a)"
  shows "leaves p J (bindM m f)"
  unfolding leaves_def
proof (intro conjI forwardI allI impI)
  fix w
  show "os_le (\<lambda>e. registers e \<noteq> Some p) w (outcome_world (bindM m f w))"
  proof (cases "m w")
    case (Done a w')
    from forward_Done [OF leaves_forward [OF assms(1)] Done]
      forwardD [OF leaves_forward [OF assms(2) [OF leaves_Done [OF assms(1) Done]]], of w']
    show ?thesis using Done by (simp add: os_le_trans)
  next
    case (Fail e w')
    with forwardD [OF leaves_forward [OF assms(1)], of w] show ?thesis by simp
  qed
next
  fix w a w' assume "bindM m f w = Done a w'"
  then obtain b w1 where "m w = Done b w1" "f b w1 = Done a w'" by (auto simp: bind_out_Done_iff)
  with leaves_Done assms show "J a" by metis
qed

lemma leaves_weaken: "leaves p I m \<Longrightarrow> (\<And>a. I a \<Longrightarrow> J a) \<Longrightarrow> leaves p J m"
  by (auto simp: leaves_def)

lemma leaves_seqM [leaves_intros]: "leaves p I m \<Longrightarrow> leaves p J n \<Longrightarrow> leaves p J (seqM m n)"
  unfolding seqM_def by (rule leaves_bindM)

lemma leaves_basic [leaves_intros]:
  "I a \<Longrightarrow> leaves p I (returnM a)" "leaves p I (failM e)"
  by (simp_all add: leaves_def forward_intros)

lemma leaves_if [leaves_intros]:
  "(b \<Longrightarrow> leaves p I m) \<Longrightarrow> (\<not> b \<Longrightarrow> leaves p I n) \<Longrightarrow> leaves p I (if b then m else n)"
  by simp

text \<open>Operations that register nothing, or some other source.\<close>

lemma leaves_quiet: "forward (\<lambda>e. registers e = None) m \<Longrightarrow> leaves p (\<lambda>_. True) m"
  by (auto simp: leaves_def elim: forward_mono)

lemma leaves_other: "forward (\<lambda>e. registers e \<in> {None, Some p'}) m \<Longrightarrow> p' \<noteq> p \<Longrightarrow> leaves p (\<lambda>_. True) m"
  by (auto simp: leaves_def elim!: forward_mono)

section \<open>Threads with a source set apart\<close>

text \<open>The looper waits on \<open>q\<close>, and of all sources only the one at \<open>p\<close> has the reader \<open>rd\<close>.\<close>

definition apart :: "handle \<Rightarrow> nat \<Rightarrow> reader \<Rightarrow> 'c thread_state \<Rightarrow> bool" where
  "apart q p rd ts \<longleftrightarrow>
     p \<noteq> 0 \<and> ws_handle (lp_waitSet (ts_looper ts)) = q \<and> p < sr_next (ts_sources ts) \<and>
     (\<forall>p' s. sr_objects (ts_sources ts) p' = Some s \<longrightarrow> p' \<noteq> p \<longrightarrow> so_readHandler s \<noteq> Some rd)"

text \<open>Code of the client that keeps it so.\<close>

definition closures_leave :: "nat \<Rightarrow> user_code \<Rightarrow> bool" where
  "closures_leave p u \<longleftrightarrow>
     (\<forall>n. leaves p (\<lambda>_. True) (uc_allocator u n)) \<and>
     (\<forall>n p' q h b. p' \<noteq> p \<longrightarrow> leaves p (\<lambda>_. True) (uc_updater u n p' q h b))"

definition client_leaves :: "handle \<Rightarrow> nat \<Rightarrow> reader \<Rightarrow> client \<Rightarrow> bool" where
  "client_leaves q p rd cl \<longleftrightarrow> (\<forall>ts. apart q p rd ts \<longrightarrow>
     (\<forall>f m c. leaves p (\<lambda>(_, ts'). apart q p rd ts') (cb_message (cl_callbacks cl) f m (c, ts))) \<and>
     (\<forall>f c. leaves p (\<lambda>(_, ts'). apart q p rd ts') (cb_terminate (cl_callbacks cl) f (c, ts))) \<and>
     (\<forall>f c sv. leaves p (\<lambda>(_, ts'). apart q p rd ts') (cl_availability cl f c (sv, ts))) \<and>
     (\<forall>n h. leaves p (apart q p rd) (cl_reader cl n h ts)) \<and>
     (\<forall>f. leaves p (apart q p rd) (cl_wake cl f ts)))"

lemma client_leavesD:
  assumes "client_leaves q p rd cl"
  shows "apart q p rd (snd cx) \<Longrightarrow> leaves p (\<lambda>cx'. apart q p rd (snd cx')) (cb_message (cl_callbacks cl) f m cx)"
    "apart q p rd (snd cx) \<Longrightarrow> leaves p (\<lambda>cx'. apart q p rd (snd cx')) (cb_terminate (cl_callbacks cl) f cx)"
    "apart q p rd (snd sx) \<Longrightarrow> leaves p (\<lambda>sx'. apart q p rd (snd sx')) (cl_availability cl f c sx)"
    "apart q p rd ts \<Longrightarrow> leaves p (apart q p rd) (cl_reader cl n h ts)"
    "apart q p rd ts \<Longrightarrow> leaves p (apart q p rd) (cl_wake cl f ts)"
  using assms unfolding client_leaves_def case_prod_unfold by (metis prod.collapse)+

lemma apart_objects [simp]:
  "apart q p rd (put_channel cid c ts) = apart q p rd ts"
  "apart q p rd (put_server sid sv ts) = apart q p rd ts"
  by (simp_all add: apart_def put_channel_def put_server_def)

lemma apart_put:
  "apart q p rd ts \<Longrightarrow> sr_objects (ts_sources ts) p' = Some s \<Longrightarrow> so_readHandler s' = so_readHandler s \<Longrightarrow>
   apart q p rd (ts\<lparr>ts_sources := store_put p' s' (ts_sources ts)\<rparr>)"
  by (auto simp: apart_def store_put_def)

section \<open>The library leaves it alone\<close>

lemma ReadMessages_leaves: "leaves p (\<lambda>_. True) (Socket_ReadMessages s)"
  by (rule leaves_quiet [OF forward_mono [OF ReadMessages_forward only_on_registers]])

lemma close_leaves: "leaves p (\<lambda>_. True) (Socket_close s)"
  by (rule leaves_quiet) (intro forward_intros; simp)

lemma emit_leaves: "registers e = None \<Longrightarrow> leaves p (\<lambda>_. True) (emit e)"
  by (rule leaves_quiet) (intro forward_intros)

lemma dispatch_messages_leaves:
  assumes "client_leaves q p rd cl" "apart q p rd (snd cx)"
  shows "leaves p (\<lambda>cx'. apart q p rd (snd cx')) (dispatch_messages (cl_callbacks cl) ms cx)"
  using assms(2)
proof (induction ms arbitrary: cx)
  case Nil
  then show ?case by (simp only: dispatch_messages.simps leaves_basic)
next
  case (Cons m ms)
  show ?case
  proof (cases "ch_messageReceivedCallback (fst cx)")
    case None
    show ?thesis unfolding dispatch_messages.simps None option.case by (rule leaves_basic)
  next
    case (Some f)
    show ?thesis
      unfolding dispatch_messages.simps Some option.case
      by (intro leaves_seqM [OF emit_leaves] leaves_bindM [OF client_leavesD(1) [OF assms(1) Cons.prems]] Cons.IH)
        simp_all
  qed
qed

lemma Channel_terminate_leaves:
  assumes "client_leaves q p rd cl" "apart q p rd (snd cx)"
  shows "leaves p (\<lambda>cx'. apart q p rd (snd cx')) (Channel_terminate (cl_callbacks cl) cx)"
proof -
  have tell: "leaves p (\<lambda>cx'. apart q p rd (snd cx')) (seqM (emit (Terminated g)) (cb_terminate (cl_callbacks cl) g (c, snd cx)))"
    for g c
    by (intro leaves_seqM [OF emit_leaves] client_leavesD(2) [OF assms(1)]) (simp_all add: assms(2))
  show ?thesis
    unfolding Channel_terminate_def Let_def case_prod_unfold
    by (rule leaves_bindM [OF close_leaves])
      (auto intro!: leaves_basic tell simp: assms(2) split: option.split)
qed

lemma Channel_readMessageOnHandle_leaves:
  assumes "client_leaves q p rd cl" "apart q p rd (snd cx)"
  shows "leaves p (\<lambda>cx'. apart q p rd (snd cx')) (Channel_readMessageOnHandle (cl_callbacks cl) h cx)"
  unfolding Channel_readMessageOnHandle_def Let_def case_prod_unfold
  by (rule leaves_bindM [OF ReadMessages_leaves], rule leaves_bindM [where I = "\<lambda>cx'. apart q p rd (snd cx')"];
      intro leaves_if dispatch_messages_leaves Channel_terminate_leaves leaves_basic assms)
    (simp_all add: assms(2))

lemma Channel_of_handle_leaves: "leaves p (\<lambda>_. True) (Channel_of_handle h)"
  unfolding Channel_of_handle_def Socket_Create_def Socket_ctor_def
  by (rule leaves_quiet) (intro forward_intros; simp)

lemma Server_accept_leaves:
  assumes "client_leaves q p rd cl" "apart q p rd (snd sx)"
  shows "leaves p (\<lambda>sx'. apart q p rd (snd sx')) (Server_onConnectionAvailableForAccept (cl_availability cl) h sx)"
proof -
  have quiet: "leaves p (\<lambda>_. True) m" if "forward (\<lambda>e. registers e = None) m" for m :: "os \<Rightarrow> 'b outcome"
    by (rule leaves_quiet [OF that])
  show ?thesis
    unfolding Server_onConnectionAvailableForAccept_def Let_def
    by (rule leaves_seqM [OF quiet], intro forward_intros, rule leaves_bindM [OF quiet], intro forward_intros, simp)
      (auto split: option.split intro!: leaves_if leaves_basic leaves_bindM [OF Channel_of_handle_leaves]
        leaves_seqM [OF emit_leaves] leaves_seqM [OF quiet] forward_intros client_leavesD(3) [OF assms(1)]
        simp: assms(2))
qed

lemma run_reader_leaves:
  assumes "client_leaves q p rd cl" "apart q p rd ts"
  shows "leaves p (apart q p rd) (run_reader (library_handlers cl) r h ts)"
proof (cases r)
  case (ChannelReader cid)
  show ?thesis
  proof (cases "ob_channels (ts_client ts) cid")
    case (Some c)
    have "leaves p (apart q p rd) (bindM (Channel_readMessageOnHandle (cl_callbacks cl) h (c, ts))
        (\<lambda>(c', ts'). returnM (put_channel cid c' ts')))"
      by (rule leaves_bindM [OF Channel_readMessageOnHandle_leaves [OF assms(1)]])
        (auto intro!: leaves_basic simp: assms(2))
    with Some show ?thesis by (simp add: ChannelReader library_handlers_def)
  qed (simp add: ChannelReader library_handlers_def leaves_basic)
next
  case (ServerReader sid)
  show ?thesis
  proof (cases "ob_servers (ts_client ts) sid")
    case (Some s)
    have "leaves p (apart q p rd) (bindM (Server_onConnectionAvailableForAccept (cl_availability cl) h (s, ts))
        (\<lambda>(s', ts'). returnM (put_server sid s' ts')))"
      by (rule leaves_bindM [OF Server_accept_leaves [OF assms(1)]])
        (auto intro!: leaves_basic simp: assms(2))
    with Some show ?thesis by (simp add: ServerReader library_handlers_def)
  qed (simp add: ServerReader library_handlers_def leaves_basic)
next
  case (UserReader n)
  then show ?thesis using client_leavesD(4) [OF assms] by (simp add: library_handlers_def)
next
  case WakeReader
  have "leaves p (apart q p rd) (seqM (wake_read h) (returnM ts))"
    unfolding wake_read_def by (rule leaves_seqM [OF leaves_quiet]) (intro forward_intros leaves_basic assms; simp)+
  then show ?thesis by (simp add: WakeReader)
next
  case TimerReader
  have "leaves p (apart q p rd) (seqM (timer_read h) (returnM ts))"
    unfolding timer_read_def by (rule leaves_seqM [OF leaves_quiet]) (intro forward_intros leaves_basic assms; simp)+
  then show ?thesis by (simp add: TimerReader)
qed

section \<open>The loop\<close>

lemma run_allocator_leaves:
  assumes "closures_leave p u"
  shows "leaves p (\<lambda>_. True) (run_allocator u a)"
proof (cases a)
  case (UserAllocator n)
  with assms show ?thesis by (simp add: closures_leave_def)
qed (auto simp: pipe_allocate_def timer_allocate_def Let_def intro!: leaves_quiet forward_intros)

lemma readHandle_leaves:
  assumes "closures_leave p u"
  shows "leaves p (\<lambda>(_, s'). so_readHandler s' = so_readHandler s) (LooperSource_readHandle u s)"
  unfolding LooperSource_readHandle_def LooperSource_handles_def
  by (intro leaves_bindM [where I = "\<lambda>(_, s'). so_readHandler s' = so_readHandler s"] leaves_if
      leaves_bindM [where I = "\<lambda>_. True"])
    (auto intro!: leaves_basic split: option.split intro: run_allocator_leaves [OF assms])

text \<open>Only the source that is added is handed to the kernel.\<close>

lemma run_updater_leaves:
  assumes "closures_leave p u" "p' \<noteq> p"
  shows "leaves p (\<lambda>_. True) (run_updater u f p' q h b)"
proof (cases f)
  case (UserUpdater n)
  with assms show ?thesis by (simp add: closures_leave_def)
next
  case (KeventTimerUpdater i)
  have "leaves p (\<lambda>_. True) (kevent_timer_update i p' q h b)"
    unfolding kevent_timer_update_def LooperSource_UpdateKeventSource_def
    by (rule leaves_other [OF _ assms(2)]) (intro forward_intros, cases b; simp)
  then show ?thesis by (simp add: KeventTimerUpdater)
qed

lemma update_leaves:
  assumes "closures_leave p u" "p' \<noteq> p"
  shows "leaves p (\<lambda>s'. so_readHandler s' = so_readHandler s) (updateInWaitSetHandle pf u p' q b s)"
proof -
  have control: "leaves p (\<lambda>_. True) (seqM (CL_TEMP_FAILURE_RETRY c) (returnM ()))"
    if "\<And>r. registers (Sys c r) \<in> {None, Some p'}" for c
    by (rule leaves_other [OF _ assms(2)]) (intro forward_intros that)
  have "leaves p (\<lambda>s'. so_readHandler s' = so_readHandler s)
      (case r of (h, s') \<Rightarrow> case so_customWaitSetUpdateHandler s of
         Some f \<Rightarrow> seqM (run_updater u f p' q h b) (returnM s')
       | None \<Rightarrow> seqM (k h) (returnM s'))"
    if "case r of (_, s') \<Rightarrow> so_readHandler s' = so_readHandler s" "\<And>h. leaves p (\<lambda>_. True) (k h)"
    for r and k :: "handle \<Rightarrow> os \<Rightarrow> unit outcome"
    using that
    by (auto intro!: leaves_seqM [OF run_updater_leaves [OF assms]] leaves_seqM [OF that(2)] leaves_basic
        split: option.split)
  note rest = this
  show ?thesis
    unfolding updateInWaitSetHandle_def
    by (cases pf; simp only: platform.case updateInWaitSetHandle_Linux_def updateInWaitSetHandle_Apple_def
        LooperSource_UpdateEpollSource_def LooperSource_UpdateKeventSource_def)
      (rule leaves_bindM [OF readHandle_leaves [OF assms(1)] rest], assumption, rule control, cases b; simp)+
qed

lemma bind_deref_leaves:
  assumes "\<And>s. sr_objects st p' = Some s \<Longrightarrow> leaves p I (f s)"
  shows "leaves p I (bindM (deref st p') f)"
  unfolding bind_deref using assms by (auto split: option.split intro: leaves_basic)

lemma addSource_leaves:
  assumes "closures_leave p u" "p' \<noteq> p" "apart q p rd ts"
  shows "leaves p (\<lambda>(_, ts'). apart q p rd ts') (Looper_addSource pf u p' ts)"
proof -
  let ?I = "\<lambda>st. apart q p rd (ts\<lparr>ts_sources := st\<rparr>)"
  have "leaves p ?I (update_source pf u h True p' (ts_sources ts))" for h
    unfolding update_source_def
    by (rule bind_deref_leaves, rule leaves_bindM [OF update_leaves [OF assms(1,2)]])
      (auto intro!: leaves_basic apart_put [OF assms(3)])
  note update = this
  have "leaves p (\<lambda>(_, ws, st). ?I st \<and> ws_handle ws = q) (WaitSet_addSource pf u p' (lp_waitSet (ts_looper ts)) (ts_sources ts))"
    unfolding WaitSet_addSource_def
    by (intro leaves_if leaves_bindM [OF update] leaves_basic) (use assms(3) in \<open>auto simp: apart_def\<close>)
  then show ?thesis
    unfolding Looper_addSource_def
    by (rule leaves_bindM) (auto intro!: leaves_basic simp: apart_def)
qed

lemma prepare_leaves:
  assumes "closures_leave p u" "apart q p rd ts" "rd \<noteq> WakeReader"
  shows "leaves p (apart q p rd) (Looper_prepare pf u ts)"
proof (cases "lp_trivialSource (ts_looper ts) = 0")
  case True
  let ?t = "sr_next (ts_sources ts)"
  let ?ts = "ts\<lparr>ts_looper := (ts_looper ts)\<lparr>lp_trivialSource := ?t\<rparr>, ts_sources := \<lparr>sr_next = Suc ?t,
    sr_objects = (sr_objects (ts_sources ts))(?t \<mapsto> LooperSource_AsTrivial)\<rparr>\<rparr>"
  have "apart q p rd ?ts" "?t \<noteq> p"
    using assms(2,3) by (auto simp: apart_def LooperSource_AsTrivial_def LooperSource_ctor_def)
  from addSource_leaves [OF assms(1) this(2,1), of pf]
  have "leaves p (apart q p rd) (bindM (Looper_addSource pf u ?t ?ts) (\<lambda>(_, ts''). returnM ts''))"
    by (rule leaves_bindM) (auto intro: leaves_basic)
  then show ?thesis
    unfolding Looper_prepare_def if_P [OF True] store_new_def Let_def prod.case .
next
  case False
  then show ?thesis unfolding Looper_prepare_def using assms(2) by (simp add: leaves_basic)
qed

lemma dispatch_leaves:
  assumes "client_leaves q p rd cl" "closures_leave p u" "apart q p rd ts"
  shows "leaves p (apart q p rd) (Looper_dispatch u (library_handlers cl) p' ts)"
proof (cases "p' = 0")
  case True
  with assms(3) show ?thesis by (simp add: Looper_dispatch_def leaves_basic)
next
  case False
  have wake: "leaves p (apart q p rd) (onAwoken (library_handlers cl) p' ts')" if "apart q p rd ts'" for ts'
    unfolding onAwoken_def
    by (rule bind_deref_leaves)
      (auto simp: library_handlers_def that split: option.split intro!: leaves_basic client_leavesD(5) [OF assms(1)])
  have read: "leaves p (apart q p rd) (bindM (LooperSource_readHandle u s)
      (\<lambda>(h, s'). run_reader (library_handlers cl) r h (ts\<lparr>ts_sources := store_put p' s' (ts_sources ts)\<rparr>)))"
    if "sr_objects (ts_sources ts) p' = Some s" for s r
    by (rule leaves_bindM [OF readHandle_leaves [OF assms(2)]])
      (auto intro!: run_reader_leaves [OF assms(1)] apart_put [OF assms(3) that])
  show ?thesis
    unfolding Looper_dispatch_def if_not_P [OF False]
    by (rule bind_deref_leaves, rule leaves_bindM [OF _ wake])
      (auto split: option.split intro!: leaves_basic read assms(3))
qed

text \<open>The handlers with other code in the place of one reader.\<close>

definition rewired :: "reader \<Rightarrow> (handle \<Rightarrow> 'c thread_state \<Rightarrow> os \<Rightarrow> 'c thread_state outcome) \<Rightarrow> 'c handlers \<Rightarrow> 'c handlers" where
  "rewired rd g hs = hs\<lparr>hd_reader := (hd_reader hs)(rd := g)\<rparr>"

lemma rewired_wake: "hd_wake (rewired rd g hs) = hd_wake hs"
  by (simp add: rewired_def)

lemma run_reader_rewired: "r \<noteq> rd \<Longrightarrow> run_reader (rewired rd g hs) r h ts = run_reader hs r h ts"
  by (cases r) (simp_all add: rewired_def)

lemma dispatch_rewired:
  assumes "apart q p rd ts" "p' \<noteq> p"
  shows "Looper_dispatch u (rewired rd g hs) p' ts = Looper_dispatch u hs p' ts"
proof (cases "p' = 0 \<or> sr_objects (ts_sources ts) p' = None")
  case True
  then show ?thesis by (auto simp: Looper_dispatch_def bind_deref)
next
  case False
  then obtain s where s: "sr_objects (ts_sources ts) p' = Some s" by blast
  have "onAwoken (rewired rd g hs) = onAwoken hs"
    by (intro ext) (simp only: onAwoken_def rewired_wake)
  moreover have "so_readHandler s \<noteq> Some rd" using assms s unfolding apart_def by blast
  ultimately show ?thesis
    using False s
    by (cases "so_readHandler s") (simp_all add: Looper_dispatch_def bind_deref run_reader_rewired)
qed

text \<open>A wait returns the source that is set apart only if the kernel reports what it no longer has.\<close>

lemma wait_other:
  assumes "WaitSet_wait pf ws w = Done p' w1" "p \<notin> ran (interest (ws_handle ws) (os_trace w))" "p \<noteq> 0"
  shows "p' \<noteq> p \<or> stale_report (ws_handle ws) w1" "os_le (\<lambda>e. registers e \<noteq> Some p) w w1"
proof -
  let ?c = "(case pf of Linux \<Rightarrow> EpollWait | Apple \<Rightarrow> KeventWait) (ws_handle ws)"
  have "WaitSet_wait pf ws w = bind_out (CL_TEMP_FAILURE_RETRY ?c w) (\<lambda>r w'.
      bind_out (CL_ASSERT (r_rc r = 1) w') (\<lambda>_. Done (if r_rc r > 0 then r_ptr r else 0)))"
    by (cases pf) (simp_all add: WaitSet_wait_def epoll.wait_call kqueue.wait_call)
  with assms(1) obtain r where r: "CL_TEMP_FAILURE_RETRY ?c w = Done r w1" "p' = (if r_rc r > 0 then r_ptr r else 0)"
    by (auto simp: bind_out_Done_iff CL_ASSERT_Done)
  then obtain "is" where w1: "w1 = answered ?c (is @ [r]) w" by (auto elim: retry_DoneE)
  have quiet: "registers (Sys ?c x) = None" for x by (cases pf) simp_all
  show "os_le (\<lambda>e. registers e \<noteq> Some p) w w1"
    by (rule forward_Done [where m = "CL_TEMP_FAILURE_RETRY ?c", OF _ r(1)]) (intro forward_intros, simp add: quiet)
  show "p' \<noteq> p \<or> stale_report (ws_handle ws) w1"
  proof (cases "p' = p")
    case True
    have "interest (ws_handle ws) (os_trace w @ map (Sys ?c) is) = interest (ws_handle ws) (os_trace w)"
    proof (induction "is" rule: rev_induct)
      case (snoc i "is")
      then show ?case by (cases pf) (simp_all add: interest_append)
    qed simp
    then have "stale (ws_handle ws) (os_trace w @ map (Sys ?c) is) (Sys ?c r)"
      using r(2) True assms(2,3) by (cases pf) (auto split: if_splits)
    then have "stale_report (ws_handle ws) w1"
      by (intro stale_reportI [where es = "os_trace w @ map (Sys ?c) is" and es' = "[]"]) (simp_all add: w1)
    then show ?thesis ..
  qed simp
qed

lemma while_leaves:
  assumes "client_leaves q p rd cl" "closures_leave p u" "apart q p rd ts"
  shows "leaves p (apart q p rd) (Looper_while pf u (library_handlers cl) n ts)"
  using assms(3)
proof (induction n arbitrary: ts)
  case 0
  show ?case unfolding Looper_while.simps by (rule leaves_basic)
next
  case (Suc n)
  have "leaves p (\<lambda>_. True) (WaitSet_wait pf ws)" for ws
    unfolding WaitSet_wait_def platformHandleWait_def platformHandleWait_Linux_def platformHandleWait_Apple_def
    by (rule leaves_quiet, cases pf; simp only: platform.case; intro forward_intros; simp)
  note wait = this
  show ?case
    unfolding Looper_while.simps
    by (intro leaves_if leaves_bindM [OF wait] leaves_bindM [OF dispatch_leaves [OF assms(1,2) Suc.prems]] Suc.IH
        leaves_basic) (use Suc.prems in \<open>simp_all add: apart_def Looper_reset_def\<close>)
qed

lemma while_rewired:
  assumes "client_leaves q p rd cl" "closures_leave p u" "apart q p rd ts" "p \<notin> ran (interest q (os_trace w))"
  shows "stale_report q (outcome_world (Looper_while pf u (library_handlers cl) n ts w)) \<or>
    Looper_while pf u (rewired rd g (library_handlers cl)) n ts w = Looper_while pf u (library_handlers cl) n ts w"
  using assms(3,4)
proof (induction n arbitrary: ts w)
  case (Suc n)
  let ?hs = "library_handlers cl"
  have q: "ws_handle (lp_waitSet (ts_looper ts)) = q" and p: "p \<noteq> 0"
    using Suc.prems(1) by (simp_all add: apart_def)
  show ?case
  proof (cases "lp_shouldTerminate (ts_looper ts)")
    case run: False
    show ?thesis
    proof (cases "WaitSet_wait pf (lp_waitSet (ts_looper ts)) w")
      case (Fail e w1)
      with run show ?thesis by simp
    next
      case wait: (Done p' w1)
      note w1 = wait_other [OF wait, unfolded q, OF Suc.prems(2) p]
      show ?thesis
      proof (cases "stale_report q w1")
        case True
        have "leaves p (apart q p rd) (bindM (Looper_dispatch u ?hs p' ts) (Looper_while pf u ?hs n))"
          by (rule leaves_bindM [OF dispatch_leaves [OF assms(1,2) Suc.prems(1)] while_leaves [OF assms(1,2)]])
        note this = leaves_forward [OF this]
        from stale_report_mono [OF True forwardD [OF this, of w1]] run wait show ?thesis by simp
      next
        case False
        with w1(1) have other: "p' \<noteq> p" by simp
        note same = dispatch_rewired [OF Suc.prems(1) other, of u g ?hs]
        show ?thesis
        proof (cases "Looper_dispatch u ?hs p' ts w1")
          case (Fail e w2)
          with run wait same show ?thesis by simp
        next
          case (Done ts' w2)
          note leave = dispatch_leaves [OF assms(1,2) Suc.prems(1), of p']
          have "apart q p rd ts'" by (rule leaves_Done [OF leave Done])
          moreover have "p \<notin> ran (interest q (os_trace w2))"
            by (rule interest_unregistered [OF interest_unregistered [OF Suc.prems(2) w1(2)]
                  forward_Done [OF leaves_forward [OF leave] Done]])
          ultimately show ?thesis using Suc.IH [of ts' w2] run wait same Done by simp
        qed
      qed
    qed
  qed simp
qed simp

section \<open>Properties\<close>

text \<open>
  C14: An unscheduled channel is left alone. After \<^verbatim>\<open>unscheduleFromLooper\<close> of a channel that is open,
  whatever the kernel answers from then on, the loop runs exactly as it would with any other code
  in the place of that channel's reader, so the reader is never run: unless the kernel reports an
  address that is not registered at the time, and as long as the client does not register the
  source again. A report that was due before the unscheduling is not delivered after it.
\<close>

theorem Channel_unscheduled_inert:
  assumes "Channel_unscheduleFromLooper pf u c (Some ts0) w0 = Done (Some ts) w" "p = ch_source c"
    "q = ws_handle (lp_waitSet (ts_looper ts0))" "WaitSet_wf (lp_waitSet (ts_looper ts0))"
    "plain_store (ts_sources ts0)" "synced (lp_waitSet (ts_looper ts0)) (ts_sources ts0) (interest q (os_trace w0))"
    "all_succeed w0" "apart q p (ChannelReader cid) ts0" "client_leaves q p (ChannelReader cid) cl" "closures_leave p u"
  shows "let run = (\<lambda>hs. Looper_loop pf u hs n ts (w\<lparr>os_script := answers\<rparr>)) in
    stale_report q (outcome_world (run (library_handlers cl))) \<or>
    (\<forall>g. run (rewired (ChannelReader cid) g (library_handlers cl)) = run (library_handlers cl))"
proof -
  let ?hs = "library_handlers cl" and ?w = "w\<lparr>os_script := answers\<rparr>"
  from assms(1,2) obtain b ws st where r: "WaitSet_removeSource pf u p (lp_waitSet (ts_looper ts0)) (ts_sources ts0) w0 =
      Done (b, ws, st) w" and ts: "ts = ts0\<lparr>ts_looper := (ts_looper ts0)\<lparr>lp_waitSet := ws\<rparr>, ts_sources := st\<rparr>"
    by (auto simp: Channel_unscheduleFromLooper_def Looper_removeSource_def bind_out_Done_iff)
  have ws: "ws_handle ws = q"
    using r assms(3) by (auto simp: WaitSet_removeSource_def bind_out_Done_iff split: if_splits)
  have sim: "set (ws_sources ws) = set (ws_sources (lp_waitSet (ts_looper ts0))) - {p} \<and> st = ts_sources ts0 \<and>
    synced ws st (interest (ws_handle ws) (os_trace w))"
  proof (cases pf)
    case Linux
    note s = epoll.removeSource_simulates [OF r [unfolded Linux] assms(4,5) assms(6) [unfolded assms(3)] assms(7)]
    from s(2,3,6) show ?thesis by simp
  next
    case Apple
    note s = kqueue.removeSource_simulates [OF r [unfolded Apple] assms(4,5) assms(6) [unfolded assms(3)] assms(7)]
    from s(2,3,6) show ?thesis by simp
  qed
  have gone: "p \<notin> ran (interest q (os_trace ?w))"
    using sim unfolding ws synced_def ran_def by auto
  have ts_apart: "apart q p (ChannelReader cid) ts"
    using assms(8) by (simp add: apart_def ts ws sim)
  show ?thesis
  proof (cases "Looper_prepare pf u ts ?w")
    case (Fail e w')
    then show ?thesis by (simp add: Looper_loop_def Let_def)
  next
    case (Done ts1 w1)
    note leave = prepare_leaves [OF assms(10) ts_apart, of pf]
    have "apart q p (ChannelReader cid) ts1" by (rule leaves_Done [OF leave Done]) simp
    moreover have "p \<notin> ran (interest q (os_trace w1))"
      by (rule interest_unregistered [OF gone forward_Done [OF leaves_forward [OF leave] Done]]) simp
    ultimately have "stale_report q (outcome_world (Looper_while pf u ?hs n ts1 w1)) \<or>
        Looper_while pf u (rewired (ChannelReader cid) g ?hs) n ts1 w1 = Looper_while pf u ?hs n ts1 w1" for g
      by (rule while_rewired [OF assms(9,10)])
    with Done show ?thesis by (auto simp: Looper_loop_def Let_def)
  qed
qed

section \<open>Examples of the properties\<close>

text \<open>Two channels on a looper, and a kernel that goes on to report the one that stays.\<close>

definition idle_client :: client where
  "idle_client =
     \<lparr>cl_callbacks = \<lparr>cb_message = (\<lambda>_ _ cx. returnM cx), cb_terminate = (\<lambda>_ cx. returnM cx)\<rparr>,
      cl_availability = (\<lambda>_ _ sx. returnM sx), cl_reader = (\<lambda>_ _ ts. returnM ts), cl_wake = (\<lambda>_ ts. returnM ts)\<rparr>"

definition pair_thread :: thread where
  "pair_thread =
     \<lparr>ts_looper = \<lparr>lp_waitSet = \<lparr>ws_handle = 3, ws_sources = [5, 6]\<rparr>, lp_trivialSource = 0, lp_shouldTerminate = False\<rparr>,
      ts_sources = \<lparr>sr_next = 7, sr_objects =
        [5 \<mapsto> (source_on 15)\<lparr>so_readHandler := Some (ChannelReader 2)\<rparr>,
         6 \<mapsto> (source_on 16)\<lparr>so_readHandler := Some (ChannelReader 3)\<rparr>]\<rparr>,
      ts_client = \<lparr>ob_channels = [2 \<mapsto> (open_channel 15)\<lparr>ch_source := 5\<rparr>, 3 \<mapsto> (open_channel 16)\<lparr>ch_source := 6\<rparr>],
        ob_servers = (\<lambda>_. None)\<rparr>\<rparr>"

definition pair_os :: os where
  "pair_os = (start_os False [granted])\<lparr>os_trace :=
     [Sys (EpollCtl 3 EPOLL_CTL_ADD 15 5) granted, Sys (EpollCtl 3 EPOLL_CTL_ADD 16 6) granted]\<rparr>"

definition later_answers :: "sysres list" where
  "later_answers = [granted\<lparr>r_fds := (20, 21)\<rparr>, granted, report 6, reply (-1) EAGAIN, report 6]"

lemma idle_client_leaves: "client_leaves q p rd idle_client"
  by (simp add: client_leaves_def idle_client_def leaves_basic)

lemma no_user_code_leaves: "closures_leave p no_user_code"
  by (auto simp: closures_leave_def no_user_code_def intro: leaves_basic)

text \<open>What is left after the unscheduling of the channel at 5, and the run of the loop from there.\<close>

definition rest_thread :: thread where
  "rest_thread = pair_thread\<lparr>ts_looper := (ts_looper pair_thread)\<lparr>lp_waitSet := \<lparr>ws_handle = 3, ws_sources = [6]\<rparr>\<rparr>\<rparr>"

definition rest_os :: os where
  "rest_os = (answered (EpollCtl 3 EPOLL_CTL_DEL 15 5) [granted] pair_os)\<lparr>os_script := later_answers\<rparr>"

lemma later_run: "os_trace (outcome_world (Looper_loop Linux no_user_code (library_handlers idle_client) 3 rest_thread rest_os)) =
    os_trace rest_os @ [Sys Pipe (granted\<lparr>r_fds := (20, 21)\<rparr>), Sys (EpollCtl 3 EPOLL_CTL_ADD 20 7) granted,
      Sys (EpollWait 3) (report 6), Sys (Recvmsg 16 MaxBufferSize MaxControlBufferSize) (reply (-1) EAGAIN),
      Sys (EpollWait 3) (report 6)]"
  by code_simp

lemma later_fresh:
  "\<not> stale_report 3 (outcome_world (Looper_loop Linux no_user_code (library_handlers idle_client) 3 rest_thread rest_os))"
proof -
  let ?es = "[Sys Pipe (granted\<lparr>r_fds := (20, 21)\<rparr>), Sys (EpollCtl 3 EPOLL_CTL_ADD 20 7) granted]"
  let ?fs = "[Sys (EpollWait 3) (report 6), Sys (Recvmsg 16 MaxBufferSize MaxControlBufferSize) (reply (-1) EAGAIN)]"
  have 1: "6 \<in> ran (interest 3 (os_trace rest_os @ ?es))"
    by (rule ranI [where a = "(16, EVFILT_READ)"]) (simp add: rest_os_def pair_os_def interest_def granted_def)
  have 2: "6 \<in> ran (interest 3 (os_trace rest_os @ ?es @ ?fs))"
    by (rule ranI [where a = "(16, EVFILT_READ)"]) (simp add: rest_os_def pair_os_def interest_def granted_def)
  have "\<not> happens (stale 3) [] (os_trace rest_os)"
    by (simp add: rest_os_def pair_os_def)
  with 1 2 show ?thesis
    unfolding stale_report_def later_run by (simp add: happens_append report_def)
qed

theorem Channel_unscheduled_inert_witness:
  "\<exists>ts w. Channel_unscheduleFromLooper Linux no_user_code ((open_channel 15)\<lparr>ch_source := 5\<rparr>) (Some pair_thread) pair_os =
      Done (Some ts) w \<and>
    (let run = (\<lambda>hs. Looper_loop Linux no_user_code hs 3 ts (w\<lparr>os_script := later_answers\<rparr>)) in
     \<not> stale_report 3 (outcome_world (run (library_handlers idle_client))) \<and>
     run (rewired (ChannelReader 2) (\<lambda>_ _. failM AssertFailed) (library_handlers idle_client)) =
     run (library_handlers idle_client))"
proof -
  have run: "Channel_unscheduleFromLooper Linux no_user_code ((open_channel 15)\<lparr>ch_source := 5\<rparr>) (Some pair_thread) pair_os =
      Done (Some rest_thread) (answered (EpollCtl 3 EPOLL_CTL_DEL 15 5) [granted] pair_os)"
    by (simp add: Channel_unscheduleFromLooper_def Looper_removeSource_def WaitSet_removeSource_def set_contains_def
        pair_thread_def update_source_def deref_def epoll.update_plain plain_source_def source_on_def LooperSource_ctor_def
        retry_step pair_os_def interrupted_def granted_def set_erase_def store_put_same rest_thread_def epoll_control_def)
  have "let run = (\<lambda>hs. Looper_loop Linux no_user_code hs 3 rest_thread
        ((answered (EpollCtl 3 EPOLL_CTL_DEL 15 5) [granted] pair_os)\<lparr>os_script := later_answers\<rparr>)) in
    stale_report 3 (outcome_world (run (library_handlers idle_client))) \<or>
    (\<forall>g. run (rewired (ChannelReader 2) g (library_handlers idle_client)) = run (library_handlers idle_client))"
  proof (rule Channel_unscheduled_inert [OF run refl])
    show "plain_store (ts_sources pair_thread)"
      by (auto simp: plain_store_def pair_thread_def plain_source_def source_on_def LooperSource_ctor_def split: if_splits)
    show "synced (lp_waitSet (ts_looper pair_thread)) (ts_sources pair_thread) (interest 3 (os_trace pair_os))"
      by (auto simp: synced_def pair_thread_def pair_os_def interest_def granted_def source_on_def LooperSource_ctor_def)
    show "apart 3 (ch_source ((open_channel 15)\<lparr>ch_source := 5\<rparr>)) (ChannelReader 2) pair_thread"
      by (simp add: apart_def pair_thread_def)
  qed (simp_all add: pair_thread_def WaitSet_wf_def all_succeed_def pair_os_def granted_def idle_client_leaves no_user_code_leaves)
  with run later_fresh show ?thesis
    unfolding Let_def rest_os_def by blast
qed

end
