(* ===== verification/CL_Race.thy ===== *)
theory CL_Race
  imports CL_Channel
begin

text \<open>
  \<^verbatim>\<open>Channel::terminate\<close> called by several threads. Neither it nor \<^verbatim>\<open>Socket::close\<close> takes a lock, so
  the calls interleave; each access to the fields of the socket and the channel is one step, in
  some total order.
\<close>

section \<open>The steps of a call\<close>

text \<open>
  Before the test of the descriptor, between the test and the system call, between the system
  call and the reset of the field, back in \<^verbatim>\<open>terminate\<close> with the result of \<^verbatim>\<open>close\<close>, about to test
  the result after the fields of the channel are reset, and returned.
\<close>

datatype term_pc = Testing_handle | Closing | Clearing | Closed bool | Notifying bool | Ended

fun terminate_small :: "'x callbacks \<Rightarrow> term_pc \<Rightarrow> channel \<times> 'x \<Rightarrow> os \<Rightarrow> (term_pc \<times> channel \<times> 'x) outcome" where
  "terminate_small cb Testing_handle (c, x) =
     returnM (if sk_handle (ch_socket c) \<noteq> -1 then Closing else Closed False, c, x)"
| "terminate_small cb Closing (c, x) =
     seqM (CL_CHECK (Close (sk_handle (ch_socket c)))) (returnM (Clearing, c, x))"
| "terminate_small cb Clearing (c, x) =
     returnM (Closed True, c\<lparr>ch_socket := (ch_socket c)\<lparr>sk_handle := -1\<rparr>\<rparr>, x)"
| "terminate_small cb (Closed closed) (c, x) =
     returnM (Notifying closed, c\<lparr>ch_connected := False, ch_ready := False\<rparr>, x)"
| "terminate_small cb (Notifying closed) (c, x) =
     (case ch_terminationCallback c of
        None \<Rightarrow> returnM (Ended, c, x)
      | Some f \<Rightarrow>
          if closed
          then bindM (seqM (emit (Terminated f)) (cb_terminate cb f (c, x))) (\<lambda>(c', x'). returnM (Ended, c', x'))
          else returnM (Ended, c, x))"
| "terminate_small cb Ended cx = returnM (Ended, fst cx, snd cx)"

text \<open>A number of steps without interruption; five are a whole call.\<close>

fun terminate_steps :: "nat \<Rightarrow> 'x callbacks \<Rightarrow> term_pc \<Rightarrow> channel \<times> 'x \<Rightarrow> os \<Rightarrow> (term_pc \<times> channel \<times> 'x) outcome" where
  "terminate_steps 0 cb pc cx = returnM (pc, cx)"
| "terminate_steps (Suc n) cb pc cx = bindM (terminate_small cb pc cx) (\<lambda>(pc', cx'). terminate_steps n cb pc' cx')"

lemma terminate_uninterrupted:
  "terminate_steps 5 cb Testing_handle cx = bindM (Channel_terminate cb cx) (\<lambda>cx'. returnM (Ended, cx'))"
proof -
  obtain c x where cx: "cx = (c, x)" by (cases cx)
  show ?thesis
    by (intro ext, cases "ch_terminationCallback c")
      (auto simp: cx eval_nat_numeral Channel_terminate_def Socket_close_def Let_def bind_out_assoc returnM_eta
        seqM_eta bindM_eta case_prod_unfold intro!: bind_out_cong)
qed

section \<open>Interleaved calls\<close>

text \<open>The channel with its client, the world, and the threads inside \<^verbatim>\<open>terminate\<close>.\<close>

record 'x terminating =
  tm_channel :: "channel \<times> 'x"
  tm_os :: os
  tm_threads :: "nat \<Rightarrow> term_pc option"

inductive terminate_step :: "'x callbacks \<Rightarrow> 'x terminating \<Rightarrow> nat \<Rightarrow> 'x terminating \<Rightarrow> bool" for cb M t where
  enter: "tm_threads M t = None \<Longrightarrow>
    terminate_step cb M t (M\<lparr>tm_threads := (tm_threads M)(t \<mapsto> Testing_handle)\<rparr>)"
| work: "tm_threads M t = Some pc \<Longrightarrow> pc \<noteq> Ended \<Longrightarrow>
    terminate_small cb pc (tm_channel M) (tm_os M) = Done (pc', cx') w' \<Longrightarrow>
    terminate_step cb M t
      (M\<lparr>tm_channel := cx', tm_os := w', tm_threads := (tm_threads M)(t \<mapsto> pc')\<rparr>)"

inductive terminate_reach :: "'x callbacks \<Rightarrow> 'x terminating \<Rightarrow> 'x terminating \<Rightarrow> bool" for cb M0 where
  start: "terminate_reach cb M0 M0"
| step: "terminate_reach cb M0 M \<Longrightarrow> terminate_step cb M t M' \<Longrightarrow> terminate_reach cb M0 M'"

definition terminate_start :: "channel \<times> 'x \<Rightarrow> os \<Rightarrow> 'x terminating" where
  "terminate_start cx w = \<lparr>tm_channel = cx, tm_os = w, tm_threads = (\<lambda>_. None)\<rparr>"

text \<open>A schedule: which thread makes each step.\<close>

fun schedule :: "'x callbacks \<Rightarrow> nat list \<Rightarrow> 'x terminating \<Rightarrow> 'x terminating option" where
  "schedule cb [] M = Some M"
| "schedule cb (t # us) M =
     (case tm_threads M t of
        None \<Rightarrow> schedule cb us (M\<lparr>tm_threads := (tm_threads M)(t \<mapsto> Testing_handle)\<rparr>)
      | Some pc \<Rightarrow>
          if pc = Ended then None
          else
            (case terminate_small cb pc (tm_channel M) (tm_os M) of
               Fail e w' \<Rightarrow> None
             | Done (pc', cx') w' \<Rightarrow>
                 schedule cb us (M\<lparr>tm_channel := cx', tm_os := w', tm_threads := (tm_threads M)(t \<mapsto> pc')\<rparr>)))"

lemma schedule_reach: "schedule cb us M = Some M' \<Longrightarrow> terminate_reach cb M0 M \<Longrightarrow> terminate_reach cb M0 M'"
proof (induction us arbitrary: M)
  case (Cons t us)
  show ?case
  proof (cases "tm_threads M t")
    case None
    from terminate_reach.step [OF Cons.prems(2) terminate_step.enter [OF None]] Cons None show ?thesis by simp
  next
    case (Some pc)
    with Cons.prems(1) obtain pc' cx' w' where r: "pc \<noteq> Ended"
      "terminate_small cb pc (tm_channel M) (tm_os M) = Done (pc', cx') w'"
      by (auto split: if_splits outcome.splits)
    from terminate_reach.step [OF Cons.prems(2) terminate_step.work [OF Some r]] Cons Some r show ?thesis by simp
  qed
qed simp

section \<open>Properties\<close>

text \<open>
  C25: \<^verbatim>\<open>terminate\<close> is not safe to call from two threads. One after the other, the calls close the
  descriptor once and notify the client once. Interleaved, both can pass the test of the
  descriptor before either resets it: then the same number is closed twice, the second time when it
  may belong to another object, and the client is notified twice. If the first call has reset the
  field in between, the second closes \<open>-1\<close>.
\<close>

theorem Channel_terminate_race:
  fixes cb :: "'x callbacks"
  assumes "sk_handle (ch_socket c) = h" "h \<noteq> -1" "ch_terminationCallback c = Some f" "a \<noteq> b"
    "\<forall>cx. cb_terminate cb f cx = returnM cx" "os_script w = r # s # rest" "r_rc r = 0" "r_rc s = 0"
  shows "(\<exists>c' w'. bindM (Channel_terminate cb (c, x)) (Channel_terminate cb) w = Done (c', x) w' \<and>
      os_trace w' = os_trace w @ [Sys (Close h) r, Terminated f]) \<and>
    (\<exists>M. terminate_reach cb (terminate_start (c, x) w) M \<and> tm_threads M a = Some Ended \<and> tm_threads M b = Some Ended \<and>
      os_trace (tm_os M) = os_trace w @ [Sys (Close h) r, Sys (Close h) s, Terminated f, Terminated f]) \<and>
    (\<exists>M. terminate_reach cb (terminate_start (c, x) w) M \<and> tm_threads M b = Some Closing \<and>
      os_trace (tm_os M) = os_trace w @ [Sys (Close h) r] \<and> sk_handle (ch_socket (fst (tm_channel M))) = -1)"
proof (intro conjI)
  show "\<exists>c' w'. bindM (Channel_terminate cb (c, x)) (Channel_terminate cb) w = Done (c', x) w' \<and>
      os_trace w' = os_trace w @ [Sys (Close h) r, Terminated f]"
    using assms by (simp add: Channel_terminate_def Socket_close_def CL_CHECK_success Let_def emit_def)
  let ?M0 = "terminate_start (c, x) w"
  have "\<exists>M. schedule cb [a, b, a, b, a, b, a, a, b, b, a, b] ?M0 = Some M \<and> tm_threads M a = Some Ended \<and>
      tm_threads M b = Some Ended \<and>
      os_trace (tm_os M) = os_trace w @ [Sys (Close h) r, Sys (Close h) s, Terminated f, Terminated f]"
    using assms by (simp add: terminate_start_def CL_CHECK_success emit_def)
  then show "\<exists>M. terminate_reach cb ?M0 M \<and> tm_threads M a = Some Ended \<and> tm_threads M b = Some Ended \<and>
      os_trace (tm_os M) = os_trace w @ [Sys (Close h) r, Sys (Close h) s, Terminated f, Terminated f]"
    using schedule_reach [OF _ terminate_reach.start] by metis
  have "\<exists>M. schedule cb [a, b, a, b, a, a] ?M0 = Some M \<and> tm_threads M b = Some Closing \<and>
      os_trace (tm_os M) = os_trace w @ [Sys (Close h) r] \<and> sk_handle (ch_socket (fst (tm_channel M))) = -1"
    using assms by (simp add: terminate_start_def CL_CHECK_success)
  then show "\<exists>M. terminate_reach cb ?M0 M \<and> tm_threads M b = Some Closing \<and>
      os_trace (tm_os M) = os_trace w @ [Sys (Close h) r] \<and> sk_handle (ch_socket (fst (tm_channel M))) = -1"
    using schedule_reach [OF _ terminate_reach.start] by metis
qed

section \<open>Examples of the properties\<close>

theorem Channel_terminate_race_witness:
  "\<exists>M. terminate_reach quiet_callbacks (terminate_start (open_channel 5, ()) (start_os False [reply 0 ENONE, reply 0 ENONE])) M \<and>
    tm_threads M 2 = Some Ended \<and> tm_threads M 3 = Some Ended \<and>
    os_trace (tm_os M) = os_trace (start_os False [reply 0 ENONE, reply 0 ENONE]) @
      [Sys (Close 5) (reply 0 ENONE), Sys (Close 5) (reply 0 ENONE), Terminated 2, Terminated 2]"
  using Channel_terminate_race [of "open_channel 5" 5 2 2 3 quiet_callbacks
      "start_os False [reply 0 ENONE, reply 0 ENONE]" "reply 0 ENONE" "reply 0 ENONE" "[]" "()"]
  by simp

end
