(* ===== verification/CL_Hearing.thy ===== *)
theory CL_Hearing
  imports CL_Connection CL_Safety
begin

text \<open>
  What a whole looper thread hears. \<open>attentive\<close> says of an operation that what it receives on the
  descriptor of a channel, the message callback of that channel hears, in order and completely,
  and that what it sends there can be received; every operation of a looper thread is shown to be
  so, whatever else the thread serves (other channels, timers, readers of the client). Code
  of the client, and the parts of the library that do not read, are \<open>polite\<close>: they do not receive on
  the descriptor at all.
\<close>

section \<open>What a thread says and hears on a descriptor\<close>

text \<open>The packets received on \<open>h\<close>, what was taken of what was sent on \<open>h\<close>, and what the callback \<open>g\<close> got.\<close>

fun packets_of :: "handle \<Rightarrow> event \<Rightarrow> sysres list" where
  "packets_of h (Sys (Recvmsg k n c) r) = (if k = h \<and> 0 < r_rc r then [r] else [])"
| "packets_of h e = []"

fun sends_of :: "handle \<Rightarrow> event \<Rightarrow> (region \<times> cmsghdr list) list" where
  "sends_of h (Sys (Sendmsg k payload control) r) =
     (if k = h \<and> r_rc r = int (length payload) then [(payload, control)] else [])"
| "sends_of h e = []"

fun hears_of :: "nat \<Rightarrow> event \<Rightarrow> event list" where
  "hears_of g (MessageReceived k b hs) = (if k = g then [MessageReceived k b hs] else [])"
| "hears_of g e = []"

definition received :: "handle \<Rightarrow> event list \<Rightarrow> sysres list" where
  "received h es = concat (map (packets_of h) es)"

definition said :: "handle \<Rightarrow> event list \<Rightarrow> (region \<times> cmsghdr list) list" where
  "said h es = concat (map (sends_of h) es)"

definition heard :: "nat \<Rightarrow> event list \<Rightarrow> event list" where
  "heard g es = concat (map (hears_of g) es)"

lemma trace_simps [simp]:
  "received h [] = []" "received h (e # es) = packets_of h e @ received h es"
  "received h (es @ es') = received h es @ received h es'"
  "said h [] = []" "said h (e # es) = sends_of h e @ said h es"
  "said h (es @ es') = said h es @ said h es'"
  "heard g [] = []" "heard g (e # es) = hears_of g e @ heard g es"
  "heard g (es @ es') = heard g es @ heard g es'"
  by (simp_all add: received_def said_def heard_def)

text \<open>A packet as the callback should hear it.\<close>

definition hearing :: "nat \<Rightarrow> sysres \<Rightarrow> event" where
  "hearing g p = delivery g (packet_message p)"

text \<open>Only messages that can be received are sent on \<open>h\<close>.\<close>

fun says :: "(handle \<Rightarrow> handle) \<Rightarrow> handle \<Rightarrow> event \<Rightarrow> bool" where
  "says f h (Sys (Sendmsg k payload control) r) \<longleftrightarrow>
     (k = h \<longrightarrow> (\<exists>m. sendable f m \<and> payload = Message_data m \<and> control = attachment_control (m_attachments m)))"
| "says f h e \<longleftrightarrow> True"

text \<open>The kernel answers a read of \<open>h\<close> with a packet or the end of a reading, and one of a closed end with \<^verbatim>\<open>EBADF\<close>.\<close>

fun lawful :: "handle \<Rightarrow> event \<Rightarrow> bool" where
  "lawful h (Sys (Recvmsg k n c) r) \<longleftrightarrow>
     (k = h \<longrightarrow> interrupted r \<or> good_packet r \<or> read_end r \<noteq> None) \<and>
     (k = -1 \<longrightarrow> read_end r = Some TemporaryFailure)"
| "lawful h e \<longleftrightarrow> True"

text \<open>Events that have nothing to do with what is received on \<open>h\<close>.\<close>

definition calm :: "(handle \<Rightarrow> handle) \<Rightarrow> handle \<Rightarrow> nat \<Rightarrow> event \<Rightarrow> bool" where
  "calm f h g e \<longleftrightarrow> says f h e \<and> packets_of h e = [] \<and> hears_of g e = []"

lemma calm_events:
  assumes "\<forall>e \<in> set es. calm f h g e"
  shows "received h es = []" "heard g es = []" "\<forall>e \<in> set es. says f h e"
  using assms by (auto simp: received_def heard_def calm_def)

lemma calm_simps [simp]:
  "calm f h g (LogErrno e)" "calm f h g (Terminated k)" "calm f h g (Woken k)" "calm f h g (ChannelAvailable k k')"
  "calm f h g (MessageReceived k b hs) \<longleftrightarrow> k \<noteq> g"
  "(\<And>k payload control. c \<noteq> Sendmsg k payload control) \<Longrightarrow> (\<And>k n m. c \<noteq> Recvmsg k n m) \<Longrightarrow> calm f h g (Sys c r)"
  by (cases c; auto simp: calm_def)+

section \<open>Operations that hear what they receive\<close>

text \<open>A thread is between two turns when its run has returned, or its loop was stopped before a wait.\<close>

fun between :: "'a outcome \<Rightarrow> bool" where
  "between (Done a w) \<longleftrightarrow> True"
| "between (Fail e w) \<longleftrightarrow> e = OutOfFuel"

text \<open>
  What the run \<open>r\<close> from the world \<open>w\<close> has received, its callback has heard, in order; only a run that is
  cut short can have something in hand.
\<close>

definition hears_all :: "(handle \<Rightarrow> handle) \<Rightarrow> handle \<Rightarrow> nat \<Rightarrow> os \<Rightarrow> 'a outcome \<Rightarrow> bool" where
  "hears_all f h g w r \<longleftrightarrow>
     os_malloc (outcome_world r) = os_malloc w \<and>
     (\<exists>es. os_trace (outcome_world r) = os_trace w @ es \<and> (\<forall>e \<in> set es. says f h e) \<and>
        ((\<forall>e \<in> set es. lawful h e) \<longrightarrow>
           (\<exists>hand. map (hearing g) (received h es) = heard g es @ hand \<and> (between r \<longrightarrow> hand = []))))"

definition attentive :: "(handle \<Rightarrow> handle) \<Rightarrow> handle \<Rightarrow> nat \<Rightarrow> ('a \<Rightarrow> bool) \<Rightarrow> (os \<Rightarrow> 'a outcome) \<Rightarrow> bool" where
  "attentive f h g I m \<longleftrightarrow>
     (\<forall>w. (\<forall>k. os_malloc w k) \<longrightarrow> hears_all f h g w (m w) \<and> (\<forall>a w'. m w = Done a w' \<longrightarrow> I a))"

named_theorems attentive_intros "operations that hear what they receive"

lemma attentiveD:
  assumes "attentive f h g I m" "\<forall>k. os_malloc w k"
  shows "hears_all f h g w (m w)" "m w = Done a w' \<Longrightarrow> I a" "m w = Done a w' \<Longrightarrow> \<forall>k. os_malloc w' k"
proof -
  show h: "hears_all f h g w (m w)" using assms by (simp add: attentive_def)
  show "m w = Done a w' \<Longrightarrow> I a" using assms by (simp add: attentive_def)
  show "m w = Done a w' \<Longrightarrow> \<forall>k. os_malloc w' k" using h assms(2) by (simp add: hears_all_def)
qed

lemma hears_all_trans:
  assumes "hears_all f h g w (Done a w1)" "hears_all f h g w1 r"
  shows "hears_all f h g w r"
proof -
  from assms(1) obtain es1 where 1: "os_malloc w1 = os_malloc w" "os_trace w1 = os_trace w @ es1"
    "\<forall>e \<in> set es1. says f h e"
    "(\<forall>e \<in> set es1. lawful h e) \<longrightarrow> map (hearing g) (received h es1) = heard g es1"
    by (auto simp: hears_all_def)
  from assms(2) obtain es2 where 2: "os_malloc (outcome_world r) = os_malloc w1"
    "os_trace (outcome_world r) = os_trace w1 @ es2" "\<forall>e \<in> set es2. says f h e"
    "(\<forall>e \<in> set es2. lawful h e) \<longrightarrow>
       (\<exists>hand. map (hearing g) (received h es2) = heard g es2 @ hand \<and> (between r \<longrightarrow> hand = []))"
    by (auto simp: hears_all_def)
  show ?thesis
    unfolding hears_all_def
    by (intro conjI exI [of _ "es1 @ es2"]) (use 1 2 in auto)
qed

lemma attentive_bindM [attentive_intros]:
  assumes "attentive f h g I m" "\<And>a. I a \<Longrightarrow> attentive f h g J (n a)"
  shows "attentive f h g J (bindM m n)"
  unfolding attentive_def
proof (intro allI impI)
  fix w :: os
  assume w: "\<forall>k. os_malloc w k"
  note m = attentiveD [OF assms(1) w]
  show "hears_all f h g w (bindM m n w) \<and> (\<forall>a w'. bindM m n w = Done a w' \<longrightarrow> J a)"
  proof (cases "m w")
    case (Done a w1)
    from assms(2) [OF m(2) [OF Done]] m(3) [OF Done]
    have "hears_all f h g w1 (n a w1) \<and> (\<forall>b w'. n a w1 = Done b w' \<longrightarrow> J b)" by (simp add: attentive_def)
    with m(1) Done show ?thesis by (auto intro: hears_all_trans)
  next
    case (Fail e w1)
    with m(1) show ?thesis by (auto simp: hears_all_def)
  qed
qed

lemma attentive_weaken: "attentive f h g I m \<Longrightarrow> (\<And>a. I a \<Longrightarrow> J a) \<Longrightarrow> attentive f h g J m"
  by (auto simp: attentive_def)

lemma attentive_seqM [attentive_intros]: "attentive f h g I m \<Longrightarrow> attentive f h g J n \<Longrightarrow> attentive f h g J (seqM m n)"
  unfolding seqM_def by (rule attentive_bindM)

lemma attentive_calm:
  assumes "forward (calm f h g) m" "\<And>w a w'. m w = Done a w' \<Longrightarrow> I a"
  shows "attentive f h g I m"
  unfolding attentive_def hears_all_def
proof (intro allI impI conjI)
  fix w
  from forwardD [OF assms(1), of w] obtain es where
    "os_trace (outcome_world (m w)) = os_trace w @ es" "\<forall>e \<in> set es. calm f h g e"
    by (auto simp: os_le_def)
  with calm_events [OF this(2)]
  show "\<exists>es. os_trace (outcome_world (m w)) = os_trace w @ es \<and> (\<forall>e \<in> set es. says f h e) \<and>
        ((\<forall>e \<in> set es. lawful h e) \<longrightarrow>
           (\<exists>hand. map (hearing g) (received h es) = heard g es @ hand \<and> (between (m w) \<longrightarrow> hand = [])))"
    by (intro exI [of _ es]) simp
  show "os_malloc (outcome_world (m w)) = os_malloc w" using forwardD [OF assms(1)] by (rule os_le_malloc)
qed (rule assms(2))

lemma attentive_quiet: "forward (calm f h g) m \<Longrightarrow> attentive f h g (\<lambda>_. True) m"
  by (rule attentive_calm) simp_all

lemma attentive_basic [attentive_intros]:
  "I a \<Longrightarrow> attentive f h g I (returnM a)" "attentive f h g I (failM e)"
  by (rule attentive_calm; auto intro: forward_intros)+

lemma attentive_if [attentive_intros]:
  "(b \<Longrightarrow> attentive f h g I m) \<Longrightarrow> (\<not> b \<Longrightarrow> attentive f h g I n) \<Longrightarrow> attentive f h g I (if b then m else n)"
  by simp

section \<open>Reading\<close>

lemma tame_liftE: "r \<noteq> Inl OutOfFuel \<Longrightarrow> tame (liftE r)"
  by (cases r) (auto simp: tame_def forward_intros)

lemma tame_read_descriptors: "tame (read_descriptors cs m)"
proof (induction cs arbitrary: m)
  case (Cons c cs)
  have add: "tame (\<lambda>w. liftE (Message_addAttachment (\<not> os_ndebug w) a m) w)" for a
    by (auto simp: tame_def Message_addAttachment_def forward_def liftE_def)
  show ?case
    unfolding read_descriptors.simps Let_def
    by (intro tame_intros add Cons) simp
qed (simp add: tame_intros)

lemma tame_read_message: "tame (read_message s r n)"
proof -
  have "tame malloc" by (simp add: tame_def forward_basic malloc_def)
  then show ?thesis
    unfolding read_message_def
    by (intro tame_intros tame_read_descriptors tame_liftE) (auto simp: Message_of_buffer_def)
qed

text \<open>What a run of the reading loop returns is what it received.\<close>

definition reads_all :: "handle \<Rightarrow> message list \<Rightarrow> socket \<Rightarrow> os \<Rightarrow> (read_result \<times> socket) outcome \<Rightarrow> bool" where
  "reads_all h ms s w out \<longleftrightarrow>
     (\<forall>w'. out \<noteq> Fail OutOfFuel w') \<and> os_malloc (outcome_world out) = os_malloc w \<and>
     (\<exists>es. os_trace (outcome_world out) = os_trace w @ es \<and> (\<forall>e \<in> set es. \<exists>r. e = Sys (recv_call s) r) \<and>
        (\<forall>st ms' s' w'. out = Done ((st, ms'), s') w' \<longrightarrow> socket_ready s' \<and>
           ((\<forall>e \<in> set es. lawful h e) \<longrightarrow> ms' = ms @ map packet_message (received h es))))"

lemma reads_allI:
  assumes "os_trace w1 = os_trace w @ es" "os_malloc w1 = os_malloc w" "\<forall>e \<in> set es. \<exists>r. e = Sys (recv_call s) r"
    "(\<forall>e \<in> set es. lawful h e) \<Longrightarrow> received h es = []" "socket_ready s'"
  shows "reads_all h ms s w (Done ((st, ms), s') w1)"
  unfolding reads_all_def by (intro conjI exI [of _ es]) (use assms in simp_all)

lemma reads_all_Fail:
  assumes "os_le (\<lambda>e. \<exists>r. e = Sys (recv_call s) r) w w1" "e \<noteq> OutOfFuel"
  shows "reads_all h ms s w (Fail e w1)"
  using assms by (auto simp: reads_all_def os_le_def)

lemma reads_all_more:
  assumes "reads_all h ms1 s1 w1 out" "os_trace w1 = os_trace w @ es" "os_malloc w1 = os_malloc w"
    "\<forall>e \<in> set es. \<exists>r. e = Sys (recv_call s) r" "recv_call s1 = recv_call s"
    "(\<forall>e \<in> set es. lawful h e) \<Longrightarrow> ms1 = ms @ map packet_message (received h es)"
  shows "reads_all h ms s w out"
proof -
  from assms(1) obtain es1 where 1: "\<forall>w'. out \<noteq> Fail OutOfFuel w'" "os_malloc (outcome_world out) = os_malloc w1"
    "os_trace (outcome_world out) = os_trace w1 @ es1" "\<forall>e \<in> set es1. \<exists>r. e = Sys (recv_call s1) r"
    "\<forall>st ms' s' w'. out = Done ((st, ms'), s') w' \<longrightarrow> socket_ready s' \<and>
       ((\<forall>e \<in> set es1. lawful h e) \<longrightarrow> ms' = ms1 @ map packet_message (received h es1))"
    by (auto simp: reads_all_def)
  show ?thesis
    unfolding reads_all_def
  proof (intro conjI exI [of _ "es @ es1"] allI impI)
    show "os_trace (outcome_world out) = os_trace w @ es @ es1" using 1 assms(2) by simp
    show "\<forall>e \<in> set (es @ es1). \<exists>r. e = Sys (recv_call s) r" using 1 assms(4,5) by auto
    fix st ms' s' w' assume out: "out = Done ((st, ms'), s') w'"
    with 1 show "socket_ready s'" by blast
    assume "\<forall>e \<in> set (es @ es1). lawful h e"
    with 1(5) out assms(6) show "ms' = ms @ map packet_message (received h (es @ es1))" by auto
  qed (use 1 assms in auto)
qed

lemma good_read_end: "good_packet r \<Longrightarrow> read_end r = None"
  by (auto simp: good_packet_def read_end_def)

lemma read_loop_hears:
  assumes "socket_ready s" "\<forall>k. os_malloc w k" "sk_handle s = h \<or> sk_handle s = -1" "h \<noteq> -1"
  shows "reads_all h ms s w (read_loop ms s w)"
  using assms
proof (induction ms s w rule: read_loop.induct)
  case (1 ms s w)
  have fw: "forward (\<lambda>e. \<exists>r. e = Sys (recv_call s) r) (CL_TEMP_FAILURE_RETRY (recv_call s))"
    by (intro forward_intros) blast
  show ?case
  proof (cases "CL_TEMP_FAILURE_RETRY (recv_call s) w")
    case (Fail e w1)
    have "os_le (\<lambda>e. \<exists>r. e = Sys (recv_call s) r) w w1" using forwardD [OF fw, of w] Fail by simp
    from reads_all_Fail [OF this] retry_FailE [OF Fail] Fail show ?thesis by (subst read_loop.simps) simp
  next
    case (Done r w1)
    then obtain js where js: "\<forall>i \<in> set js. interrupted i" "\<not> interrupted r" "w1 = answered (recv_call s) (js @ [r]) w"
      by (rule retry_DoneE)
    let ?es = "map (Sys (recv_call s)) (js @ [r])" and ?s = "receive_into r s"
    have w1: "os_trace w1 = os_trace w @ ?es" "os_malloc w1 = os_malloc w" "os_errno w1 = r_errno r"
      using js(3) by simp_all
    have calls: "\<forall>e \<in> set ?es. \<exists>r. e = Sys (recv_call s) r" by auto
    have skip: "received h (map (Sys (recv_call s)) js) = []"
      using js(1) by (auto simp: received_def interrupted_def recv_call_def)
    have law: "(\<forall>e \<in> set ?es. lawful h e) \<Longrightarrow> (sk_handle s = h \<and> good_packet r) \<or> read_end r \<noteq> None"
      using "1.prems"(3) js(2) by (auto simp: recv_call_def)
    have got: "received h ?es = (if sk_handle s = h \<and> 0 < r_rc r then [r] else [])"
      using skip by (simp add: recv_call_def)
    have none: "received h ?es = []" if "\<not> good_packet r" "\<forall>e \<in> set ?es. lawful h e"
      using law [OF that(2)] that(1) unfolding got by (auto simp: read_end_def split: if_splits)
    have long: "0 < to_int (r_rc r)" "to_int (r_rc r) = r_rc r" if "good_packet r"
      using that by (auto simp: good_packet_def MaxBufferSize_def to_int_small)
    show ?thesis
    proof (cases "0 < to_int (r_rc r)")
      case True
      show ?thesis
      proof (cases "read_message ?s r (nat (to_int (r_rc r))) w1")
        case (Fail e w2)
        have le: "os_le (\<lambda>_. False) w1 w2"
          using forwardD [OF read_message_forward, of "\<lambda>_. False" w1 ?s r] Fail by (metis outcome_world.simps(2))
        have "os_le (\<lambda>e. \<exists>r. e = Sys (recv_call s) r) w w1" using forward_Done [OF fw Done] .
        also have "os_le (\<lambda>e. \<exists>r. e = Sys (recv_call s) r) w1 w2" using os_le_mono [OF le] by simp
        finally have "os_le (\<lambda>e. \<exists>r. e = Sys (recv_call s) r) w w2" .
        moreover have "e \<noteq> OutOfFuel" using tame_read_message Fail unfolding tame_def by metis
        ultimately have "reads_all h ms s w (Fail e w2)" by (rule reads_all_Fail)
        with Done True Fail show ?thesis by (subst read_loop.simps) (simp add: Let_def)
      next
        case (Done m w2)
        note body = this
        have "os_le (\<lambda>_. False) w1 w2" using forward_Done [OF read_message_forward Done] .
        then have w2: "os_trace w2 = os_trace w1" "os_malloc w2 = os_malloc w1" by (auto simp: os_le_def)
        have IH: "reads_all h (ms @ [m]) ?s w2 (read_loop (ms @ [m]) ?s w2)"
          by (rule "1.IH"(1) [OF \<open>CL_TEMP_FAILURE_RETRY (recv_call s) w = Done r w1\<close> refl refl True Done])
            (use "1.prems" w2 w1 in simp_all)
        have "reads_all h ms s w (read_loop (ms @ [m]) ?s w2)"
        proof (rule reads_all_more [OF IH _ _ calls])
          assume lawful: "\<forall>e \<in> set ?es. lawful h e"
          have "\<not> read_end r \<noteq> None"
            using True by (auto simp: read_end_def to_int_small split: if_splits)
          with law [OF lawful] have good: "sk_handle s = h" "good_packet r" by blast+
          from read_message_good [OF "1.prems"(1) good(2), of w1] w1 "1.prems"(2) body
          have "m = packet_message r" by simp
          with got good long show "ms @ [m] = ms @ map packet_message (received h ?es)" by simp
        qed (use w1 w2 in simp_all)
        with \<open>CL_TEMP_FAILURE_RETRY (recv_call s) w = Done r w1\<close> True body show ?thesis
          by (subst read_loop.simps) (simp add: Let_def)
      qed
    next
      case False
      with long have "\<not> good_packet r" by blast
      note over = reads_allI [OF w1(1,2) calls none [OF this], of "?s" ms]
      show ?thesis
      proof (cases "to_int (r_rc r) = -1 \<or> to_int (r_rc r) = 0")
        case True
        with False Done over "1.prems"(1) show ?thesis
          by (subst read_loop.simps) (auto simp: Let_def)
      next
        case neither: False
        have IH: "reads_all h ms ?s w1 (read_loop ms ?s w1)"
          by (rule "1.IH"(2) [OF Done refl refl False]) (use "1.prems" w1 neither in simp_all)
        have "reads_all h ms s w (read_loop ms ?s w1)"
          by (rule reads_all_more [OF IH w1(1,2) calls]) (use none [OF \<open>\<not> good_packet r\<close>] in simp_all)
        with Done False neither show ?thesis by (subst read_loop.simps) (simp add: Let_def)
      qed
    qed
  qed
qed

section \<open>Channels of a thread, and its client\<close>

text \<open>The channel on \<open>h\<close>, with the message callback \<open>g\<close>, and channels that have nothing to do with it.\<close>

definition own :: "handle \<Rightarrow> nat \<Rightarrow> channel \<Rightarrow> bool" where
  "own h g c \<longleftrightarrow> h \<noteq> -1 \<and> socket_ready (ch_socket c) \<and> (sk_handle (ch_socket c) = h \<or> sk_handle (ch_socket c) = -1) \<and>
     ch_messageReceivedCallback c = Some g"

definition foreign :: "handle \<Rightarrow> nat \<Rightarrow> channel \<Rightarrow> bool" where
  "foreign h g c \<longleftrightarrow> h \<noteq> -1 \<and> sk_handle (ch_socket c) \<noteq> h \<and> ch_messageReceivedCallback c \<noteq> Some g"

text \<open>A thread with the channel \<open>cid\<close> on \<open>h\<close>. It may have other channels, timers and readers of the client, but no server.\<close>

definition tends :: "handle \<Rightarrow> nat \<Rightarrow> nat \<Rightarrow> thread \<Rightarrow> bool" where
  "tends h g cid ts \<longleftrightarrow>
     (\<forall>cid' c. ob_channels (ts_client ts) cid' = Some c \<longrightarrow> (if cid' = cid then own h g c else foreign h g c)) \<and>
     (\<forall>p s sid. sr_objects (ts_sources ts) p = Some s \<longrightarrow> so_readHandler s \<noteq> Some (ServerReader sid))"

text \<open>
  Code of the client that may do what it likes, sending on the channel included, but neither reads from
  the connection itself nor changes the callback of the channel.
\<close>

definition polite :: "(handle \<Rightarrow> handle) \<Rightarrow> handle \<Rightarrow> nat \<Rightarrow> ('a \<Rightarrow> bool) \<Rightarrow> (os \<Rightarrow> 'a outcome) \<Rightarrow> bool" where
  "polite f h g I m \<longleftrightarrow> forward (calm f h g) m \<and> (\<forall>w a w'. m w = Done a w' \<longrightarrow> I a) \<and> (\<forall>w w'. m w \<noteq> Fail OutOfFuel w')"

definition kept :: "handle \<Rightarrow> nat \<Rightarrow> nat \<Rightarrow> channel \<Rightarrow> channel \<times> thread \<Rightarrow> bool" where
  "kept h g cid c cx \<longleftrightarrow> (own h g c \<longrightarrow> own h g (fst cx)) \<and> (foreign h g c \<longrightarrow> foreign h g (fst cx)) \<and> tends h g cid (snd cx)"

definition courteous :: "(handle \<Rightarrow> handle) \<Rightarrow> handle \<Rightarrow> nat \<Rightarrow> nat \<Rightarrow> user_code \<Rightarrow> client \<Rightarrow> bool" where
  "courteous f h g cid u cl \<longleftrightarrow>
     (\<forall>n. polite f h g (\<lambda>_. True) (uc_allocator u n)) \<and>
     (\<forall>n p q k b. polite f h g (\<lambda>_. True) (uc_updater u n p q k b)) \<and>
     (\<forall>ts. tends h g cid ts \<longrightarrow>
       (\<forall>k m c. polite f h g (kept h g cid c) (cb_message (cl_callbacks cl) k m (c, ts))) \<and>
       (\<forall>k c. polite f h g (kept h g cid c) (cb_terminate (cl_callbacks cl) k (c, ts))) \<and>
       (\<forall>n k. polite f h g (tends h g cid) (cl_reader cl n k ts)) \<and>
       (\<forall>k. polite f h g (tends h g cid) (cl_wake cl k ts)))"

lemma courteousD:
  assumes "courteous f h g cid u cl"
  shows "polite f h g (\<lambda>_. True) (uc_allocator u n)" "polite f h g (\<lambda>_. True) (uc_updater u n p q k b)"
    "tends h g cid (snd cx) \<Longrightarrow> polite f h g (kept h g cid (fst cx)) (cb_message (cl_callbacks cl) k' m cx)"
    "tends h g cid (snd cx) \<Longrightarrow> polite f h g (kept h g cid (fst cx)) (cb_terminate (cl_callbacks cl) k' cx)"
    "tends h g cid ts \<Longrightarrow> polite f h g (tends h g cid) (cl_reader cl n k ts)"
    "tends h g cid ts \<Longrightarrow> polite f h g (tends h g cid) (cl_wake cl n ts)"
  using assms unfolding courteous_def by (metis prod.collapse)+

lemma polite_attentive: "polite f h g I m \<Longrightarrow> attentive f h g I m"
  unfolding polite_def by (blast intro: attentive_calm)

named_theorems polite_intros "polite operations"

lemma polite_calm: "forward (calm f h g) m \<Longrightarrow> tame m \<Longrightarrow> (\<And>w a w'. m w = Done a w' \<Longrightarrow> I a) \<Longrightarrow> polite f h g I m"
  by (auto simp: polite_def tame_def)

lemma politeD:
  assumes "polite f h g I m"
  shows "forward (calm f h g) m" "m w = Done a w' \<Longrightarrow> I a" "m w \<noteq> Fail OutOfFuel w'"
  using assms unfolding polite_def by blast+

lemma polite_weaken: "polite f h g I m \<Longrightarrow> (\<And>a. I a \<Longrightarrow> J a) \<Longrightarrow> polite f h g J m"
  unfolding polite_def by blast

lemma polite_bindM [polite_intros]:
  assumes "polite f h g I m" "\<And>a. I a \<Longrightarrow> polite f h g J (n a)"
  shows "polite f h g J (bindM m n)"
proof -
  have "os_le (calm f h g) w (outcome_world (bindM m n w))" for w
    unfolding bindM_apply
    by (rule os_le_bind_out [OF forwardD [OF politeD(1) [OF assms(1)]]])
      (rule forwardD [OF politeD(1) [OF assms(2) [OF politeD(2) [OF assms(1)]]]])
  moreover have "bindM m n w \<noteq> Fail OutOfFuel w' \<and> (bindM m n w = Done a w' \<longrightarrow> J a)" for w a w'
  proof (cases "m w")
    case (Done b w1)
    then have "I b" using assms(1) unfolding polite_def by blast
    from assms(2) [OF this] Done show ?thesis unfolding polite_def by auto
  next
    case (Fail e w1)
    then show ?thesis using assms(1) unfolding polite_def by auto
  qed
  ultimately show ?thesis unfolding polite_def forward_def by blast
qed

lemma polite_seqM [polite_intros]: "polite f h g I m \<Longrightarrow> polite f h g J n \<Longrightarrow> polite f h g J (seqM m n)"
  unfolding seqM_def by (rule polite_bindM)

lemma polite_basic [polite_intros]:
  "I a \<Longrightarrow> polite f h g I (returnM a)" "e \<noteq> OutOfFuel \<Longrightarrow> polite f h g I (failM e)"
  "polite f h g (\<lambda>_. True) (CL_ASSERT b)" "calm f h g e' \<Longrightarrow> polite f h g (\<lambda>_. True) (emit e')"
  by (rule polite_calm; auto simp: tame_def emit_def CL_ASSERT_def intro: forward_intros)+

lemma polite_if [polite_intros]:
  "(b \<Longrightarrow> polite f h g I m) \<Longrightarrow> (\<not> b \<Longrightarrow> polite f h g I n) \<Longrightarrow> polite f h g I (if b then m else n)"
  by simp

lemma polite_calls [polite_intros]:
  assumes "\<And>r. calm f h g (Sys c r)"
  shows "polite f h g (\<lambda>_. True) (CL_TEMP_FAILURE_RETRY c)" "polite f h g (\<lambda>_. True) (CL_CHECK c)"
    "polite f h g (\<lambda>_. True) (sys c)"
  by (rule polite_calm; auto intro: forward_intros tame_intros assms)+

lemma tends_put_channel:
  "tends h g cid ts \<Longrightarrow> (if cid' = cid then own h g c else foreign h g c) \<Longrightarrow> tends h g cid (put_channel cid' c ts)"
  by (auto simp: tends_def put_channel_def)

lemma tends_sources:
  "tends h g cid ts \<Longrightarrow> sr_objects (ts_sources ts) p = Some s \<Longrightarrow> so_readHandler s' = so_readHandler s \<Longrightarrow>
   tends h g cid (ts\<lparr>ts_sources := store_put p s' (ts_sources ts)\<rparr>)"
  unfolding tends_def store_put_def by auto

lemma tends_looper [simp]: "tends h g cid (ts\<lparr>ts_looper := l\<rparr>) = tends h g cid ts"
  by (simp add: tends_def)

section \<open>Handling what was read\<close>

lemma close_polite: "polite f h g (\<lambda>(_, s'). s' = s\<lparr>sk_handle := -1\<rparr>) (Socket_close s)"
proof (rule polite_calm)
  show "forward (calm f h g) (Socket_close s)" "tame (Socket_close s)"
    unfolding Socket_close_def by (intro forward_intros; simp) (intro tame_intros)
qed (auto simp: Socket_close_def bind_out_Done_iff split: if_splits)

lemma terminate_polite:
  assumes "courteous f h g cid u cl" "tends h g cid (snd cx)"
  shows "polite f h g (kept h g cid (fst cx)) (Channel_terminate (cl_callbacks cl) cx)"
proof -
  let ?c = "(fst cx)\<lparr>ch_socket := (ch_socket (fst cx))\<lparr>sk_handle := -1\<rparr>, ch_connected := False, ch_ready := False\<rparr>"
  have c: "own h g (fst cx) \<Longrightarrow> own h g ?c" "foreign h g (fst cx) \<Longrightarrow> foreign h g ?c"
    by (auto simp: own_def foreign_def socket_ready_def)
  then have fin: "kept h g cid (fst cx) (?c, snd cx)" using assms(2) by (simp add: kept_def)
  have "polite f h g (kept h g cid ?c) (cb_terminate (cl_callbacks cl) k (?c, snd cx))" for k
    using courteousD(4) [OF assms(1), of "(?c, snd cx)" k] assms(2) by simp
  then have "polite f h g (kept h g cid (fst cx)) (cb_terminate (cl_callbacks cl) k (?c, snd cx))" for k
    by (rule polite_weaken) (use c in \<open>auto simp: kept_def\<close>)
  note tell = polite_seqM [OF polite_basic(4) this]
  show ?thesis
    unfolding Channel_terminate_def Let_def case_prod_unfold
    by (rule polite_bindM [OF close_polite])
      (auto intro!: polite_basic(1) tell fin split: option.split)
qed

text \<open>Messages that are in hand are heard; the client's code can stop it half-way.\<close>

lemma dispatch_hears:
  assumes "courteous f h g cid u cl" "own h g c" "tends h g cid ts"
  shows "(\<exists>es hand. os_trace (outcome_world (dispatch_messages (cl_callbacks cl) ms (c, ts) w)) = os_trace w @ es \<and>
      (\<forall>e \<in> set es. says f h e) \<and> received h es = [] \<and> map (delivery g) ms = heard g es @ hand \<and>
      (between (dispatch_messages (cl_callbacks cl) ms (c, ts) w) \<longrightarrow> hand = [])) \<and>
    os_malloc (outcome_world (dispatch_messages (cl_callbacks cl) ms (c, ts) w)) = os_malloc w \<and>
    (\<forall>c' ts' w'. dispatch_messages (cl_callbacks cl) ms (c, ts) w = Done (c', ts') w' \<longrightarrow> own h g c' \<and> tends h g cid ts')"
  using assms(2,3)
proof (induction ms arbitrary: c ts w)
  case Nil
  then show ?case by (auto intro!: exI [of _ "[]"])
next
  case (Cons m ms)
  let ?cb = "cl_callbacks cl" and ?w = "w\<lparr>os_trace := os_trace w @ [delivery g m]\<rparr>"
  have cb: "ch_messageReceivedCallback c = Some g" using Cons.prems(1) by (simp add: own_def)
  have polite: "polite f h g (kept h g cid c) (cb_message ?cb g m (c, ts))"
    using courteousD(3) [OF assms(1), of "(c, ts)"] Cons.prems(2) by simp
  have run: "dispatch_messages ?cb (m # ms) (c, ts) w = bind_out (cb_message ?cb g m (c, ts) ?w) (dispatch_messages ?cb ms)"
    by (simp add: cb emit_def delivery_def)
  have le: "os_le (calm f h g) ?w (outcome_world (cb_message ?cb g m (c, ts) ?w))"
    using polite by (simp add: polite_def forwardD)
  then obtain es where es: "os_trace (outcome_world (cb_message ?cb g m (c, ts) ?w)) = os_trace ?w @ es"
    "\<forall>e \<in> set es. calm f h g e"
    by (auto simp: os_le_def)
  note calm = calm_events [OF es(2)]
  have first: "received h (delivery g m # es) = []" "heard g (delivery g m # es) = [delivery g m]"
    "\<forall>e \<in> set (delivery g m # es). says f h e"
    using calm by (simp_all add: delivery_def)
  show ?case
  proof (cases "cb_message ?cb g m (c, ts) ?w")
    case (Fail e w1)
    with polite have "e \<noteq> OutOfFuel" unfolding polite_def by metis
    with Fail run es(1) first os_le_malloc [OF le] show ?thesis
      by (intro conjI exI [of _ "delivery g m # es"] exI [of _ "map (delivery g) ms"]) auto
  next
    case (Done cx w1)
    obtain c1 ts1 where cx: "cx = (c1, ts1)" by (cases cx)
    with polite Done have "kept h g cid c (c1, ts1)" unfolding polite_def by metis
    with Cons.prems have "own h g c1" "tends h g cid ts1" by (simp_all add: kept_def)
    note IH = Cons.IH [OF this, of w1]
    then obtain es1 hand where 1: "os_trace (outcome_world (dispatch_messages ?cb ms (c1, ts1) w1)) = os_trace w1 @ es1"
      "\<forall>e \<in> set es1. says f h e" "received h es1 = []" "map (delivery g) ms = heard g es1 @ hand"
      "between (dispatch_messages ?cb ms (c1, ts1) w1) \<longrightarrow> hand = []"
      by blast
    have "os_trace w1 = os_trace ?w @ es" "os_malloc w1 = os_malloc w" using es(1) Done os_le_malloc [OF le] by simp_all
    with run Done cx 1 first IH show ?thesis
      by (intro conjI exI [of _ "(delivery g m # es) @ es1"] exI [of _ hand]) auto
  qed
qed

lemma ReadMessages_hears:
  assumes "own h g c" "\<forall>k. os_malloc w k"
  shows "reads_all h [] (ch_socket c) w (Socket_ReadMessages (ch_socket c) w)"
proof (cases "lk_locked (sk_lock (ch_socket c))")
  case True
  then show ?thesis
    by (simp add: Socket_ReadMessages_def with_AutoLock_held reads_all_Fail)
next
  case False
  let ?s = "(ch_socket c)\<lparr>sk_lock := (sk_lock (ch_socket c))\<lparr>lk_locked := True\<rparr>\<rparr>"
  have "reads_all h [] ?s w (read_loop [] ?s w)"
    by (rule read_loop_hears) (use assms in \<open>auto simp: own_def socket_ready_def\<close>)
  moreover have "recv_call ?s = recv_call (ch_socket c)" by (simp add: recv_call_def)
  moreover have "Socket_ReadMessages (ch_socket c) w = bind_out (read_loop [] ?s w)
      (\<lambda>(a, s') w'. Done (a, s'\<lparr>sk_lock := Lock_unlock (sk_lock s')\<rparr>) w')"
    by (simp add: Socket_ReadMessages_def with_AutoLock_free False)
  moreover have "socket_ready (s'\<lparr>sk_lock := l\<rparr>) = socket_ready s'" for s' l by (simp add: socket_ready_def)
  ultimately show ?thesis
    by (cases "read_loop [] ?s w") (auto simp: reads_all_def)
qed

lemma reads_all_hand:
  assumes "reads_all h [] s w (Fail e w1)"
  shows "hears_all f h g w (Fail e w1)"
proof -
  from assms obtain es where es: "e \<noteq> OutOfFuel" "os_malloc w1 = os_malloc w" "os_trace w1 = os_trace w @ es"
    "\<forall>e \<in> set es. \<exists>r. e = Sys (recv_call s) r"
    by (auto simp: reads_all_def)
  then have "heard g es = []" "\<forall>e \<in> set es. says f h e" by (auto simp: heard_def recv_call_def)
  with es show ?thesis by (auto simp: hears_all_def)
qed

lemma own_read_dispatch:
  assumes "courteous f h g cid u cl" "own h g c" "tends h g cid ts" "\<forall>k. os_malloc w k"
    "Socket_ReadMessages (ch_socket c) w = Done ((st, ms), s) w1"
  defines "out \<equiv> dispatch_messages (cl_callbacks cl) ms (c\<lparr>ch_socket := s\<rparr>, ts) w1"
  shows "hears_all f h g w out" "out = Done cx w2 \<Longrightarrow> own h g (fst cx) \<and> tends h g cid (snd cx)"
proof -
  from ReadMessages_hears [OF assms(2,4)] assms(5) obtain es where
    es: "os_malloc w1 = os_malloc w" "os_trace w1 = os_trace w @ es" "\<forall>e \<in> set es. \<exists>r. e = Sys (recv_call (ch_socket c)) r"
    "socket_ready s" "(\<forall>e \<in> set es. lawful h e) \<longrightarrow> ms = map packet_message (received h es)"
    by (auto simp: reads_all_def)
  have says: "heard g es = []" "\<forall>e \<in> set es. says f h e" using es(3) by (auto simp: heard_def recv_call_def)
  have "own h g (c\<lparr>ch_socket := s\<rparr>)"
    using assms(2) es(4) ReadMessages_frame(1) [OF assms(5)] by (simp add: own_def)
  note dispatch = dispatch_hears [OF assms(1) this assms(3), of ms w1, folded out_def]
  show "out = Done cx w2 \<Longrightarrow> own h g (fst cx) \<and> tends h g cid (snd cx)"
    using dispatch by (cases cx) simp
  from dispatch obtain es2 hand where 2: "os_trace (outcome_world out) = os_trace w1 @ es2"
    "\<forall>e \<in> set es2. says f h e" "received h es2 = []" "map (delivery g) ms = heard g es2 @ hand"
    "between out \<longrightarrow> hand = []" "os_malloc (outcome_world out) = os_malloc w1"
    by blast
  show "hears_all f h g w out"
  proof -
    have "map (hearing g) (received h (es @ es2)) = heard g (es @ es2) @ hand" if "\<forall>e \<in> set (es @ es2). lawful h e"
      using 2 says es(5) that by (simp add: hearing_def [abs_def] comp_def)
    moreover have "os_trace (outcome_world out) = os_trace w @ es @ es2" "\<forall>e \<in> set (es @ es2). says f h e"
      using es 2 says by auto
    ultimately show ?thesis unfolding hears_all_def using es(1) 2(5,6) by metis
  qed
qed

text \<open>The reader of the channel hears everything it reads.\<close>

lemma own_read_attentive:
  assumes "courteous f h g cid u cl" "own h g c" "tends h g cid ts"
  shows "attentive f h g (\<lambda>cx. own h g (fst cx) \<and> tends h g cid (snd cx))
    (Channel_readMessageOnHandle (cl_callbacks cl) k (c, ts))"
  unfolding attentive_def
proof (intro allI impI)
  fix w :: os
  assume w: "\<forall>k. os_malloc w k"
  let ?out = "Channel_readMessageOnHandle (cl_callbacks cl) k (c, ts) w"
  show "hears_all f h g w ?out \<and> (\<forall>cx w'. ?out = Done cx w' \<longrightarrow> own h g (fst cx) \<and> tends h g cid (snd cx))"
  proof (cases "Socket_ReadMessages (ch_socket c) w")
    case (Fail e w1)
    with reads_all_hand ReadMessages_hears [OF assms(2) w] show ?thesis
      by (simp add: Channel_readMessageOnHandle_def)
  next
    case (Done x w1)
    obtain st ms s where x: "x = ((st, ms), s)" by (metis prod.collapse)
    let ?d = "dispatch_messages (cl_callbacks cl) ms (c\<lparr>ch_socket := s\<rparr>, ts) w1"
    let ?n = "\<lambda>cx. if st = PermanentFailure then Channel_terminate (cl_callbacks cl) cx else returnM cx"
    have out: "?out = bind_out ?d ?n"
      using Done x assms(2) by (simp add: Channel_readMessageOnHandle_def own_def)
    note read = own_read_dispatch [OF assms(1-3) w Done [unfolded x]]
    show ?thesis
    proof (cases ?d)
      case (Fail e w2)
      with read(1) show ?thesis unfolding out by (simp add: hears_all_def)
    next
      case (Done cx w2)
      from read(2) [OF this] have cx: "own h g (fst cx)" "tends h g cid (snd cx)" by simp_all
      have n: "attentive f h g (\<lambda>cx. own h g (fst cx) \<and> tends h g cid (snd cx)) (?n cx)"
        by (intro attentive_if attentive_weaken [OF polite_attentive [OF terminate_polite [OF assms(1) cx(2)]]] attentive_basic)
          (use cx in \<open>auto simp: kept_def\<close>)
      have "\<forall>k. os_malloc w2 k" using read(1) Done w by (simp add: hears_all_def)
      note rest = attentiveD(1,2) [OF n this]
      from hears_all_trans [OF read(1) [unfolded Done] rest(1)] rest(2) show ?thesis
        unfolding out Done bind_out.simps by blast
    qed
  qed
qed

section \<open>Sending\<close>

lemma send_loop_events:
  assumes "\<And>r. P (Sys (Sendmsg h payload control) r)" "\<And>r. P (Sys (PollOut h) r)"
  shows "forward P (send_loop h payload control)"
proof (rule forwardI)
  fix w
  show "os_le P w (outcome_world (send_loop h payload control w))"
    using assms
  proof (induction h payload control w rule: send_loop.induct)
    case (1 h payload control w)
    have "forward P (CL_TEMP_FAILURE_RETRY (Sendmsg h payload control))" "forward P (CL_TEMP_FAILURE_RETRY (PollOut h))"
      using 1 by (auto intro: forward_intros)
    note call = this [THEN forwardD]
    show ?case
      by (subst send_loop.simps, unfold Let_def, rule os_le_bind_out [OF call(1)])
        (use 1 in \<open>auto intro!: os_le_bind_out [OF call(2)] os_le_bind_out [OF forwardD [OF forward_basic(4)]]\<close>)
  qed
qed

lemma bind_out_FailE:
  assumes "bind_out m n = Fail e w"
  obtains "m = Fail e w" | a w1 where "m = Done a w1" "n a w1 = Fail e w"
  using assms by (cases m) auto

lemma send_loop_tame: "send_loop h payload control w \<noteq> Fail OutOfFuel w'"
proof (induction h payload control w rule: send_loop.induct)
  case (1 h payload control w)
  show ?case
    by (subst send_loop.simps, cases "CL_TEMP_FAILURE_RETRY (Sendmsg h payload control) w")
      (use 1 in \<open>auto simp: Let_def CL_ASSERT_def dest: retry_FailE elim!: bind_out_FailE split: if_splits\<close>)
qed

lemma WriteMessage_polite:
  assumes "sendable f m" "h \<noteq> -1"
  shows "polite f h g (\<lambda>(_, s'). sk_handle s' = sk_handle s \<and> (socket_ready s \<longrightarrow> socket_ready s')) (Socket_WriteMessage m s)"
proof (rule polite_calm)
  have calm: "calm f h g (Sys (Sendmsg k (Message_data m) (attachment_control (m_attachments m))) r)" for k r
    using assms(1) by (auto simp: calm_def)
  have body: "forward (calm f h g) (write_body m s')" for s'
  proof -
    have "forward (calm f h g) (\<lambda>w. if b then Done (d w) w else Done e w)" for b d e
      by (rule forwardI) simp
    then show ?thesis
      unfolding write_body_def by (intro forward_intros send_loop_events calm) simp_all
  qed
  show "forward (calm f h g) (Socket_WriteMessage m s)"
    unfolding Socket_WriteMessage_def by (intro forward_intros body)
  have "write_body m s' w \<noteq> Fail OutOfFuel w'" for s' w w'
    by (auto simp: write_body_def send_loop_tame elim!: bind_out_FailE split: if_splits)
  then show "tame (Socket_WriteMessage m s)"
    using forward_mono [OF \<open>forward (calm f h g) (Socket_WriteMessage m s)\<close>]
    by (auto simp: tame_def Socket_WriteMessage_def with_AutoLock_def elim!: bind_out_FailE split: option.splits)
next
  fix w a w' assume "Socket_WriteMessage m s w = Done a w'"
  then show "case a of (_, s') \<Rightarrow> sk_handle s' = sk_handle s \<and> (socket_ready s \<longrightarrow> socket_ready s')"
    unfolding Socket_WriteMessage_def
    by (cases a) (auto elim!: with_AutoLock_Done dest!: write_body_frame simp: socket_ready_def)
qed

lemma send_polite:
  assumes "\<And>c ts. tends h g cid ts \<Longrightarrow> polite f h g (kept h g cid c) (Channel_terminate cb (c, ts))"
    "sendable f m" "h \<noteq> -1" "tends h g cid ts"
  shows "polite f h g (\<lambda>(_, cx). kept h g cid c cx) (Channel_sendMessage cb m (c, ts))"
proof -
  have rest: "polite f h g (\<lambda>(_, cx). kept h g cid c cx)
      (if st = PermanentFailure
       then bindM (Channel_terminate cb (c\<lparr>ch_socket := s'\<rparr>, ts)) (\<lambda>cx'. returnM (False, cx'))
       else returnM (st = Success, c\<lparr>ch_socket := s'\<rparr>, ts))"
    if "sk_handle s' = sk_handle (ch_socket c)" "socket_ready (ch_socket c) \<longrightarrow> socket_ready s'" for st s'
  proof -
    have c: "kept h g cid c cx" if "kept h g cid (c\<lparr>ch_socket := s'\<rparr>) cx" for cx
      using that \<open>sk_handle s' = sk_handle (ch_socket c)\<close> \<open>socket_ready (ch_socket c) \<longrightarrow> socket_ready s'\<close>
      by (auto simp: kept_def own_def foreign_def)
    moreover have "kept h g cid (c\<lparr>ch_socket := s'\<rparr>) (c\<lparr>ch_socket := s'\<rparr>, ts)" using assms(4) by (simp add: kept_def)
    ultimately show ?thesis
      by (intro polite_intros polite_bindM [OF assms(1) [OF assms(4)]]) auto
  qed
  show ?thesis
    unfolding Channel_sendMessage_def Let_def prod.case
    by (intro polite_seqM [OF polite_basic(3)] polite_bindM [OF WriteMessage_polite [OF assms(2,3)]])
      (use rest in auto)
qed

section \<open>Other channels\<close>

lemma only_on_calm: "only_on k e \<Longrightarrow> k \<noteq> h \<Longrightarrow> calm f h g e"
  by (auto simp: only_on_def calm_def split: event.splits syscall.splits)

lemma foreign_dispatch_attentive:
  assumes "courteous f h g cid u cl" "foreign h g (fst cx)" "tends h g cid (snd cx)"
  shows "attentive f h g (\<lambda>cx. foreign h g (fst cx) \<and> tends h g cid (snd cx)) (dispatch_messages (cl_callbacks cl) ms cx)"
  using assms(2,3)
proof (induction ms arbitrary: cx)
  case Nil
  then show ?case by (simp only: dispatch_messages.simps attentive_basic)
next
  case (Cons m ms)
  show ?case
  proof (cases "ch_messageReceivedCallback (fst cx)")
    case None
    show ?thesis unfolding dispatch_messages.simps None option.case by (rule attentive_basic)
  next
    case (Some k)
    then have "k \<noteq> g" using Cons.prems(1) by (simp add: foreign_def)
    then show ?thesis
      unfolding dispatch_messages.simps Some option.case
      by (intro attentive_seqM [OF polite_attentive [OF polite_basic(4)]]
          attentive_bindM [OF polite_attentive [OF courteousD(3) [OF assms(1) Cons.prems(2)]]] Cons.IH)
        (use Cons.prems in \<open>simp_all add: kept_def\<close>)
  qed
qed

lemma foreign_read_attentive:
  assumes "courteous f h g cid u cl" "foreign h g c" "tends h g cid ts"
  shows "attentive f h g (\<lambda>cx. foreign h g (fst cx) \<and> tends h g cid (snd cx))
    (Channel_readMessageOnHandle (cl_callbacks cl) k (c, ts))"
proof -
  let ?I = "\<lambda>cx. foreign h g (fst cx) \<and> tends h g cid (snd cx)"
  have "forward (calm f h g) (Socket_ReadMessages (ch_socket c))"
    by (rule forward_mono [OF ReadMessages_forward]) (use assms(2) in \<open>auto simp: foreign_def intro: only_on_calm\<close>)
  then have read: "attentive f h g (\<lambda>(_, s'). sk_handle s' = sk_handle (ch_socket c)) (Socket_ReadMessages (ch_socket c))"
    by (rule attentive_calm) (auto dest: ReadMessages_frame)
  have over: "attentive f h g ?I (if st = PermanentFailure then Channel_terminate (cl_callbacks cl) cx else returnM cx)"
    if "?I cx" for st cx
    by (intro attentive_if attentive_weaken [OF polite_attentive [OF terminate_polite [OF assms(1)]]] attentive_basic)
      (use that in \<open>auto simp: kept_def\<close>)
  have "foreign h g (c\<lparr>ch_socket := s'\<rparr>)" if "sk_handle s' = sk_handle (ch_socket c)" for s'
    using assms(2) that by (simp add: foreign_def)
  then have "attentive f h g ?I (if ch_messageReceivedCallback (c\<lparr>ch_socket := s'\<rparr>) \<noteq> None
      then dispatch_messages (cl_callbacks cl) ms (c\<lparr>ch_socket := s'\<rparr>, ts) else returnM (c\<lparr>ch_socket := s'\<rparr>, ts))"
    if "sk_handle s' = sk_handle (ch_socket c)" for ms s'
    by (intro attentive_if foreign_dispatch_attentive [OF assms(1)] attentive_basic) (use that assms(3) in simp_all)
  note rest = attentive_bindM [OF this over]
  show ?thesis
    unfolding Channel_readMessageOnHandle_def Let_def prod.case
  proof (rule attentive_bindM [OF read])
    fix a :: "read_result \<times> socket"
    assume "case a of (_, s') \<Rightarrow> sk_handle s' = sk_handle (ch_socket c)"
    then obtain st ms s' where "a = ((st, ms), s')" "sk_handle s' = sk_handle (ch_socket c)" by (cases a) auto
    with rest show "attentive f h g ?I ((\<lambda>((st, ms), s').
        bindM (if ch_messageReceivedCallback (c\<lparr>ch_socket := s'\<rparr>) \<noteq> None
          then dispatch_messages (cl_callbacks cl) ms (c\<lparr>ch_socket := s'\<rparr>, ts) else returnM (c\<lparr>ch_socket := s'\<rparr>, ts))
        (\<lambda>cx'. if st = PermanentFailure then Channel_terminate (cl_callbacks cl) cx' else returnM cx')) a)"
      by (simp only: prod.case)
  qed
qed

section \<open>Sources\<close>

lemma run_allocator_polite:
  assumes "courteous f h g cid u cl"
  shows "polite f h g (\<lambda>_. True) (run_allocator u a)"
proof (cases a)
  case (UserAllocator n)
  with courteousD(1) [OF assms] show ?thesis by simp
qed (auto simp: pipe_allocate_def timer_allocate_def Let_def intro!: polite_intros)

lemma readHandle_polite:
  assumes "courteous f h g cid u cl"
  shows "polite f h g (\<lambda>(_, s'). so_readHandler s' = so_readHandler s) (LooperSource_readHandle u s)"
  unfolding LooperSource_readHandle_def LooperSource_handles_def
  by (intro polite_bindM [where I = "\<lambda>(_, s'). so_readHandler s' = so_readHandler s"] polite_if
      polite_bindM [where I = "\<lambda>_. True"])
    (auto intro!: polite_basic(1) split: option.split intro: run_allocator_polite [OF assms])

lemma run_updater_polite:
  assumes "courteous f h g cid u cl"
  shows "polite f h g (\<lambda>_. True) (run_updater u n p q k b)"
proof (cases n)
  case (UserUpdater n)
  with courteousD(2) [OF assms] show ?thesis by simp
qed (auto simp: kevent_timer_update_def LooperSource_UpdateKeventSource_def intro!: polite_intros)

lemma update_polite:
  assumes "courteous f h g cid u cl"
  shows "polite f h g (\<lambda>s'. so_readHandler s' = so_readHandler s) (updateInWaitSetHandle pf u p q b s)"
proof -
  have rest: "polite f h g (\<lambda>s'. so_readHandler s' = so_readHandler s)
      (case r of (k, s') \<Rightarrow> case so_customWaitSetUpdateHandler s of
         Some n \<Rightarrow> seqM (run_updater u n p q k b) (returnM s')
       | None \<Rightarrow> seqM (ctl k) (returnM s'))"
    if "case r of (_, s') \<Rightarrow> so_readHandler s' = so_readHandler s" "\<And>k. polite f h g (\<lambda>_. True) (ctl k)"
    for r and ctl :: "handle \<Rightarrow> os \<Rightarrow> unit outcome"
    using that
    by (auto intro!: polite_seqM [OF run_updater_polite [OF assms]] polite_seqM [OF that(2)] polite_basic(1)
        split: option.split)
  have control: "polite f h g (\<lambda>_. True) (seqM (CL_TEMP_FAILURE_RETRY c) (returnM ()))"
    if "\<And>r. calm f h g (Sys c r)" for c
    by (rule polite_seqM [OF polite_calls(1) [OF that] polite_basic(1)]) simp
  show ?thesis
    unfolding updateInWaitSetHandle_def
    by (cases pf; simp only: platform.case updateInWaitSetHandle_Linux_def updateInWaitSetHandle_Apple_def
        LooperSource_UpdateEpollSource_def LooperSource_UpdateKeventSource_def)
      (rule polite_bindM [OF readHandle_polite [OF assms] rest], assumption, rule control, cases b; simp)+
qed

lemma bind_deref_polite:
  assumes "\<And>s. sr_objects st p = Some s \<Longrightarrow> polite f h g I (n s)"
  shows "polite f h g I (bindM (deref st p) n)"
  unfolding bind_deref using assms by (auto split: option.split intro: polite_intros)

lemma addSource_polite:
  assumes "courteous f h g cid u cl" "tends h g cid ts"
  shows "polite f h g (\<lambda>(_, ts'). tends h g cid ts') (Looper_addSource pf u p ts)"
proof -
  let ?I = "\<lambda>st. tends h g cid (ts\<lparr>ts_sources := st\<rparr>)"
  have "polite f h g ?I (update_source pf u q True p (ts_sources ts))" for q
    unfolding update_source_def
    by (rule bind_deref_polite, rule polite_bindM [OF update_polite [OF assms(1)]])
      (auto intro!: polite_basic(1) tends_sources [OF assms(2)])
  note update = this
  have "polite f h g (\<lambda>(_, ws, st). ?I st) (WaitSet_addSource pf u p (lp_waitSet (ts_looper ts)) (ts_sources ts))"
    unfolding WaitSet_addSource_def
    by (intro polite_if polite_bindM [OF update] polite_basic(1)) (use assms(2) in auto)
  then show ?thesis
    unfolding Looper_addSource_def
    by (rule polite_bindM) (auto intro!: polite_basic(1) simp: tends_def)
qed

section \<open>The loop\<close>

lemma prepare_attentive:
  assumes "courteous f h g cid u cl" "tends h g cid ts"
  shows "attentive f h g (tends h g cid) (Looper_prepare pf u ts)"
proof (cases "lp_trivialSource (ts_looper ts) = 0")
  case True
  let ?t = "sr_next (ts_sources ts)"
  let ?ts = "ts\<lparr>ts_looper := (ts_looper ts)\<lparr>lp_trivialSource := ?t\<rparr>, ts_sources := \<lparr>sr_next = Suc ?t,
    sr_objects = (sr_objects (ts_sources ts))(?t \<mapsto> LooperSource_AsTrivial)\<rparr>\<rparr>"
  have "tends h g cid ?ts"
    using assms(2) by (auto simp: tends_def LooperSource_AsTrivial_def LooperSource_ctor_def)
  from polite_attentive [OF addSource_polite [OF assms(1) this]]
  have "attentive f h g (tends h g cid) (bindM (Looper_addSource pf u ?t ?ts) (\<lambda>(_, ts''). returnM ts''))"
    by (rule attentive_bindM) (auto intro: attentive_basic)
  then show ?thesis
    unfolding Looper_prepare_def if_P [OF True] store_new_def Let_def prod.case .
next
  case False
  then show ?thesis unfolding Looper_prepare_def using assms(2) by (simp add: attentive_basic)
qed

lemma channel_reader_attentive:
  assumes "courteous f h g cid u cl" "tends h g cid ts"
  shows "attentive f h g (tends h g cid) (library_reader cl (ChannelReader cid') k ts)"
proof (cases "ob_channels (ts_client ts) cid'")
  case None
  then show ?thesis by (simp add: attentive_basic)
next
  case (Some c)
  let ?ours = "\<lambda>c. if cid' = cid then own h g c else foreign h g c"
  have c: "?ours c" using assms(2) Some by (simp add: tends_def)
  have "attentive f h g (\<lambda>cx. ?ours (fst cx) \<and> tends h g cid (snd cx)) (Channel_readMessageOnHandle (cl_callbacks cl) k (c, ts))"
    using own_read_attentive [OF assms(1) _ assms(2)] foreign_read_attentive [OF assms(1) _ assms(2)] c
    by (cases "cid' = cid") simp_all
  then have "attentive f h g (tends h g cid) (bindM (Channel_readMessageOnHandle (cl_callbacks cl) k (c, ts))
      (\<lambda>(c', ts'). returnM (put_channel cid' c' ts')))"
    by (rule attentive_bindM) (auto intro!: attentive_basic(1) tends_put_channel split: prod.split if_splits)
  with Some show ?thesis by simp
qed

lemma run_reader_attentive:
  assumes "courteous f h g cid u cl" "tends h g cid ts" "\<And>sid. r \<noteq> ServerReader sid"
  shows "attentive f h g (tends h g cid) (run_reader (library_handlers cl) r k ts)"
proof (cases r)
  case (ChannelReader cid')
  with channel_reader_attentive [OF assms(1,2)] show ?thesis
    by (simp add: library_handlers_def del: library_reader.simps)
next
  case (UserReader n)
  with polite_attentive [OF courteousD(5) [OF assms(1,2)]] show ?thesis by (simp add: library_handlers_def)
next
  case WakeReader
  have "polite f h g (\<lambda>_. True) (wake_read k)"
    unfolding wake_read_def by (intro polite_bindM [OF polite_calls(1)] polite_basic(3)) simp
  from attentive_seqM [OF polite_attentive [OF this] attentive_basic(1) [of "tends h g cid", OF assms(2)]]
  show ?thesis by (simp add: WakeReader)
next
  case TimerReader
  have "polite f h g (\<lambda>_. True) (timer_read k)"
    unfolding timer_read_def by (intro polite_bindM [OF polite_calls(1)] polite_basic(3)) simp
  from attentive_seqM [OF polite_attentive [OF this] attentive_basic(1) [of "tends h g cid", OF assms(2)]]
  show ?thesis by (simp add: TimerReader)
qed (use assms(3) in simp)

lemma bind_deref_attentive:
  assumes "\<And>s. sr_objects st p = Some s \<Longrightarrow> attentive f h g I (n s)"
  shows "attentive f h g I (bindM (deref st p) n)"
  unfolding bind_deref using assms by (auto split: option.split intro: attentive_basic)

lemma dispatch_attentive:
  assumes "courteous f h g cid u cl" "tends h g cid ts"
  shows "attentive f h g (tends h g cid) (Looper_dispatch u (library_handlers cl) p ts)"
proof (cases "p = 0")
  case True
  with assms(2) show ?thesis by (simp add: Looper_dispatch_def attentive_basic)
next
  case False
  have wake: "attentive f h g (tends h g cid) (onAwoken (library_handlers cl) p ts')" if "tends h g cid ts'" for ts'
    unfolding onAwoken_def
    by (rule bind_deref_attentive) (auto simp: library_handlers_def that split: option.split
        intro!: attentive_basic polite_attentive [OF courteousD(6) [OF assms(1)]])
  have read: "attentive f h g (tends h g cid) (bindM (LooperSource_readHandle u s)
      (\<lambda>(k, s'). run_reader (library_handlers cl) r k (ts\<lparr>ts_sources := store_put p s' (ts_sources ts)\<rparr>)))"
    if "sr_objects (ts_sources ts) p = Some s" "so_readHandler s = Some r" for s r
  proof (rule attentive_bindM [OF polite_attentive [OF readHandle_polite [OF assms(1)]]])
    fix a :: "handle \<times> looperSource"
    assume a: "case a of (_, s') \<Rightarrow> so_readHandler s' = so_readHandler s"
    have "r \<noteq> ServerReader sid" for sid using assms(2) that unfolding tends_def by fastforce
    with a show "attentive f h g (tends h g cid)
        (case a of (k, s') \<Rightarrow> run_reader (library_handlers cl) r k (ts\<lparr>ts_sources := store_put p s' (ts_sources ts)\<rparr>))"
      by (auto intro!: run_reader_attentive [OF assms(1)] tends_sources [OF assms(2) that(1)])
  qed
  show ?thesis
    unfolding Looper_dispatch_def if_not_P [OF False]
    by (rule bind_deref_attentive, rule attentive_bindM [OF _ wake])
      (auto split: option.split intro!: attentive_basic read assms(2))
qed

lemma wait_attentive: "attentive f h g (\<lambda>_. True) (WaitSet_wait pf ws)"
  unfolding WaitSet_wait_def platformHandleWait_def platformHandleWait_Linux_def platformHandleWait_Apple_def
  by (rule attentive_quiet) (cases pf; simp only: platform.case; intro forward_intros; simp)

lemma while_attentive:
  assumes "courteous f h g cid u cl" "tends h g cid ts"
  shows "attentive f h g (tends h g cid) (Looper_while pf u (library_handlers cl) n ts)"
  using assms(2)
proof (induction n arbitrary: ts)
  case 0
  then show ?case by (simp only: Looper_while.simps attentive_basic)
next
  case (Suc n)
  show ?case
    unfolding Looper_while.simps
    by (intro attentive_if attentive_bindM [OF wait_attentive]
        attentive_bindM [OF dispatch_attentive [OF assms(1) Suc.prems] Suc.IH] attentive_basic(1))
      (use Suc.prems in simp)
qed

lemma loop_attentive:
  assumes "courteous f h g cid u cl" "tends h g cid ts"
  shows "attentive f h g (tends h g cid) (Looper_loop pf u (library_handlers cl) n ts)"
  unfolding Looper_loop_def by (rule attentive_bindM [OF prepare_attentive [OF assms] while_attentive [OF assms(1)]])

end
