(* ===== verification/CL_Conversation.thy ===== *)
theory CL_Conversation
  imports CL_Hearing CL_Session
begin

text \<open>
  Two whole threads that talk over a connection. Each has a channel on its end of a
  \<open>SOCK_SEQPACKET\<close> pair and a looper with whatever else it serves; they send, run their loops and
  hang up as they like, and the kernel sees their system calls in any interleaving.
\<close>

section \<open>A thread that talks\<close>

text \<open>
  What a thread does with its channel: send a message, run its loop (for at most \<open>n\<close> reports, when it
  is not stopped earlier), or terminate the channel.
\<close>

datatype turn = Say message | Run nat | Hang_up

definition with_channel :: "nat \<Rightarrow> thread \<Rightarrow> (channel \<Rightarrow> os \<Rightarrow> 'a outcome) \<Rightarrow> os \<Rightarrow> 'a outcome" where
  "with_channel cid ts n = (case ob_channels (ts_client ts) cid of None \<Rightarrow> failM MemoryFault | Some c \<Rightarrow> n c)"

fun talk :: "platform \<Rightarrow> user_code \<Rightarrow> client \<Rightarrow> nat \<Rightarrow> turn list \<Rightarrow> thread \<Rightarrow> os \<Rightarrow> thread outcome" where
  "talk pf u cl cid [] ts = returnM ts"
| "talk pf u cl cid (Say m # k) ts =
     with_channel cid ts (\<lambda>c. bindM (Channel_sendMessage (cl_callbacks cl) m (c, ts))
       (\<lambda>(_, c', ts'). talk pf u cl cid k (put_channel cid c' ts')))"
| "talk pf u cl cid (Run n # k) ts = bindM (Looper_loop pf u (library_handlers cl) n ts) (talk pf u cl cid k)"
| "talk pf u cl cid (Hang_up # k) ts =
     with_channel cid ts (\<lambda>c. bindM (Channel_terminate (cl_callbacks cl) (c, ts))
       (\<lambda>(c', ts'). talk pf u cl cid k (put_channel cid c' ts')))"

lemma with_channel_attentive:
  assumes "tends h g cid ts" "\<And>c. own h g c \<Longrightarrow> attentive f h g I (n c)"
  shows "attentive f h g I (with_channel cid ts n)"
  using assms by (auto simp: with_channel_def tends_def intro: attentive_basic split: option.split)

lemma talk_attentive:
  assumes "courteous f h g cid u cl" "tends h g cid ts" "\<forall>m. Say m \<in> set k \<longrightarrow> sendable f m"
  shows "attentive f h g (tends h g cid) (talk pf u cl cid k ts)"
  using assms(2,3)
proof (induction k arbitrary: ts)
  case Nil
  then show ?case by (simp only: talk.simps attentive_basic)
next
  case (Cons t k)
  have later: "attentive f h g (tends h g cid) (talk pf u cl cid k ts')" if "tends h g cid ts'" for ts'
    by (rule Cons.IH [OF that]) (use Cons.prems(2) in simp)
  have put: "tends h g cid (put_channel cid (fst cx) (snd cx))" if "own h g c" "kept h g cid c cx" for c cx
    using that by (auto simp: kept_def intro: tends_put_channel)
  show ?case
  proof (cases t)
    case (Say m)
    show ?thesis
      unfolding Say talk.simps
    proof (rule with_channel_attentive [OF Cons.prems(1)])
      fix c assume c: "own h g c"
      then have "h \<noteq> -1" by (simp add: own_def)
      have "polite f h g (\<lambda>(_, cx). kept h g cid c cx) (Channel_sendMessage (cl_callbacks cl) m (c, ts))"
        by (rule send_polite [OF _ _ \<open>h \<noteq> -1\<close> Cons.prems(1)])
          (use terminate_polite [OF assms(1)] Cons.prems(2) Say in auto)
      from polite_attentive [OF this]
      show "attentive f h g (tends h g cid) (bindM (Channel_sendMessage (cl_callbacks cl) m (c, ts))
          (\<lambda>(_, c', ts'). talk pf u cl cid k (put_channel cid c' ts')))"
        by (rule attentive_bindM) (use put [OF c] later in auto)
    qed
  next
    case (Run n)
    show ?thesis
      unfolding Run talk.simps by (rule attentive_bindM [OF loop_attentive [OF assms(1) Cons.prems(1)] later])
  next
    case Hang_up
    show ?thesis
      unfolding Hang_up talk.simps
    proof (rule with_channel_attentive [OF Cons.prems(1)])
      fix c assume c: "own h g c"
      from polite_attentive [OF terminate_polite [OF assms(1), of "(c, ts)"]] Cons.prems(1)
      have "attentive f h g (kept h g cid c) (Channel_terminate (cl_callbacks cl) (c, ts))" by simp
      then show "attentive f h g (tends h g cid) (bindM (Channel_terminate (cl_callbacks cl) (c, ts))
          (\<lambda>(c', ts'). talk pf u cl cid k (put_channel cid c' ts')))"
        by (rule attentive_bindM) (use put [OF c] later in auto)
    qed
  qed
qed

section \<open>Two threads and a kernel\<close>

text \<open>The descriptor a call works on.\<close>

fun works_on :: "syscall \<Rightarrow> handle option" where
  "works_on (Recvmsg h n c) = Some h"
| "works_on (Sendmsg h payload control) = Some h"
| "works_on (PollOut h) = Some h"
| "works_on (Close h) = Some h"
| "works_on (Read h n) = Some h"
| "works_on (Write h b) = Some h"
| "works_on c = None"

text \<open>
  An event of the thread at the end \<open>x\<close>, whose descriptor is \<open>h\<close>: a call on \<open>h\<close> is answered as
  \<open>kernel_step\<close> says (the kernel does not hand out the number \<open>h\<close> again after it was closed), a call on no
  descriptor fails with \<^verbatim>\<open>EBADF\<close>, error 9 of Linux, and everything else does not concern the connection.
\<close>

inductive end_step :: "nat \<Rightarrow> (handle \<Rightarrow> handle) \<Rightarrow> handle \<Rightarrow> kernel \<Rightarrow> side \<Rightarrow> event \<Rightarrow> kernel \<Rightarrow> bool"
  for cap f h K x where
  ours: "works_on c = Some h \<Longrightarrow> \<not> kn_closed K x \<Longrightarrow> kernel_step cap f K x c r K' \<Longrightarrow> end_step cap f h K x (Sys c r) K'"
| ebadf: "works_on c = Some (-1) \<Longrightarrow> r_rc r = -1 \<Longrightarrow> r_errno r = EOTHER 9 \<Longrightarrow> end_step cap f h K x (Sys c r) K"
| other: "works_on c \<noteq> Some h \<Longrightarrow> works_on c \<noteq> Some (-1) \<Longrightarrow> end_step cap f h K x (Sys c r) K"
| inner: "(\<And>c r. e \<noteq> Sys c r) \<Longrightarrow> end_step cap f h K x e K"

text \<open>What the kernel sees of both threads, in the order in which it happens.\<close>

inductive joint :: "nat \<Rightarrow> (handle \<Rightarrow> handle) \<Rightarrow> (side \<Rightarrow> handle) \<Rightarrow> kernel \<Rightarrow> (side \<times> event) list \<Rightarrow> kernel \<Rightarrow> bool"
  for cap f h where
  over: "joint cap f h K [] K"
| event: "end_step cap f (h x) K x e K1 \<Longrightarrow> joint cap f h K1 es K' \<Longrightarrow> joint cap f h K ((x, e) # es) K'"

definition fresh_pair :: kernel where
  "fresh_pair = \<lparr>kn_queue = (\<lambda>_. []), kn_closed = (\<lambda>_. False)\<rparr>"

definition of_side :: "side \<Rightarrow> (side \<times> event) list \<Rightarrow> event list" where
  "of_side x es = map snd (filter (\<lambda>(y, e). y = x) es)"

lemma of_side_simps [simp]:
  "of_side x [] = []" "of_side x (es @ es') = of_side x es @ of_side x es'"
  "of_side x ((y, e) # es) = (if y = x then e # of_side x es else of_side x es)"
  by (simp_all add: of_side_def)

lemma joint_deliver:
  assumes "kn_queue K x = p # ps" "\<not> kn_closed K x" "joint cap f h (K\<lparr>kn_queue := (kn_queue K)(x := ps)\<rparr>) es K'"
  shows "joint cap f h K ((x, Sys (Recvmsg (h x) n k) p) # es) K'"
  by (rule joint.event [OF end_step.ours [OF _ assms(2) kernel_step.deliver [OF assms(1)]] assms(3)]) simp

lemma joint_empty:
  assumes "kn_queue K x = []" "\<not> kn_closed K x" "\<not> kn_closed K (peer x)" "blocks r" "joint cap f h K es K'"
  shows "joint cap f h K ((x, Sys (Recvmsg (h x) n k) r) # es) K'"
  by (rule joint.event [OF end_step.ours [OF _ assms(2) kernel_step.empty [OF assms(1,3,4)]] assms(5)]) simp

lemma joint_accept:
  assumes "\<not> kn_closed K x" "\<not> kn_closed K (peer x)" "length (kn_queue K (peer x)) < cap" "carries f payload control p"
    "r_rc r = int (length payload)"
    "joint cap f h (K\<lparr>kn_queue := (kn_queue K)(peer x := kn_queue K (peer x) @ [p])\<rparr>) es K'"
  shows "joint cap f h K ((x, Sys (Sendmsg (h x) payload control) r) # es) K'"
  by (rule joint.event [OF end_step.ours [OF _ assms(1) kernel_step.accept [OF assms(2-5)]] assms(6)]) simp

lemma joint_other: "works_on c = None \<Longrightarrow> joint cap f h K es K' \<Longrightarrow> joint cap f h K ((x, Sys c r) # es) K'"
  by (rule joint.event [OF end_step.other]) simp_all

lemma joint_inner: "joint cap f h K es K' \<Longrightarrow> joint cap f h K ((x, MessageReceived g b hs) # es) K'"
  by (rule joint.event [OF end_step.inner]) simp_all

lemma joint_drain:
  assumes "kn_queue K x = ps" "\<not> kn_closed K x" "joint cap f h (K\<lparr>kn_queue := (kn_queue K)(x := [])\<rparr>) es K'"
  shows "joint cap f h K (map (\<lambda>p. (x, Sys (Recvmsg (h x) n k) p)) ps @ es) K'"
  using assms
proof (induction ps arbitrary: K)
  case Nil
  then have "K\<lparr>kn_queue := (kn_queue K)(x := [])\<rparr> = K" by (simp add: fun_upd_idem)
  with Nil.prems(3) show ?case by (simp del: fun_upd_apply)
next
  case (Cons p ps)
  have "joint cap f h (K\<lparr>kn_queue := (kn_queue K)(x := ps)\<rparr>) (map (\<lambda>p. (x, Sys (Recvmsg (h x) n k) p)) ps @ es) K'"
    by (rule Cons.IH) (use Cons.prems in \<open>simp_all add: fun_upd_same del: fun_upd_apply\<close>)
  with Cons.prems show ?case by (simp add: joint_deliver)
qed

lemma joint_inners:
  assumes "\<forall>e \<in> set es'. \<forall>c r. e \<noteq> Sys c r" "joint cap f h K es K'"
  shows "joint cap f h K (map (Pair x) es' @ es) K'"
  using assms by (induction es') (auto intro!: joint.event [OF end_step.inner])

lemma joint_eof:
  assumes "kn_queue K x = []" "\<not> kn_closed K x" "kn_closed K (peer x)" "r_rc r = 0" "joint cap f h K es K'"
  shows "joint cap f h K ((x, Sys (Recvmsg (h x) n k) r) # es) K'"
  by (rule joint.event [OF end_step.ours [OF _ assms(2) kernel_step.eof [OF assms(1,3,4)]] assms(5)]) simp

lemma joint_shut:
  assumes "\<not> kn_closed K x" "r_rc r = 0"
    "joint cap f h (K\<lparr>kn_closed := (kn_closed K)(x := True), kn_queue := (kn_queue K)(x := [])\<rparr>) es K'"
  shows "joint cap f h K ((x, Sys (Close (h x)) r) # es) K'"
  by (rule joint.event [OF end_step.ours [OF _ assms(1) kernel_step.shut [OF assms(2)]] assms(3)]) simp

section \<open>The flow between them\<close>

text \<open>What the callback \<open>g\<close> should hear of a send.\<close>

definition announced :: "(handle \<Rightarrow> handle) \<Rightarrow> nat \<Rightarrow> region \<times> cmsghdr list \<Rightarrow> event" where
  "announced f g pc = MessageReceived g (fst pc) (map (\<lambda>c. f (int_of_bytes (cmsg_data c))) (snd pc))"

fun ends_of :: "handle \<Rightarrow> event \<Rightarrow> bool" where
  "ends_of h (Sys (Recvmsg k n c) r) \<longleftrightarrow> k = h \<and> r_rc r = 0"
| "ends_of h e \<longleftrightarrow> False"

text \<open>The thread was told that its peer is gone.\<close>

definition told :: "handle \<Rightarrow> event list \<Rightarrow> bool" where
  "told h es \<longleftrightarrow> list_ex (ends_of h) es"

definition conveys :: "(handle \<Rightarrow> handle) \<Rightarrow> region \<times> cmsghdr list \<Rightarrow> sysres \<Rightarrow> bool" where
  "conveys f pc p \<longleftrightarrow> good_packet p \<and> (\<forall>g. hearing g p = announced f g pc)"

lemma carries_conveys:
  assumes "sendable f m" "carries f (Message_data m) (attachment_control (m_attachments m)) p"
  shows "conveys f (Message_data m, attachment_control (m_attachments m)) p"
proof -
  have "int_of_bytes (bytes_of_int (att_handle a)) = att_handle a" if "a \<in> set (m_attachments m)" for a
    using assms(1) that by (auto simp: sendable_def int_of_bytes_of_int valid_handle_def to_int_id)
  with assms(1) have "map (\<lambda>c. f (int_of_bytes (cmsg_data c))) (attachment_control (m_attachments m)) =
      map (\<lambda>a. f (att_handle a)) (m_attachments m)"
    by (cases "m_attachments m") (auto simp: sendable_def attachment_control_def)
  with carries_sendable [OF assms] show ?thesis
    by (simp add: conveys_def hearing_def announced_def delivery_def arrives_def Attachment_ctor_def comp_def)
qed

text \<open>Answers that move nothing.\<close>

lemma failed_call:
  assumes "r_rc r < 0"
  shows "packets_of h (Sys c r) = []" "sends_of h (Sys c r) = []" "\<not> ends_of h (Sys c r)"
  using assms by (cases c; simp)+

lemma other_call:
  assumes "works_on c \<noteq> Some h"
  shows "packets_of h (Sys c r) = []" "sends_of h (Sys c r) = []" "\<not> ends_of h (Sys c r)"
    "works_on c \<noteq> Some (-1) \<Longrightarrow> lawful h (Sys c r)" "read_end r = Some TemporaryFailure \<Longrightarrow> lawful h (Sys c r)"
  using assms by (cases c; simp)+

lemma lawful_end: "h \<noteq> -1 \<Longrightarrow> works_on c = Some h \<Longrightarrow> interrupted r \<or> read_end r \<noteq> None \<Longrightarrow> lawful h (Sys c r)"
  by (cases c) auto

lemma inner_event:
  assumes "\<And>c r. e \<noteq> Sys c r"
  shows "packets_of h e = []" "sends_of h e = []" "\<not> ends_of h e" "lawful h e"
  using assms by (cases e; simp)+

lemma refused_read_end: "blocks r \<or> resets r \<Longrightarrow> read_end r \<noteq> None \<and> r_rc r < 0"
  by (auto simp: blocks_def resets_def read_end_def)

text \<open>One event: nothing moves, a packet is received, a packet is sent, or the end is closed.\<close>

lemma end_step_effect:
  assumes "end_step cap f h K x e K'" "says f h e" "\<forall>p \<in> set (kn_queue K x). good_packet p" "h \<noteq> -1"
  obtains
    (stay) "K' = K" "packets_of h e = []" "sends_of h e = []" "lawful h e"
      "ends_of h e \<Longrightarrow> \<not> kn_closed K x \<and> kn_closed K (peer x) \<and> kn_queue K x = []"
  | (receive) p ps where "kn_queue K x = p # ps" "K' = K\<lparr>kn_queue := (kn_queue K)(x := ps)\<rparr>"
      "packets_of h e = [p]" "sends_of h e = []" "lawful h e" "\<not> ends_of h e"
  | (send) pc p where "\<not> kn_closed K x" "\<not> kn_closed K (peer x)" "K' = K\<lparr>kn_queue := (kn_queue K)(peer x := kn_queue K (peer x) @ [p])\<rparr>"
      "packets_of h e = []" "sends_of h e = [pc]" "conveys f pc p" "lawful h e" "\<not> ends_of h e"
  | (shut) "K' = K\<lparr>kn_closed := (kn_closed K)(x := True), kn_queue := (kn_queue K)(x := [])\<rparr>"
      "packets_of h e = []" "sends_of h e = []" "lawful h e" "\<not> ends_of h e"
  using assms(1)
proof (cases rule: end_step.cases)
  case (ours c r)
  note refused = failed_call [of r h c]
  have law: "r_rc r < 0 \<and> (interrupted r \<or> read_end r \<noteq> None) \<Longrightarrow> lawful h e \<and> packets_of h e = [] \<and>
      sends_of h e = [] \<and> \<not> ends_of h e"
    unfolding ours(1) using lawful_end [OF assms(4) ours(2)] refused by blast
  from ours(4) show ?thesis
  proof (cases rule: kernel_step.cases)
    case interrupt
    with law show ?thesis by (intro stay) (auto simp: interrupted_def)
  next
    case (deliver ps k n m)
    then have "good_packet r" using assms(3) by simp
    moreover from this have "0 < r_rc r" by (auto simp: good_packet_def)
    ultimately show ?thesis using deliver ours assms(4) by (intro receive [of r ps]) simp_all
  next
    case (empty k n m)
    with law refused_read_end [of r] show ?thesis by (intro stay) auto
  next
    case (eof k n m)
    with ours assms(4) show ?thesis by (intro stay) (simp_all add: read_end_def)
  next
    case (accept payload control p k)
    then have k: "k = h" using ours(2) by simp
    with assms(2) accept(1) ours(1) obtain m where "sendable f m" "payload = Message_data m"
      "control = attachment_control (m_attachments m)" by auto
    with carries_conveys accept have "conveys f (payload, control) p" by simp
    with accept k ours show ?thesis by (intro send [of p "(payload, control)"]) simp_all
  next
    case (full payload control k)
    with law refused_read_end [of r] show ?thesis by (intro stay) auto
  next
    case (broken payload control k)
    with law show ?thesis by (intro stay) (auto simp: read_end_def)
  next
    case (reset_read k n m)
    with law refused_read_end [of r] show ?thesis by (intro stay) auto
  next
    case (reset_write payload control k)
    with law refused_read_end [of r] show ?thesis by (intro stay) auto
  next
    case (writable k)
    with ours show ?thesis by (intro stay) simp_all
  next
    case (shut k)
    with ours show ?thesis by (intro that(4)) simp_all
  qed
next
  case (ebadf c r)
  have "works_on c \<noteq> Some h" using ebadf(3) assms(4) by simp
  from other_call [OF this, of r] ebadf show ?thesis by (intro stay) (simp_all add: read_end_def)
next
  case (other c r)
  from other_call [OF other(3), of r] other show ?thesis by (intro stay) simp_all
next
  case inner
  from inner_event [OF inner(2)] inner(1) show ?thesis by (intro stay) simp_all
qed

text \<open>
  The flow from \<open>x\<close> to its peer: what was taken of \<open>x\<close> has been received, waits in the queue, or is lost
  because the peer closed before it had read everything.
\<close>

definition flows :: "(handle \<Rightarrow> handle) \<Rightarrow> (side \<Rightarrow> handle) \<Rightarrow> (side \<times> event) list \<Rightarrow> kernel \<Rightarrow> side \<Rightarrow> bool" where
  "flows f h es K x \<longleftrightarrow>
     (\<forall>p \<in> set (kn_queue K (peer x)). good_packet p) \<and>
     (\<exists>lost. list_all2 (conveys f) (said (h x) (of_side x es))
          (received (h (peer x)) (of_side (peer x) es) @ kn_queue K (peer x) @ lost) \<and>
        (lost = [] \<or> kn_closed K (peer x) \<and> \<not> told (h (peer x)) (of_side (peer x) es))) \<and>
     (told (h (peer x)) (of_side (peer x) es) \<longrightarrow> kn_closed K x \<and> kn_queue K (peer x) = [])"

lemma told_simps [simp]: "\<not> told h []" "told h (es @ es') \<longleftrightarrow> told h es \<or> told h es'" "told h (e # es) \<longleftrightarrow> ends_of h e \<or> told h es"
  by (simp_all add: told_def)

lemma list_all2_snoc_more: "list_all2 R xs (ys @ zs) \<Longrightarrow> R x y \<Longrightarrow> list_all2 R (xs @ [x]) (ys @ zs @ [y])"
  using list_all2_appendI [of R xs "ys @ zs" "[x]" "[y]"] by simp

lemma conveys_good: "conveys f pc p \<Longrightarrow> good_packet p"
  by (simp add: conveys_def)

lemma flows_step:
  assumes "\<And>x. flows f h es K x" "end_step cap f (h z) K z e K'" "says f (h z) e" "h z \<noteq> -1"
  shows "flows f h (es @ [(z, e)]) K' x \<and> lawful (h z) e"
proof -
  have "\<forall>p \<in> set (kn_queue K z). good_packet p" using assms(1) [of "peer z"] by (simp add: flows_def)
  from assms(2,3) this assms(4) show ?thesis
  proof (cases rule: end_step_effect)
    case stay
    with assms(1) [of x] show ?thesis
      by (cases x z rule: side_cases) (auto simp: flows_def)
  next
    case (receive p ps)
    with assms(1) [of x] show ?thesis
      by (cases x z rule: side_cases) (auto simp: flows_def)
  next
    case (send pc p)
    with assms(1) [of x] show ?thesis
      by (cases x z rule: side_cases) (auto simp: flows_def dest: conveys_good intro: list_all2_snoc_more)
  next
    case shut
    show ?thesis
    proof (cases x z rule: side_cases)
      case 1
      with shut assms(1) [of x] show ?thesis by (auto simp: flows_def)
    next
      case 2
      from assms(1) [of x] obtain lost where lost: "list_all2 (conveys f) (said (h x) (of_side x es))
          (received (h z) (of_side z es) @ kn_queue K z @ lost)"
        "lost = [] \<or> kn_closed K z \<and> \<not> told (h z) (of_side z es)"
        "told (h z) (of_side z es) \<longrightarrow> kn_closed K x \<and> kn_queue K z = []"
        using 2 by (auto simp: flows_def)
      then show ?thesis
        using 2 shut by (auto simp: flows_def intro!: exI [of _ "kn_queue K z @ lost"])
    qed
  qed
qed

lemma joint_flows:
  assumes "joint cap f h K es K'" "\<And>x. flows f h before K x" "\<And>x e. (x, e) \<in> set es \<Longrightarrow> says f (h x) e" "\<And>x. h x \<noteq> -1"
  shows "flows f h (before @ es) K' x \<and> (\<forall>(x, e) \<in> set es. lawful (h x) e)"
  using assms(1-3)
proof (induction arbitrary: before rule: joint.induct)
  case (over K)
  then show ?case by simp
next
  case (event z K e K1 es K')
  have first: "flows f h (before @ [(z, e)]) K1 y \<and> lawful (h z) e" for y
    by (rule flows_step [where h = h, OF event.prems(1) event.hyps(1)]) (use event.prems(2) assms(4) in simp_all)
  with event.IH [of "before @ [(z, e)]"] event.prems(2) show ?case by simp
qed

section \<open>The parties\<close>

text \<open>A process: its thread with the looper, its code, the descriptor and identity of its channel, and the callback.\<close>

record party =
  pa_platform :: platform
  pa_code :: user_code
  pa_client :: client
  pa_handle :: handle
  pa_channel :: nat
  pa_callback :: nat
  pa_thread :: thread
  pa_os :: os

definition party_ok :: "(handle \<Rightarrow> handle) \<Rightarrow> party \<Rightarrow> bool" where
  "party_ok f P \<longleftrightarrow>
     pa_handle P \<noteq> -1 \<and> (\<forall>k. os_malloc (pa_os P) k) \<and> os_trace (pa_os P) = [] \<and>
     tends (pa_handle P) (pa_callback P) (pa_channel P) (pa_thread P) \<and>
     courteous f (pa_handle P) (pa_callback P) (pa_channel P) (pa_code P) (pa_client P)"

definition talks :: "party \<Rightarrow> turn list \<Rightarrow> thread outcome" where
  "talks P k = talk (pa_platform P) (pa_code P) (pa_client P) (pa_channel P) k (pa_thread P) (pa_os P)"

definition trace_of :: "'a outcome \<Rightarrow> event list" where
  "trace_of r = os_trace (outcome_world r)"

lemma talks_hears:
  assumes "party_ok f P" "\<forall>m. Say m \<in> set k \<longrightarrow> sendable f m"
  shows "\<forall>e \<in> set (trace_of (talks P k)). says f (pa_handle P) e"
    "\<forall>e \<in> set (trace_of (talks P k)). lawful (pa_handle P) e \<Longrightarrow>
       \<exists>hand. map (hearing (pa_callback P)) (received (pa_handle P) (trace_of (talks P k))) =
           heard (pa_callback P) (trace_of (talks P k)) @ hand \<and> (between (talks P k) \<longrightarrow> hand = [])"
proof -
  have "hears_all f (pa_handle P) (pa_callback P) (pa_os P) (talks P k)"
    unfolding talks_def
    by (rule attentiveD(1) [OF talk_attentive [where f = f]]) (use assms in \<open>auto simp: party_ok_def\<close>)
  moreover have "os_trace (pa_os P) = []" using assms(1) by (simp add: party_ok_def)
  ultimately show "\<forall>e \<in> set (trace_of (talks P k)). says f (pa_handle P) e"
    "\<forall>e \<in> set (trace_of (talks P k)). lawful (pa_handle P) e \<Longrightarrow>
       \<exists>hand. map (hearing (pa_callback P)) (received (pa_handle P) (trace_of (talks P k))) =
           heard (pa_callback P) (trace_of (talks P k)) @ hand \<and> (between (talks P k) \<longrightarrow> hand = [])"
    by (auto simp: hears_all_def trace_of_def)
qed

text \<open>Two parties whose runs the kernel saw interleaved as \<open>es\<close>.\<close>

definition conversation :: "nat \<Rightarrow> (handle \<Rightarrow> handle) \<Rightarrow> (side \<Rightarrow> party) \<Rightarrow> (side \<Rightarrow> turn list) \<Rightarrow>
    (side \<times> event) list \<Rightarrow> kernel \<Rightarrow> bool" where
  "conversation cap f P k es K \<longleftrightarrow>
     (\<forall>x. party_ok f (P x) \<and> (\<forall>m. Say m \<in> set (k x) \<longrightarrow> sendable f m) \<and>
        of_side x es = trace_of (talks (P x) (k x))) \<and>
     joint cap f (\<lambda>x. pa_handle (P x)) fresh_pair es K"

section \<open>What a send tells\<close>

text \<open>A kernel that takes a message whole or not at all.\<close>

fun whole :: "handle \<Rightarrow> event \<Rightarrow> bool" where
  "whole h (Sys (Sendmsg k payload control) r) \<longleftrightarrow> (k = h \<longrightarrow> r_rc r = -1 \<or> r_rc r = int (length payload))"
| "whole h e \<longleftrightarrow> True"

lemma said_map: "said h (map (Sys (Sendmsg h payload control)) rs) =
    replicate (length (filter (\<lambda>r. r_rc r = int (length payload)) rs)) (payload, control)"
  by (induction rs) simp_all

lemma send_loop_said:
  assumes "send_loop h payload control w = Done n w'" "0 < length payload" "length payload \<le> MaxBufferSize"
  shows "\<exists>es. os_trace w' = os_trace w @ es \<and> ((\<forall>e \<in> set es. whole h e) \<longrightarrow>
    (n = -1 \<and> said h es = []) \<or> (n = int (length payload) \<and> said h es = [(payload, control)]))"
  using assms
proof (induction h payload control w rule: send_loop.induct)
  case (1 h payload control w)
  let ?c = "Sendmsg h payload control"
  from "1.prems"(1) obtain r w1 where call: "CL_TEMP_FAILURE_RETRY ?c w = Done r w1"
    by (subst (asm) send_loop.simps) (auto elim: bind_out_DoneE)
  then obtain js where js: "\<forall>i \<in> set js. interrupted i" "w1 = answered ?c (js @ [r]) w" by (rule retry_DoneE)
  let ?es = "map (Sys ?c) (js @ [r])"
  have "filter (\<lambda>r. r_rc r = int (length payload)) js = []"
    using js(1) by (auto simp: filter_empty_conv interrupted_def)
  then have said: "said h ?es = (if r_rc r = int (length payload) then [(payload, control)] else [])" by (simp add: said_map)
  have len: "to_int (int (length payload)) = int (length payload)"
    using "1.prems"(3) by (intro to_int_small) (simp_all add: MaxBufferSize_def)
  have law: "\<forall>e \<in> set ?es. whole h e \<Longrightarrow> r_rc r = -1 \<or> r_rc r = int (length payload)" by simp
  show ?case
  proof (cases "to_int (r_rc r) = -1 \<and> (os_errno w1 = EAGAIN \<or> os_errno w1 = EWOULDBLOCK)")
    case False
    with "1.prems"(1) call have "n = to_int (r_rc r)" "w' = w1" by (auto simp: send_loop.simps [of h payload control w] Let_def split: if_splits)
    with said len law js(2) show ?thesis by (intro exI [of _ ?es]) auto
  next
    case True
    with "1.prems"(1) call obtain q w2 where poll: "CL_TEMP_FAILURE_RETRY (PollOut h) w1 = Done q w2"
      and ok: "CL_ASSERT (to_int (r_rc q) = 1) w2 = Done () w2" and rest: "send_loop h payload control w2 = Done n w'"
      by (auto simp: send_loop.simps [of h payload control w] Let_def bind_out_Done_iff CL_ASSERT_Done)
    from "1.IH" [OF call refl True poll ok rest "1.prems"(2,3)] obtain es where es: "os_trace w' = os_trace w2 @ es"
      "(\<forall>e \<in> set es. whole h e) \<longrightarrow>
        (n = -1 \<and> said h es = []) \<or> (n = int (length payload) \<and> said h es = [(payload, control)])" by blast
    obtain ks where ks: "w2 = answered (PollOut h) (ks @ [q]) w1" using poll by (rule retry_DoneE)
    have "said h (map (Sys (PollOut h)) (ks @ [q])) = []" by (simp add: said_def)
    moreover have "r_rc r \<noteq> int (length payload)" using True len by auto
    ultimately show ?thesis
      using es said js(2) ks by (intro exI [of _ "?es @ map (Sys (PollOut h)) (ks @ [q]) @ es"]) auto
  qed
qed

lemma terminate_says_nothing:
  assumes "\<And>k cx. forward (\<lambda>e. sends_of h e = []) (cb_terminate cb k cx)"
  shows "forward (\<lambda>e. sends_of h e = []) (Channel_terminate cb cx)"
  unfolding Channel_terminate_def Socket_close_def Let_def by (intro forward_intros assms; simp)

lemma size_of_result:
  assumes "0 < unat k" "unat k \<le> MaxBufferSize"
  shows "int_to_size (-1) \<noteq> k" "int_to_size (int (unat k)) = k"
proof -
  show "int_to_size (-1) \<noteq> k"
  proof
    assume "int_to_size (-1) = k"
    then have "k = -1" by (simp add: int_to_size_def)
    with assms(2) show False by (simp add: MaxBufferSize_def unsigned_minus_1_eq_mask mask_eq_exp_minus_1)
  qed
qed (simp add: int_to_size_def)

section \<open>A turn of a loop\<close>

text \<open>An open channel with both callbacks, and callbacks that return at once.\<close>

definition listens :: "handle \<Rightarrow> nat \<Rightarrow> nat \<Rightarrow> channel \<Rightarrow> bool" where
  "listens h g t c \<longleftrightarrow> sk_handle (ch_socket c) = h \<and> h \<noteq> -1 \<and> socket_ready (ch_socket c) \<and> \<not> lk_locked (sk_lock (ch_socket c)) \<and>
     ch_messageReceivedCallback c = Some g \<and> ch_terminationCallback c = Some t"

definition silent :: "nat \<Rightarrow> nat \<Rightarrow> thread callbacks \<Rightarrow> bool" where
  "silent g t cb \<longleftrightarrow> (\<forall>m cx w. cb_message cb g m cx w = Done cx w) \<and> (\<forall>cx w. cb_terminate cb t cx w = Done cx w)"

lemma silent_stops: "silent g t cb \<Longrightarrow> stops_on (\<lambda>_. False) g t cb"
  by (simp add: silent_def stops_on_def)

lemma silent_read:
  assumes "listens h g t c" "silent g t cb" "os_script w = ps @ e # rest" "\<forall>q \<in> set ps. good_packet q"
    "read_end e = Some st" "\<forall>k. os_malloc w k"
  obtains s w' where "\<And>k. Channel_readMessageOnHandle cb k (c, ts) w =
      (if st = PermanentFailure then Channel_terminate cb (c\<lparr>ch_socket := s\<rparr>, ts) w' else Done (c\<lparr>ch_socket := s\<rparr>, ts) w')"
    "sk_handle s = h" "os_script w' = rest"
    "os_trace w' = os_trace w @ map (Sys (Recvmsg h MaxBufferSize MaxControlBufferSize)) (ps @ [e]) @ map (hearing g) ps"
proof -
  have rounds: "rounds (map (Pair []) ps) = ps" by (simp add: rounds_def comp_def)
  have script: "os_script w = rounds (map (Pair []) ps) @ [] @ e # rest" using assms(3) rounds by simp
  obtain s w1 where rd: "Socket_ReadMessages (ch_socket c) w = Done ((st, map (\<lambda>(_, p). packet_message p) (map (Pair []) ps)), s) w1"
    "sk_handle s = sk_handle (ch_socket c)" "os_script w1 = rest"
    "os_trace w1 = os_trace w @ map (Sys (recv_call (ch_socket c))) (rounds (map (Pair []) ps) @ [] @ [e])"
    by (rule ReadMessages_drains [OF script _ _ assms(5)]) (use assms in \<open>auto simp: good_rounds_def listens_def\<close>)
  let ?c = "c\<lparr>ch_socket := s\<rparr>" and ?ms = "map packet_message ps"
  let ?w = "w1\<lparr>os_trace := os_trace w1 @ map (delivery g) ?ms\<rparr>"
  have cb: "ch_messageReceivedCallback ?c = Some g" using assms(1) by (simp add: listens_def)
  have "dispatch_messages cb ?ms (?c, ts) w1 = Done (?c, ts) ?w"
    by (rule dispatch_messages_quiet [OF cb silent_stops [OF assms(2)]]) simp
  with rd(1) cb have "Channel_readMessageOnHandle cb k (c, ts) w =
      (if st = PermanentFailure then Channel_terminate cb (?c, ts) ?w else Done (?c, ts) ?w)" for k
    by (simp add: Channel_readMessageOnHandle_def comp_def)
  with rd assms(1) rounds show ?thesis
    by (intro that [of s ?w]) (simp_all add: listens_def recv_call_def hearing_def [abs_def] comp_def)
qed

text \<open>One report of the channel's source, and the whole reading that follows.\<close>

lemma silent_turn:
  assumes "channel_at p cid c ts" "listens h g t c" "silent g t (cl_callbacks cl)"
    "os_script w = report p # ps @ e # rest" "\<forall>q \<in> set ps. good_packet q" "\<forall>k. os_malloc w k"
    "\<not> lp_shouldTerminate (ts_looper ts)"
    "read_end e = Some Success \<and> fin = [] \<or>
     read_end e = Some PermanentFailure \<and> rest = [z] \<and> r_rc z = 0 \<and> fin = [Sys (Close h) z, Terminated t]"
  shows "\<exists>w'. Looper_while pf u (library_handlers cl) 1 ts w = Fail OutOfFuel w' \<and>
    os_trace w' = os_trace w @ Sys (wait_call_of pf ts) (report p) #
      map (Sys (Recvmsg h MaxBufferSize MaxControlBufferSize)) (ps @ [e]) @ map (hearing g) ps @ fin"
proof -
  let ?w1 = "answered (wait_call_of pf ts) ([] @ [report p]) w"
  have wait: "WaitSet_wait pf (lp_waitSet (ts_looper ts)) w = Done p ?w1"
    using WaitSet_wait_report [of w "[]" "report p" "ps @ e # rest"] assms(4) by (simp add: report_def)
  obtain st where st: "read_end e = Some st" "st = Success \<or> st = PermanentFailure" using assms(8) by auto
  obtain s w2 where rd: "\<And>k. Channel_readMessageOnHandle (cl_callbacks cl) k (c, ts) ?w1 =
      (if st = PermanentFailure then Channel_terminate (cl_callbacks cl) (c\<lparr>ch_socket := s\<rparr>, ts) w2 else Done (c\<lparr>ch_socket := s\<rparr>, ts) w2)"
    "sk_handle s = h" "os_script w2 = rest"
    "os_trace w2 = os_trace ?w1 @ map (Sys (Recvmsg h MaxBufferSize MaxControlBufferSize)) (ps @ [e]) @ map (hearing g) ps"
    by (rule silent_read [OF assms(2,3) _ assms(5) st(1), of ?w1 rest ts]) (use assms(4,6) in simp_all)
  have "\<exists>c' w'. (if st = PermanentFailure then Channel_terminate (cl_callbacks cl) (c\<lparr>ch_socket := s\<rparr>, ts) w2 else Done (c\<lparr>ch_socket := s\<rparr>, ts) w2) =
      Done (c', ts) w' \<and> os_trace w' = os_trace w2 @ fin"
  proof (cases "st = PermanentFailure")
    case False
    with assms(8) st show ?thesis by auto
  next
    case True
    with assms(8) st(1) have z: "os_script w2 = z # []" "r_rc z = 0" "fin = [Sys (Close h) z, Terminated t]" using rd(3) by auto
    have "sk_handle (ch_socket (c\<lparr>ch_socket := s\<rparr>)) \<noteq> -1" "ch_terminationCallback (c\<lparr>ch_socket := s\<rparr>) = Some t"
      using assms(2) rd(2) by (simp_all add: listens_def)
    from terminate_evaluated [OF this silent_stops [OF assms(3)] z(1,2)] True z(3) rd(2) show ?thesis by simp
  qed
  then obtain c' w' where "\<And>k. Channel_readMessageOnHandle (cl_callbacks cl) k (c, ts) ?w1 = Done (c', ts) w'"
    "os_trace w' = os_trace w2 @ fin" using rd(1) by metis
  with dispatch_channel [OF assms(1) this(1)] wait assms(7) rd(4) show ?thesis by simp
qed

lemma wait_call_works_on: "works_on (wait_call_of pf ts) = None"
  by (cases pf) (simp_all add: wait_call_of_def)

lemma told_events:
  "\<forall>e \<in> set (map (hearing g) qs). \<forall>c r. e \<noteq> Sys c r" "heard g (map (hearing g) qs) = map (hearing g) qs"
  "heard g (map (Sys c) rs) = []" "count_list (map (hearing g) qs) (Terminated t) = 0" "count_list (map (Sys c) rs) (Terminated t) = 0"
  by (auto simp: heard_def hearing_def delivery_def comp_def intro!: count_notin)

text \<open>What the kernel makes of such a turn, while the peer is there and after it has gone.\<close>

lemma turn_joint_open:
  assumes "\<not> kn_closed K x" "\<not> kn_closed K (peer x)" "blocks e"
  shows "joint cap f hs K (map (Pair x) (Sys (wait_call_of pf ts) r #
      map (Sys (Recvmsg (hs x) n k)) (kn_queue K x @ [e]) @ map (hearing g) (kn_queue K x)))
    (K\<lparr>kn_queue := (kn_queue K)(x := [])\<rparr>)"
proof -
  let ?D = "K\<lparr>kn_queue := (kn_queue K)(x := [])\<rparr>"
  note told = joint_inners [OF told_events(1) [of g "kn_queue K x"] joint.over [of cap f hs ?D], of x]
  have "joint cap f hs ?D ((x, Sys (Recvmsg (hs x) n k) e) # map (Pair x) (map (hearing g) (kn_queue K x)) @ []) ?D"
    by (rule joint_empty [OF _ _ _ assms(3) told]) (use assms in simp_all)
  from joint_other [OF wait_call_works_on joint_drain [OF refl assms(1) this]] show ?thesis by (simp add: comp_def)
qed

lemma turn_joint_gone:
  assumes "\<not> kn_closed K x" "kn_closed K (peer x)" "r_rc e = 0" "r_rc z = 0"
  shows "joint cap f hs K (map (Pair x) (Sys (wait_call_of pf ts) r #
      map (Sys (Recvmsg (hs x) n k)) (kn_queue K x @ [e]) @ map (hearing g) (kn_queue K x) @ [Sys (Close (hs x)) z, Terminated t]))
    (K\<lparr>kn_closed := (kn_closed K)(x := True), kn_queue := (kn_queue K)(x := [])\<rparr>)"
proof -
  let ?D = "K\<lparr>kn_queue := (kn_queue K)(x := [])\<rparr>" and ?fin = "[Sys (Close (hs x)) z, Terminated t]"
  let ?S = "?D\<lparr>kn_closed := (kn_closed ?D)(x := True), kn_queue := (kn_queue ?D)(x := [])\<rparr>"
  have "joint cap f hs ?S (map (Pair x) [Terminated t] @ []) ?S" by (intro joint_inners joint.over) simp
  from joint_shut [of ?D x z cap f hs, OF _ _ this] have "joint cap f hs ?D (map (Pair x) ?fin) ?S"
    using assms by simp
  note told = joint_inners [OF told_events(1) [of g "kn_queue K x"] this, of x]
  have "joint cap f hs ?D ((x, Sys (Recvmsg (hs x) n k) e) # map (Pair x) (map (hearing g) (kn_queue K x)) @ map (Pair x) ?fin) ?S"
    by (rule joint_eof [OF _ _ _ assms(3) told]) (use assms in simp_all)
  from joint_other [OF wait_call_works_on joint_drain [OF refl assms(1) this]] show ?thesis by (simp add: comp_def)
qed

section \<open>Properties\<close>

text \<open>
  C2: Two loopers hold a conversation. Each side sends, runs its loop and hangs up as it likes, its
  callbacks may themselves send, its loop serves other channels, timers and sources of the client
  as well (but no server), and the kernel sees the system calls of both in any interleaving. The
  messages are sendable: not empty, at most 4096 bytes, at most one descriptor. What was taken of the sends of one side is then, in
  order, each message once and with its bytes and translated descriptors: what the callback of the
  other side has heard, what that side has in hand, what waits in the kernel, and what was lost
  because that side closed. Between two turns nothing is in hand, and a side that was told that
  its peer is gone has lost nothing.
\<close>

theorem Program_conversation:
  assumes "conversation cap f P k es K"
  shows "\<exists>hand lost.
    map (announced f (pa_callback (P (peer x)))) (said (pa_handle (P x)) (trace_of (talks (P x) (k x)))) =
      heard (pa_callback (P (peer x))) (trace_of (talks (P (peer x)) (k (peer x)))) @ hand @
      map (hearing (pa_callback (P (peer x)))) (kn_queue K (peer x)) @ lost \<and>
    (between (talks (P (peer x)) (k (peer x))) \<longrightarrow> hand = []) \<and>
    (lost = [] \<or> kn_closed K (peer x)) \<and>
    (told (pa_handle (P (peer x))) (trace_of (talks (P (peer x)) (k (peer x)))) \<longrightarrow>
      kn_closed K x \<and> kn_queue K (peer x) = [] \<and> lost = [])"
proof -
  let ?h = "\<lambda>x. pa_handle (P x)" and ?t = "\<lambda>x. trace_of (talks (P x) (k x))" and ?g = "pa_callback (P (peer x))"
  have P: "party_ok f (P x)" "\<forall>m. Say m \<in> set (k x) \<longrightarrow> sendable f m" "of_side x es = ?t x" for x
    using assms by (simp_all add: conversation_def)
  have mem: "e \<in> set (?t x) \<longleftrightarrow> (x, e) \<in> set es" for x e
    unfolding P(3) [symmetric] by (force simp: of_side_def)
  have "flows f ?h ([] @ es) K x \<and> (\<forall>(x, e) \<in> set es. lawful (?h x) e)"
  proof (rule joint_flows)
    show "joint cap f ?h fresh_pair es K" using assms by (simp add: conversation_def)
    show "flows f ?h [] fresh_pair x" for x by (simp add: flows_def fresh_pair_def)
    show "says f (?h x) e" if "(x, e) \<in> set es" for x e
      using talks_hears(1) [OF P(1,2)] that mem by blast
    show "?h x \<noteq> -1" for x using P(1) by (simp add: party_ok_def)
  qed
  then have "flows f ?h es K x" "\<forall>e \<in> set (?t y). lawful (?h y) e" for y using mem by auto
  with talks_hears(2) [OF P(1,2), of "peer x"] P(3) obtain hand lost where
    hand: "map (hearing ?g) (received (?h (peer x)) (?t (peer x))) = heard ?g (?t (peer x)) @ hand"
      "between (talks (P (peer x)) (k (peer x))) \<longrightarrow> hand = []" and
    lost: "list_all2 (conveys f) (said (?h x) (?t x)) (received (?h (peer x)) (?t (peer x)) @ kn_queue K (peer x) @ lost)"
      "lost = [] \<or> kn_closed K (peer x) \<and> \<not> told (?h (peer x)) (?t (peer x))"
      "told (?h (peer x)) (?t (peer x)) \<longrightarrow> kn_closed K x \<and> kn_queue K (peer x) = []"
    unfolding flows_def by metis
  have "map (announced f g) pcs = map (hearing g) ps" if "list_all2 (conveys f) pcs ps" for g pcs ps
    using that by (induction rule: list_all2_induct) (simp_all add: conveys_def)
  from this [OF lost(1), of ?g] hand lost(2,3) show ?thesis
    by (intro exI [of _ hand] exI [of _ "map (hearing ?g) lost"]) auto
qed

text \<open>
  C16: A loop catches up. Whenever there is something to read on an open channel, messages or the end
  of the stream, the kernel can answer one iteration of the loop so that the callback hears
  everything that waits, in order, and nothing waits any more. If the peer has closed, the same
  iteration closes the channel and invokes the termination callback, once.
\<close>

theorem Looper_catches_up:
  assumes "channel_at p cid c ts" "listens h g t c" "silent g t (cl_callbacks cl)" "\<not> lp_shouldTerminate (ts_looper ts)"
    "\<forall>k. os_malloc w k" "hs x = h" "\<not> kn_closed K x" "\<forall>q \<in> set (kn_queue K x). good_packet q"
    "kn_queue K x \<noteq> [] \<or> kn_closed K (peer x)"
  shows "\<exists>answers w' es K'.
    Looper_while pf u (library_handlers cl) 1 ts (w\<lparr>os_script := answers\<rparr>) = Fail OutOfFuel w' \<and>
    os_trace w' = os_trace w @ es \<and> joint cap f hs K (map (Pair x) es) K' \<and>
    kn_queue K' x = [] \<and> heard g es = map (hearing g) (kn_queue K x) \<and>
    (kn_closed K' x \<longleftrightarrow> kn_closed K (peer x)) \<and> count_list es (Terminated t) = (if kn_closed K (peer x) then 1 else 0)"
proof -
  let ?q = "kn_queue K x" and ?W = "Looper_while pf u (library_handlers cl) 1 ts"
  let ?es = "\<lambda>e fin. Sys (wait_call_of pf ts) (report p) # map (Sys (Recvmsg h MaxBufferSize MaxControlBufferSize)) (?q @ [e]) @
    map (hearing g) ?q @ fin"
  show ?thesis
  proof (cases "kn_closed K (peer x)")
    case False
    let ?e = "reply (-1) EAGAIN" and ?K = "K\<lparr>kn_queue := (kn_queue K)(x := [])\<rparr>"
    let ?w = "w\<lparr>os_script := report p # ?q @ ?e # []\<rparr>"
    have "\<exists>w'. ?W ?w = Fail OutOfFuel w' \<and> os_trace w' = os_trace ?w @ ?es ?e []"
      by (rule silent_turn [OF assms(1-3)]) (use assms(4,5,8) in \<open>simp_all add: read_end_def\<close>)
    then obtain w' where "?W ?w = Fail OutOfFuel w'" "os_trace w' = os_trace w @ ?es ?e []" by auto
    moreover have "joint cap f hs K (map (Pair x) (?es ?e [])) ?K"
      using turn_joint_open [OF assms(7) False, of ?e cap f hs pf ts "report p" MaxBufferSize MaxControlBufferSize g] assms(6) by (simp add: blocks_def)
    ultimately show ?thesis using assms(7) False
      by (intro exI [of _ "report p # ?q @ ?e # []"] exI [of _ w'] exI [of _ "?es ?e []"] exI [of _ ?K]) (simp add: told_events)
  next
    case True
    let ?e = "reply 0 ENONE" and ?fin = "[Sys (Close h) (reply 0 ENONE), Terminated t]"
    let ?K = "K\<lparr>kn_closed := (kn_closed K)(x := True), kn_queue := (kn_queue K)(x := [])\<rparr>"
    let ?w = "w\<lparr>os_script := report p # ?q @ ?e # [?e]\<rparr>"
    have "\<exists>w'. ?W ?w = Fail OutOfFuel w' \<and> os_trace w' = os_trace ?w @ ?es ?e ?fin"
      by (rule silent_turn [OF assms(1-3), of _ _ _ "[?e]" _ ?e]) (use assms(4,5,8) in \<open>simp_all add: read_end_def\<close>)
    then obtain w' where "?W ?w = Fail OutOfFuel w'" "os_trace w' = os_trace w @ ?es ?e ?fin" by auto
    moreover have "joint cap f hs K (map (Pair x) (?es ?e ?fin)) ?K"
      using turn_joint_gone [OF assms(7) True, of ?e ?e cap f hs pf ts "report p" MaxBufferSize MaxControlBufferSize g t] assms(6) by simp
    ultimately show ?thesis using True
      by (intro exI [of _ "report p # ?q @ ?e # [?e]"] exI [of _ w'] exI [of _ "?es ?e ?fin"] exI [of _ ?K]) (simp add: told_events)
  qed
qed

text \<open>
  C30: The result of a send is the truth. Against a kernel that takes a message whole or not at all,
  \<^verbatim>\<open>sendMessage\<close> returns true iff the kernel has taken the message, once and with all its bytes and
  descriptors, and false iff it has taken nothing, through any interruptions and full queues, and
  also when it finds the peer gone and terminates the channel.
\<close>

theorem Channel_sendMessage_said:
  assumes "Channel_sendMessage cb m (c, x) w = Done (b, cx') w'" "sendable f m" "sk_handle (ch_socket c) = h"
    "\<And>k cx. forward (\<lambda>e. sends_of h e = []) (cb_terminate cb k cx)"
  shows "\<exists>es. os_trace w' = os_trace w @ es \<and> ((\<forall>e \<in> set es. whole h e) \<longrightarrow>
    said h es = (if b then [(Message_data m, attachment_control (m_attachments m))] else []))"
proof -
  let ?d = "Message_data m" and ?k = "attachment_control (m_attachments m)"
  have len: "length ?d = unat (Message_size m)" "0 < length ?d" "length ?d \<le> MaxBufferSize"
    using assms(2) length_Message_data by (auto simp: sendable_def Message_size_def)
  obtain st s w1 where wr: "Socket_WriteMessage m (ch_socket c) w = Done (st, s) w1"
    and rest: "(if st = PermanentFailure
      then bind_out (Channel_terminate cb (c\<lparr>ch_socket := s\<rparr>, x) w1) (\<lambda>cx. Done (False, cx))
      else Done (st = Success, c\<lparr>ch_socket := s\<rparr>, x) w1) = Done (b, cx') w'"
    using assms(1) by (auto simp: Channel_sendMessage_def bind_out_Done_iff CL_ASSERT_Done Let_def returnM_eta
        split: if_splits)
  obtain n where n: "send_loop h ?d ?k w = Done n w1" "st = Success \<longleftrightarrow> int_to_size n = Message_size m"
    using wr assms(3) len(1,3)
    by (auto simp: Socket_WriteMessage_def write_body_def bind_out_Done_iff word_less_nat_alt MaxBufferSize_def
        elim!: with_AutoLock_Done split: if_splits)
  from send_loop_said [OF n(1) len(2,3)] obtain es where es: "os_trace w1 = os_trace w @ es"
    "(\<forall>e \<in> set es. whole h e) \<longrightarrow> (n = -1 \<and> said h es = []) \<or> (n = int (length ?d) \<and> said h es = [(?d, ?k)])"
    by blast
  then have said: "(\<forall>e \<in> set es. whole h e) \<Longrightarrow> said h es = (if st = Success then [(?d, ?k)] else [])"
    using size_of_result [of "Message_size m"] len n(2) by auto
  show ?thesis
  proof (cases "st = PermanentFailure")
    case False
    with rest es(1) said show ?thesis by (intro exI [of _ es]) auto
  next
    case True
    with rest have "\<not> b" "os_le (\<lambda>e. sends_of h e = []) w1 w'"
      using forward_Done [OF terminate_says_nothing [OF assms(4)]] by (auto simp: bind_out_Done_iff)
    then obtain es' where es': "os_trace w' = os_trace w1 @ es'" "said h es' = []"
      by (auto simp: os_le_def said_def)
    from True said \<open>\<not> b\<close> es(1) es' show ?thesis by (intro exI [of _ "es @ es'"]) auto
  qed
qed

section \<open>Examples of the properties\<close>

text \<open>
  The near end sends a message with a descriptor; the callback of the far end answers from within
  its loop; the callback of the near end then stops the loop there.
\<close>

definition silent_callbacks :: "thread callbacks" where
  "silent_callbacks = \<lparr>cb_message = (\<lambda>g m cx. returnM cx), cb_terminate = (\<lambda>g cx. returnM cx)\<rparr>"

definition answering_client :: client where
  "answering_client = program_client\<lparr>cl_callbacks := silent_callbacks\<lparr>cb_message := \<lambda>g m cx.
      bindM (Channel_sendMessage silent_callbacks (tiny_message []) cx) (\<lambda>(_, cx'). returnM cx')\<rparr>\<rparr>"

fun example_party :: "side \<Rightarrow> party" where
  "example_party Near = \<lparr>pa_platform = Linux, pa_code = no_user_code, pa_client = program_client, pa_handle = 8,
     pa_channel = 2, pa_callback = 1, pa_thread = program_thread (open_channel 8),
     pa_os = start_os False [reply 1 ENONE, report 5, tiny_reply [], reply (-1) EAGAIN]\<rparr>"
| "example_party Far = \<lparr>pa_platform = Linux, pa_code = no_user_code, pa_client = answering_client, pa_handle = 7,
     pa_channel = 2, pa_callback = 1, pa_thread = program_thread (open_channel 7),
     pa_os = start_os False [report 5, tiny_reply [4], reply (-1) EAGAIN, reply 1 ENONE]\<rparr>"

fun example_turns :: "side \<Rightarrow> turn list" where
  "example_turns Near = [Say (tiny_message [4]), Run 2]"
| "example_turns Far = [Run 1]"

lemma example_simps [simp]:
  "pa_handle (example_party Near) = 8" "pa_handle (example_party Far) = 7" "pa_callback (example_party x) = 1"
  by (simp_all, cases x, simp_all)

lemma near_trace: "trace_of (talks (example_party Near) (example_turns Near)) =
  [Sys (Sendmsg 8 [Some 65] (attachment_control [Attachment_ctor 4])) (reply 1 ENONE),
   Sys (EpollWait 3) (report 5), Sys (Recvmsg 8 MaxBufferSize MaxControlBufferSize) (tiny_reply []),
   Sys (Recvmsg 8 MaxBufferSize MaxControlBufferSize) (reply (-1) EAGAIN), MessageReceived 1 [Some 65] []]"
  by code_simp

lemma far_trace: "trace_of (talks (example_party Far) (example_turns Far)) =
  [Sys (EpollWait 3) (report 5), Sys (Recvmsg 7 MaxBufferSize MaxControlBufferSize) (tiny_reply [4]),
   Sys (Recvmsg 7 MaxBufferSize MaxControlBufferSize) (reply (-1) EAGAIN), MessageReceived 1 [Some 65] [9],
   Sys (Sendmsg 7 [Some 65] []) (reply 1 ENONE)]"
  by code_simp

declare example_party.simps [simp del] example_turns.simps [simp del]

lemma polite_Done: "I a \<Longrightarrow> polite f h g I (Done a)"
  using polite_basic(1) [of I a f h g] by (simp add: returnM_eta)

lemma example_tends: "h \<noteq> -1 \<Longrightarrow> tends h 1 2 (program_thread (open_channel h))"
  by (auto simp: tends_def own_def program_thread_def source_on_def LooperSource_AsTrivial_def LooperSource_ctor_def
      split: if_splits)

lemma tiny_sendable_any: "length hs \<le> 1 \<Longrightarrow> set hs \<subseteq> {4} \<Longrightarrow> sendable (\<lambda>_. 9) (tiny_message hs)"
  by (auto simp: sendable_def MaxBufferSize_def valid_handle_def Attachment_ctor_def intro: exI [of _ "[65]"])

lemma example_party_ok: "party_ok (\<lambda>_. 9) (example_party x)"
proof -
  have kept: "kept h g cid c (c, ts)" if "tends h g cid ts" for h g cid c ts using that by (simp add: kept_def)
  have base: "courteous f h g cid no_user_code program_client" for f h g cid
    by (auto simp: courteous_def program_client_def no_user_code_def kept_def returnM_eta intro!: polite_Done)
  have silent: "polite f h g (kept h g cid c) (Channel_terminate silent_callbacks (c, ts))"
    if "tends h g cid ts" for f h g cid c ts
  proof -
    have "courteous f h g cid no_user_code (program_client\<lparr>cl_callbacks := silent_callbacks\<rparr>)"
      using base [of f h g cid] kept by (auto simp: courteous_def silent_callbacks_def returnM_eta intro!: polite_Done)
    from terminate_polite [OF this, of "(c, ts)"] that show ?thesis by simp
  qed
  have "polite (\<lambda>_. 9) 7 1 (kept 7 1 2 c) (bindM (Channel_sendMessage silent_callbacks (tiny_message []) (c, ts)) (\<lambda>(_, cx'). returnM cx'))"
    if "tends 7 1 2 ts" for c ts
    by (rule polite_bindM [OF send_polite [OF silent]]) (use that tiny_sendable_any [of "[]"] in \<open>auto intro: polite_basic(1)\<close>)
  then have "courteous (\<lambda>_. 9) 7 1 2 no_user_code answering_client"
    using base [of "\<lambda>_. 9" 7 1 2] kept
    by (auto simp: courteous_def answering_client_def silent_callbacks_def returnM_eta intro!: polite_Done)
  with base example_tends show ?thesis by (cases x) (simp_all add: party_ok_def example_party.simps)
qed

text \<open>The order in which the kernel sees it all.\<close>

definition example_events :: "(side \<times> event) list" where
  "example_events =
     (Near, Sys (Sendmsg 8 [Some 65] (attachment_control [Attachment_ctor 4])) (reply 1 ENONE)) #
     map (Pair Far) (trace_of (talks (example_party Far) (example_turns Far))) @
     map (Pair Near) (tl (trace_of (talks (example_party Near) (example_turns Near))))"

definition holding :: "sysres list \<Rightarrow> sysres list \<Rightarrow> kernel" where
  "holding a b = \<lparr>kn_queue = case_side a b, kn_closed = (\<lambda>_. False)\<rparr>"

lemma holding_simps [simp]:
  "kn_queue (holding a b) Near = a" "kn_queue (holding a b) Far = b" "\<not> kn_closed (holding a b) x"
  "(holding a b)\<lparr>kn_queue := (kn_queue (holding a b))(Near := c)\<rparr> = holding c b"
  "(holding a b)\<lparr>kn_queue := (kn_queue (holding a b))(Far := c)\<rparr> = holding a c"
  by (auto simp: holding_def fun_eq_iff split: side.split)

lemma fresh_holding: "fresh_pair = holding [] []"
  by (auto simp: holding_def fresh_pair_def fun_eq_iff split: side.split)

lemma example_joint: "joint 4 (\<lambda>_. 9) (\<lambda>x. pa_handle (example_party x)) fresh_pair example_events fresh_pair"
proof -
  let ?h = "\<lambda>x. pa_handle (example_party x)" and ?e = "reply (-1) EAGAIN" and ?r = "reply 1 ENONE"
  let ?p = "tiny_reply [4]" and ?q = "tiny_reply []"
  note deliver = joint_deliver [where h = ?h and cap = 4 and f = "\<lambda>_. 9"]
    and empty = joint_empty [where h = ?h and cap = 4 and f = "\<lambda>_. 9" and r = ?e]
    and accept = joint_accept [where h = ?h and cap = 4 and f = "\<lambda>_. 9" and r = ?r and payload = "[Some 65]"]
  have p: "carries (\<lambda>_. 9) [Some 65] (attachment_control [Attachment_ctor 4]) ?p" "carries (\<lambda>_. 9) [Some 65] [] ?q"
    by (auto simp: carries_def tiny_reply_def packet_def attachment_control_def Attachment_ctor_def)
  have again: "blocks ?e" by (simp add: blocks_def)
  note near3 = joint_inner [OF joint.over [of 4 "\<lambda>_. 9" ?h "holding [] []"], of Near 1 "[Some 65]" "[]"]
  note near2 = empty [of _ Near, OF _ _ _ again near3, simplified]
  have near1: "joint 4 (\<lambda>_. 9) ?h (holding [?q] []) (map (Pair Near) (tl (trace_of (talks (example_party Near) (example_turns Near)))))
      (holding [] [])"
    using joint_other [OF _ deliver [of "holding [?q] []" Near ?q "[]"]] near2 by (simp add: near_trace)
  note far3 = joint_inner [OF accept [of "holding [] []" Far "[]" ?q], simplified, OF p(2) near1]
  note far2 = empty [of _ Far, OF _ _ _ again far3, simplified]
  have far1: "joint 4 (\<lambda>_. 9) ?h (holding [] [?p]) (map (Pair Far) (trace_of (talks (example_party Far) (example_turns Far))) @
      map (Pair Near) (tl (trace_of (talks (example_party Near) (example_turns Near))))) (holding [] [])"
    using joint_other [OF _ deliver [of "holding [] [?p]" Far ?p "[]"]] far2 by (simp add: far_trace)
  show ?thesis
    using accept [of "holding [] []" Near "attachment_control [Attachment_ctor 4]" ?p, OF _ _ _ p(1)] far1
    by (simp add: example_events_def fresh_holding)
qed

theorem Program_conversation_witness:
  "\<exists>es. conversation 4 (\<lambda>_. 9) example_party example_turns es fresh_pair \<and>
    map (announced (\<lambda>_. 9) 1) (said 8 (trace_of (talks (example_party Near) (example_turns Near)))) = [MessageReceived 1 [Some 65] [9]] \<and>
    heard 1 (trace_of (talks (example_party Far) (example_turns Far))) =
      map (announced (\<lambda>_. 9) 1) (said 8 (trace_of (talks (example_party Near) (example_turns Near))))"
proof -
  have sides: "of_side x example_events = trace_of (talks (example_party x) (example_turns x))" for x
    by (cases x) (simp_all add: example_events_def near_trace far_trace)
  have sendable: "sendable (\<lambda>_. 9) m" if "Say m \<in> set (example_turns x)" for m x
    using that tiny_sendable_any [of "[4]"] by (cases x) (simp_all add: example_turns.simps)
  have c: "conversation 4 (\<lambda>_. 9) example_party example_turns example_events fresh_pair"
    using sides sendable example_party_ok example_joint by (simp add: conversation_def)
  have "map (announced (\<lambda>_. 9) 1) (said 8 (trace_of (talks (example_party Near) (example_turns Near)))) = [MessageReceived 1 [Some 65] [9]]"
    by (simp add: near_trace announced_def attachment_control_def Attachment_ctor_def)
  moreover have "heard 1 (trace_of (talks (example_party Far) (example_turns Far))) = [MessageReceived 1 [Some 65] [9]]"
    by (simp add: far_trace)
  ultimately show ?thesis using c Program_conversation [OF c, of Near] by auto
qed

theorem Looper_catches_up_witness:
  "\<exists>answers w' es K'. Looper_while Linux no_user_code
      (library_handlers (program_client\<lparr>cl_callbacks := silent_callbacks\<rparr>)) 1 (program_thread (open_channel 7))
      ((start_os False [])\<lparr>os_script := answers\<rparr>) = Fail OutOfFuel w' \<and>
    os_trace w' = os_trace (start_os False []) @ es \<and>
    joint 4 (\<lambda>_. 9) (\<lambda>x. pa_handle (example_party x)) (holding [] [tiny_reply [4]]) (map (Pair Far) es) K' \<and>
    kn_queue K' Far = [] \<and> heard 1 es = map (hearing 1) (kn_queue (holding [] [tiny_reply [4]]) Far) \<and>
    (kn_closed K' Far \<longleftrightarrow> kn_closed (holding [] [tiny_reply [4]]) (peer Far)) \<and>
    count_list es (Terminated 2) = (if kn_closed (holding [] [tiny_reply [4]]) (peer Far) then 1 else 0)"
proof (rule Looper_catches_up [where p = 5 and cid = 2 and c = "open_channel 7" and h = 7])
  have "delivers (\<lambda>_. 9) (tiny_message [4]) (tiny_reply [4])" by (rule tiny_delivered)
  from delivers_good_packet(1) [OF _ this] show "\<forall>q \<in> set (kn_queue (holding [] [tiny_reply [4]]) Far). good_packet q"
    by (simp add: MaxBufferSize_def valid_handle_def)
qed (simp_all add: listens_def silent_def silent_callbacks_def)

theorem Channel_sendMessage_said_witness:
  "\<exists>w'. Channel_sendMessage quiet_callbacks (tiny_message [4]) (open_channel 8, ()) (start_os False [reply 1 ENONE]) =
      Done (True, open_channel 8, ()) w' \<and>
    said 8 (os_trace w') = [([Some 65], attachment_control [Attachment_ctor 4])]"
proof -
  let ?w = "start_os False [reply 1 ENONE]"
  have one: "int_to_size 1 = 1" "to_int 1 = 1" by (simp_all add: int_to_size_def to_int_small)
  obtain w' where "Socket_WriteMessage (tiny_message [4]) (open_socket 8) ?w = Done (Success, open_socket 8) w'"
    "os_trace w' = [Sys (Sendmsg 8 [Some 65] (attachment_control [Attachment_ctor 4])) (reply 1 ENONE)]"
    using Socket_WriteMessage_result [of ?w "[]" "[]" "reply 1 ENONE" "[]" "tiny_message [4]" "open_socket 8"] one
    by (auto simp: busy_answers_def busy_events_def interrupted_def would_block_def MaxBufferSize_def)
  moreover have "(open_channel 8)\<lparr>ch_socket := open_socket 8\<rparr> = open_channel 8"
    using open_channel_simps(1) [of 8] by (cases "open_channel 8") simp
  ultimately have w': "Channel_sendMessage quiet_callbacks (tiny_message [4]) (open_channel 8, ()) ?w = Done (True, open_channel 8, ()) w'"
    "os_trace w' = [Sys (Sendmsg 8 [Some 65] (attachment_control [Attachment_ctor 4])) (reply 1 ENONE)]"
    by (simp_all add: Channel_sendMessage_def CL_ASSERT_holds)
  have "\<exists>es. os_trace w' = os_trace ?w @ es \<and> ((\<forall>e \<in> set es. whole 8 e) \<longrightarrow>
      said 8 es = (if True then [(Message_data (tiny_message [4]), attachment_control (m_attachments (tiny_message [4])))] else []))"
    by (rule Channel_sendMessage_said [OF w'(1)]) (use tiny_sendable_any [of "[4]"] in \<open>auto intro: forward_intros\<close>)
  with w' show ?thesis by auto
qed

end
