(* ===== verification/Spec2Isabelle.thy ===== *)
theory Spec2Isabelle
  imports CL_Platforms CL_Threads CL_Connection CL_Timers CL_Unschedule CL_Race CL_Conversation
begin

text \<open>
  A verification development for CoreLib, a small C++ library of run loops and message channels
  over POSIX (\<^verbatim>\<open>Source/\<close> and \<^verbatim>\<open>Headers/\<close> of the repository).

  The program. A \<^verbatim>\<open>Looper\<close> runs the event loop of a thread: its \<^verbatim>\<open>WaitSet\<close> (epoll or kqueue) reports
  a ready \<^verbatim>\<open>LooperSource\<close>, whose reader and wake function the loop calls. A \<^verbatim>\<open>Channel\<close> is a source
  whose reader takes \<^verbatim>\<open>Message\<close>s, with \<^verbatim>\<open>Attachment\<close>s (descriptors), from a \<^verbatim>\<open>Socket\<close>, and invokes
  the callbacks of the client; a \<^verbatim>\<open>Server\<close> is a source whose reader accepts connections and makes
  channels of them. \<^verbatim>\<open>SharedMemory\<close> is an anonymous region to be shared by its descriptor; \<^verbatim>\<open>Lock\<close>
  and \<^verbatim>\<open>AutoLock\<close> guard the sockets; \<^verbatim>\<open>Utilities.h\<close> has the macros for assertions, logging and
  calls that are retried.

  Theories, in the order of their imports:
  \<^item> \<open>CL_Prelude\<close>: machine types (\<open>size_t\<close> is a 64-bit word, a handle an integer), the
    little-endian bytes of scalars, memory regions with indeterminate bytes.
  \<^item> \<open>CL_World\<close>: the kernel as a script of arbitrary answers and a trace of calls, failures as
    values (assertion, memory fault, deadlock), the macros of \<^verbatim>\<open>Utilities.h\<close>. Its lemmas evaluate
    the macros and bound what an operation may do to the world (\<open>forward\<close>).
  \<^item> \<open>CL_Message\<close>: \<^verbatim>\<open>Message.h\<close>, \<^verbatim>\<open>Message.cpp\<close>, \<^verbatim>\<open>Attachment.*\<close>. Growth of the buffer, encoding,
    decoding; round trips, bounds, and the invariant of every message that can be built.
  \<^item> \<open>CL_Lock\<close>: \<^verbatim>\<open>Lock.h\<close>, \<^verbatim>\<open>AutoLock.h\<close>; the contract of a mutex (locale \<open>mutex\<close>) and the
    serialisation of guarded scopes in any interleaving of threads.
  \<^item> \<open>CL_Socket\<close>: \<^verbatim>\<open>Socket.*\<close>. Construction, reading, writing and closing; what reading and
    writing return for whole conversations with the kernel, delivery from one end to the other,
    and the contract of an object that owns a descriptor (locale \<open>closable\<close>).
  \<^item> \<open>CL_SharedMemory\<close>: \<^verbatim>\<open>SharedMemory.*\<close>. The search for a name, construction with its failure
    exit, release.
  \<^item> \<open>CL_Source\<close>: \<^verbatim>\<open>LooperSource.*\<close> for both platforms. The lambdas of the library are the
    constructors of datatypes with an interpreter each; closures of the client are the parameter
    \<open>user_code\<close>.
  \<^item> \<open>CL_WaitSet\<close>: \<^verbatim>\<open>WaitSet.*\<close> for both platforms. The set refines a mathematical set and the
    kernel's registrations mirror it; the locales \<open>ordered_set\<close> and \<open>waitset_platform\<close> are
    interpreted on the address lists of the model, and on epoll and kqueue.
  \<^item> \<open>CL_Looper\<close>: \<^verbatim>\<open>Looper.*\<close>. The loop in its thread, and the race with \<^verbatim>\<open>terminate\<close> of other
    threads as a step relation.
  \<^item> \<open>CL_Channel\<close>, \<open>CL_Server\<close>: \<^verbatim>\<open>Channel.*\<close>, \<^verbatim>\<open>Server.*\<close>, with the client's callbacks as parameters.
  \<^item> \<open>CL_Program\<close>: the wiring of loop, channels and servers, and properties that span them.
  \<^item> \<open>CL_Session\<close>: whole sessions of a looper thread: several channels on one loop, and a
    connection from its arrival at the server to the delivery of its messages.
  \<^item> \<open>CL_Safety\<close>: type soundness. A typing of threads (\<open>thread_ok\<close>: buffers are there, readers
    lead to objects, the kernel knows only sources that exist) that every operation of a reader
    keeps (\<open>sound\<close>), so the loop does not touch memory it should not while the kernel keeps
    its contract (\<open>breached\<close>).
  \<^item> \<open>CL_Platforms\<close>: the back ends for epoll and kqueue compared (\<open>alike\<close>), operation by operation
    and then for whole runs of the loop. Timers are made from different sources on the two and
    are outside of the comparison.
  \<^item> \<open>CL_Threads\<close>: several threads on one socket. \<open>call_step\<close> takes the bodies of
    \<^verbatim>\<open>ReadMessages\<close> and \<^verbatim>\<open>WriteMessage\<close> apart into system calls, \<open>thread_step\<close> interleaves them
    under the lock; a simulation shows that the calls are atomic.
  \<^item> \<open>CL_Connection\<close>: both ends of a connection, each a process that makes its calls one system
    call at a time, against a kernel with two bounded queues (\<open>kernel_step\<close>). An invariant shows
    that a connection is a reliable first-in first-out queue, what the results of the calls mean,
    and which calls can return.
  \<^item> \<open>CL_Timers\<close>: timers of both platforms over the whole life of a looper, from its construction
    to its destruction, as an exact sequence of system calls.
  \<^item> \<open>CL_Unschedule\<close>: a channel that was unscheduled is left alone by the loop. The invariant
    (\<open>apart\<close>) is kept by every operation of a reader (\<open>leaves\<close>); that the reader does not run is
    stated as independence of the run from its code (\<open>rewired\<close>).
  \<^item> \<open>CL_Race\<close>: \<^verbatim>\<open>Channel::terminate\<close> taken apart into its accesses to the shared fields
    (\<open>terminate_small\<close>; run in one piece they are \<open>Channel_terminate\<close>), and called by several threads.

  \<^item> \<open>CL_Hearing\<close>: what a whole looper thread hears on a channel is what it receives on the channel's
    descriptor (\<open>attentive\<close>), whatever else it serves and whatever its client does in its
    callbacks (\<open>polite\<close>, \<open>courteous\<close>).
  \<^item> \<open>CL_Conversation\<close>: two such threads on the ends of one connection (\<open>talk\<close>: turns of sending,
    running the loop, hanging up), whose system calls the kernel of \<open>CL_Connection\<close> sees in any
    interleaving (\<open>joint\<close>). What one side was told it sent is what the other side's callback hears.

  Conventions. An object is a record with the fields of its class; an operation
  \<open>Class_method\<close> takes the object and the world and returns the result, the new object and the
  new world, or a failure. \<open>os_ndebug\<close> selects between a build with assertions and one without.
  A call asks the script for its answer; a computation that needs more answers than there are
  is still waiting and yields \<open>OutOfScript\<close>, so a theorem about every script covers every
  kernel, and loops of calls are recursions on the script. Shared pointers are addresses into
  a store, 0 is null. Where a property needs a kernel that behaves as documented (sequenced
  packets are delivered whole, a refused call changes nothing, a queue reports what was
  registered), that is a named hypothesis (\<open>carries\<close>, \<open>all_succeed\<close>, \<open>interest\<close>), and the
  example after the property shows it satisfied. \<open>kernel_step\<close> is such behaviour as a relation, for
  a pair of sequenced-packet sockets; memory and descriptors of the receiver do not run out in it.
  A property that spans a send and a read does not assume what the packet holds: \<open>transmits\<close> says
  that it carries what the last \<^verbatim>\<open>sendmsg\<close> of the sender's trace gave to the kernel.
  The signal \<^verbatim>\<open>SIGPIPE\<close>, which the library neither blocks nor suppresses, is taken to be ignored by
  the client, so that a write to a closed connection returns \<^verbatim>\<open>EPIPE\<close>.

  Messages. The properties of whole connections (\<open>CL_Connection\<close>, \<open>CL_Hearing\<close>,
  \<open>CL_Conversation\<close>) are about messages that are \<open>sendable\<close>: not empty, of at most 4096 bytes, with at
  most one descriptor. What becomes of the others has properties of its own: \<open>CL_Connection\<close> has the
  writes that are too large, \<open>CL_Socket\<close> the messages without bytes and those with several
  descriptors.

  Bounds and fuel. Only \<open>Looper_while\<close> has fuel: \<open>Looper_loop_fuel\<close> shows that one unit more than
  the length of the script is enough and that more makes no difference. The loop of
  \<open>CreateBackingIfNecessary\<close> has the 25 tries of the source.

  Not modelled. The release of heap memory (\<^verbatim>\<open>free\<close>, destruction of buffers) and use of an object
  after its destruction; the text of log messages; errors of the pthread calls; exceptions of
  the standard library. The walk over control messages starts at the first one, as RFC 3542
  defines \<^verbatim>\<open>CMSG_NXTHDR\<close> for a null argument. A write that runs in one piece (\<open>send_loop\<close>) loads the
  descriptor once; \<open>call_step\<close>, for calls that are interleaved, loads it for every call as the
  source does. The constants of the kernel's interface are those
  of 64-bit Linux. The flag of the looper and the fields a channel shares between threads are taken
  to be accessed atomically and in one order; in C++ unguarded accesses are undefined behaviour. \<^verbatim>\<open>Layer.*\<close> and
  \<^verbatim>\<open>RingBuffer.*\<close> are empty in the repository, and \<^verbatim>\<open>Test/\<close> holds tests and the GoogleTest sources
  they use.

  Apart from the allocation helper of \<^verbatim>\<open>Base.h\<close>, nothing of \<^verbatim>\<open>Source/\<close> and \<^verbatim>\<open>Headers/\<close> that runs
  is left out. Objects are destroyed only when nothing uses them any more: a channel must be
  unscheduled before (\<^verbatim>\<open>Channel.h\<close> says so), and likewise a server, whose reader keeps the address
  of the object; a report of such a source would be a use after destruction, which has no meaning
  in C++ and none here. A thread in \<open>CL_Conversation\<close> has no server, since the descriptor of an
  accepted connection is chosen by the kernel while the conversation runs.
\<close>

end
